(* ===== verification/Prelude.thy ===== *)
theory Prelude
  imports Complex_Main "HOL-Library.AList" "HOL-Library.Multiset" "HOL-Library.Word"
begin

section \<open>Prelude: Python values, ordered dictionaries, shared automation\<close>

text \<open>
  The vocabulary that every component theory uses:
  \<^item> Python exceptions as values of a datatype and results as \<open>py_error + 'a\<close>;
  \<^item> a Python \<open>dict\<close> or \<open>OrderedDict\<close> as an association list in insertion order, with the
    library's \<open>AList.update\<close> (assignment keeps the position of an existing key and appends a
    new one), \<open>AList.delete\<close> and the operation \<open>move_to_end\<close>;
  \<^item> a Python float as an exact real number, with \<open>py_int\<close> for the truncation of \<open>int()\<close>;
  \<^item> the wrap-around of the \<open>ctypes\<close> fields \<open>c_int32\<close> and \<open>c_int64\<close>;
  \<^item> the collections \<open>od_simps\<close> (ordered dictionaries) and \<open>res_simps\<close> (results) that the
    component proofs add to the simplifier.
\<close>

named_theorems od_simps \<open>rewrite rules for ordered dictionaries\<close>
named_theorems res_simps \<open>rewrite rules for results\<close>

text \<open>Python \<open>bytes\<close> are lists of 8-bit words.\<close>

type_synonym bytes = "8 word list"

subsection \<open>Exceptions and results\<close>

datatype py_error =
    KeyError
  | IndexError
  | AssertionError
  | ZeroDivisionError
  | OverflowError
  | TypeError
  | ValueError string
  | RuntimeError string

type_synonym 'a res = "py_error + 'a"

definition rbind :: "'a res \<Rightarrow> ('a \<Rightarrow> 'b res) \<Rightarrow> 'b res" where
  "rbind m f = (case m of Inl e \<Rightarrow> Inl e | Inr x \<Rightarrow> f x)"

definition py_assert :: "bool \<Rightarrow> 'a res \<Rightarrow> 'a res" where
  "py_assert b k = (if b then k else Inl AssertionError)"

text \<open>A \<open>for\<close> loop whose body can raise: the first exception ends it.\<close>

fun rfold :: "('x \<Rightarrow> 's \<Rightarrow> 's res) \<Rightarrow> 'x list \<Rightarrow> 's \<Rightarrow> 's res" where
  "rfold f [] s = Inr s"
| "rfold f (x # xs) s = rbind (f x s) (rfold f xs)"

lemma rbind_Inl [simp, res_simps]: "rbind (Inl e) f = Inl e"
  by (simp add: rbind_def)

lemma rbind_Inr [simp, res_simps]: "rbind (Inr x) f = f x"
  by (simp add: rbind_def)

lemma rbind_eq_Inr [res_simps]: "rbind m f = Inr y \<longleftrightarrow> (\<exists>x. m = Inr x \<and> f x = Inr y)"
  by (cases m) simp_all

lemma rbind_eq_Inl: "rbind m f = Inl e \<longleftrightarrow> m = Inl e \<or> (\<exists>x. m = Inr x \<and> f x = Inl e)"
  by (cases m) simp_all

lemma rbind_assoc: "rbind (rbind m f) g = rbind m (\<lambda>x. rbind (f x) g)"
  by (cases m) simp_all

lemma py_assert_True [simp]: "py_assert True k = k"
  by (simp add: py_assert_def)

lemma py_assert_False [simp]: "py_assert False k = Inl AssertionError"
  by (simp add: py_assert_def)

lemma py_assert_eq_Inr [res_simps]: "py_assert b k = Inr y \<longleftrightarrow> b \<and> k = Inr y"
  by (simp add: py_assert_def)

lemma rfold_append: "rfold f (xs @ ys) s = rbind (rfold f xs s) (rfold f ys)"
  by (induction xs arbitrary: s) (auto simp: rbind_def split: sum.split)

text \<open>An invariant that every iteration keeps holds when the loop ends.\<close>

lemma rfold_invariant:
  assumes "rfold f xs s = Inr t" and "P s"
    and step: "\<And>x u v. x \<in> set xs \<Longrightarrow> P u \<Longrightarrow> f x u = Inr v \<Longrightarrow> P v"
  shows "P t"
  using assms
proof (induction xs arbitrary: s)
  case Nil
  then show ?case by simp
next
  case (Cons x xs)
  from Cons.prems(1) obtain u where u: "f x s = Inr u" "rfold f xs u = Inr t"
    by (auto simp: rbind_eq_Inr)
  from _ Cons.prems(2) u(1) have "P u" by (rule Cons.prems(3)) simp
  with u(2) Cons.prems(3) show ?case by (intro Cons.IH) auto
qed

text \<open>A loop whose body never raises in the states that satisfy the invariant ends normally.\<close>

lemma rfold_total:
  assumes "P s"
    and step: "\<And>x u. x \<in> set xs \<Longrightarrow> P u \<Longrightarrow> \<exists>v. f x u = Inr v \<and> P v"
  shows "\<exists>t. rfold f xs s = Inr t \<and> P t"
  using assms
proof (induction xs arbitrary: s)
  case Nil
  then show ?case by simp
next
  case (Cons x xs)
  then obtain u where "f x s = Inr u" "P u" by (metis list.set_intros(1))
  with Cons show ?case by (simp add: rbind_eq_Inr)
qed

subsection \<open>Ordered dictionaries\<close>

type_synonym ('k, 'v) odict = "('k \<times> 'v) list"

definition wf_od :: "('k, 'v) odict \<Rightarrow> bool" where
  "wf_od d \<longleftrightarrow> distinct (map fst d)"

definition has_key :: "'k \<Rightarrow> ('k, 'v) odict \<Rightarrow> bool" where
  "has_key k d \<longleftrightarrow> map_of d k \<noteq> None"

definition move_to_end :: "'k \<Rightarrow> ('k, 'v) odict \<Rightarrow> ('k, 'v) odict" where
  "move_to_end k d =
     (case map_of d k of None \<Rightarrow> d | Some v \<Rightarrow> AList.delete k d @ [(k, v)])"

definition get_default :: "'v \<Rightarrow> 'k \<Rightarrow> ('k, 'v) odict \<Rightarrow> 'v" where
  "get_default z k d = (case map_of d k of None \<Rightarrow> z | Some v \<Rightarrow> v)"

definition set_default :: "'k \<Rightarrow> 'v \<Rightarrow> ('k, 'v) odict \<Rightarrow> ('k, 'v) odict" where
  "set_default k v d = (if has_key k d then d else AList.update k v d)"

lemma wf_od_Nil [simp, od_simps]: "wf_od []"
  by (simp add: wf_od_def)

lemma wf_od_Cons [simp, od_simps]: "wf_od ((k, v) # d) \<longleftrightarrow> k \<notin> fst ` set d \<and> wf_od d"
  by (simp add: wf_od_def)

lemma has_key_iff [od_simps]: "has_key k d \<longleftrightarrow> k \<in> fst ` set d"
  by (simp add: has_key_def map_of_eq_None_iff)

lemma has_key_Some [od_simps]: "has_key k d \<longleftrightarrow> (\<exists>v. map_of d k = Some v)"
  by (auto simp: has_key_def)

lemma wf_od_update [simp, od_simps, intro]: "wf_od d \<Longrightarrow> wf_od (AList.update k v d)"
  by (simp add: wf_od_def distinct_update)

lemma wf_od_delete [simp, od_simps, intro]: "wf_od d \<Longrightarrow> wf_od (AList.delete k d)"
  by (simp add: wf_od_def distinct_delete)

lemma map_of_update [simp, od_simps]: "map_of (AList.update k v d) = (map_of d)(k \<mapsto> v)"
  by (rule update_conv')

lemma map_of_delete [simp, od_simps]: "map_of (AList.delete k d) = (map_of d)(k := None)"
  by (rule delete_conv')

lemma wf_od_filter [simp, od_simps, intro]: "wf_od d \<Longrightarrow> wf_od (filter P d)"
  by (simp add: wf_od_def distinct_map_filter)

lemma wf_od_append:
  "wf_od (d @ e) \<longleftrightarrow> wf_od d \<and> wf_od e \<and> fst ` set d \<inter> fst ` set e = {}"
  by (simp add: wf_od_def)

lemma wf_od_move_to_end [simp, od_simps, intro]: "wf_od d \<Longrightarrow> wf_od (move_to_end k d)"
  by (auto simp: move_to_end_def wf_od_append AList.delete_eq split: option.split)

lemma map_of_move_to_end [simp, od_simps]: "map_of (move_to_end k d) = map_of d"
  by (auto simp: move_to_end_def map_add_def fun_eq_iff split: option.splits)

lemma wf_od_map_of_iff: "wf_od d \<Longrightarrow> map_of d k = Some v \<longleftrightarrow> (k, v) \<in> set d"
  by (simp add: wf_od_def)

lemma mset_update_fresh:
  "map_of d k = None \<Longrightarrow> mset (AList.update k v d) = add_mset (k, v) (mset d)"
  by (induction d) (auto split: if_splits)

lemma mset_update_old:
  "wf_od d \<Longrightarrow> map_of d k = Some w \<Longrightarrow>
   add_mset (k, w) (mset (AList.update k v d)) = add_mset (k, v) (mset d)"
  by (induction d) (auto split: if_splits simp: add_mset_commute)

lemma mset_delete_key:
  "wf_od d \<Longrightarrow> map_of d k = Some v \<Longrightarrow> mset d = add_mset (k, v) (mset (AList.delete k d))"
proof (induction d)
  case Nil
  then show ?case by simp
next
  case (Cons p d)
  show ?case
  proof (cases "fst p = k")
    case True
    with Cons.prems have "AList.delete k d = d"
      by (cases p) (auto intro: delete_idem)
    with True Cons.prems show ?thesis by (cases p) auto
  next
    case False
    with Cons show ?thesis by (cases p) auto
  qed
qed

lemma delete_absent [od_simps]: "map_of d k = None \<Longrightarrow> AList.delete k d = d"
  by (simp add: delete_idem map_of_eq_None_iff)

lemma mset_move_to_end [simp, od_simps]: "wf_od d \<Longrightarrow> mset (move_to_end k d) = mset d"
  by (auto simp: move_to_end_def mset_delete_key split: option.split)

lemma length_move_to_end [simp, od_simps]: "wf_od d \<Longrightarrow> length (move_to_end k d) = length d"
  by (metis mset_move_to_end size_mset)

lemma fst_set_move_to_end [simp, od_simps]: "fst ` set (move_to_end k d) = fst ` set d"
  by (simp flip: dom_map_of_conv_image_fst)

lemma map_of_None_disjoint:
  "map_of d k = Some v \<Longrightarrow> fst ` set d \<inter> fst ` set e = {} \<Longrightarrow> map_of e k = None"
  by (metis disjoint_iff has_key_def has_key_iff option.discI)

lemma fst_set_update [simp, od_simps]:
  "fst ` set (AList.update k v d) = insert k (fst ` set d)"
  by (simp add: dom_update)

lemma fst_set_delete [simp, od_simps]:
  "fst ` set (AList.delete k d) = fst ` set d - {k}"
  by (auto simp: AList.delete_eq)

lemma update_fresh: "k \<notin> fst ` set d \<Longrightarrow> AList.update k v d = d @ [(k, v)]"
  by (induction d) auto

lemma length_update_le: "length (AList.update k v d) \<le> Suc (length d)"
  by (induction d) auto

lemma length_delete_present:
  "wf_od d \<Longrightarrow> map_of d k = Some v \<Longrightarrow> Suc (length (AList.delete k d)) = length d"
  using arg_cong [OF mset_delete_key, of d k v size] by simp

lemma wf_od_mset_cong: "mset d = mset e \<Longrightarrow> wf_od d \<longleftrightarrow> wf_od e"
  by (metis mset_eq_imp_distinct_iff mset_map wf_od_def)

lemma map_of_mset_cong:
  assumes "wf_od d" and "mset d = mset e"
  shows "map_of d = map_of e"
proof -
  have e: "wf_od e" using assms wf_od_mset_cong by blast
  have "set d = set e" using assms(2) by (rule mset_eq_setD)
  then have "map_of d k = Some v \<longleftrightarrow> map_of e k = Some v" for k v
    using assms(1) e by (simp add: wf_od_map_of_iff)
  then show ?thesis by (metis map_le_antisym map_le_def domD)
qed

lemma fold_delete_filter:
  "fold (\<lambda>kv d. AList.delete (fst kv) d) c d = filter (\<lambda>kv. fst kv \<notin> fst ` set c) d"
  by (induction c arbitrary: d) (auto simp: AList.delete_eq intro!: filter_cong)

text \<open>Removing distinct entries of a dictionary by key splits its multiset of entries.\<close>

lemma mset_partition_keys:
  assumes "wf_od d" and "distinct c" and "set c \<subseteq> set d"
  shows "mset d = mset c + mset (filter (\<lambda>kv. fst kv \<notin> fst ` set c) d)"
proof -
  have "distinct d" using assms(1) by (auto simp: wf_od_def distinct_map)
  moreover have "set (filter (\<lambda>kv. fst kv \<in> fst ` set c) d) = set c"
    using assms(1,3) by (force simp: wf_od_def dest: eq_key_imp_eq_value)
  ultimately have "mset c = mset (filter (\<lambda>kv. fst kv \<in> fst ` set c) d)"
    using assms(2) by (metis distinct_filter set_eq_iff_mset_eq_distinct)
  then show ?thesis
    by (metis mset_filter multiset_partition)
qed

definition change_key :: "'k \<Rightarrow> ('v \<Rightarrow> 'v) \<Rightarrow> 'k \<times> 'v \<Rightarrow> 'k \<times> 'v" where
  "change_key k f = (\<lambda>(k', v). (k', if k' = k then f v else v))"

lemma fst_change_key [simp]: "fst (change_key k f p) = fst p"
  by (simp add: change_key_def split: prod.split)

lemma fst_image_change_key [simp]: "fst ` change_key k f ` A = fst ` A"
  by (simp add: image_image)

lemma map_entry_change_key:
  "wf_od d \<Longrightarrow> AList.map_entry k f d = map (change_key k f) d"
proof (induction d)
  case Nil
  then show ?case by simp
next
  case (Cons p d)
  have "map (change_key k f) d = d" if "k \<notin> fst ` set d"
    using that by (intro map_idI) (force simp: change_key_def split: prod.split)
  with Cons show ?case by (cases p) (auto simp: change_key_def)
qed

lemma map_change_key_absent: "k \<notin> fst ` set d \<Longrightarrow> map (change_key k f) d = d"
  by (intro map_idI) (force simp: change_key_def split: prod.split)

lemma wf_od_map_change_key [simp]: "wf_od (map (change_key k f) d) = wf_od d"
  by (simp add: wf_od_def comp_def)

lemma map_of_change_key:
  "map_of (map (change_key k f) d) k' =
     (if k' = k then map_option f (map_of d k) else map_of d k')"
  by (induction d) (auto simp: change_key_def)

subsection \<open>Numbers\<close>

type_synonym pyfloat = real

text \<open>\<open>int(x)\<close> truncates towards zero.\<close>

definition py_int :: "pyfloat \<Rightarrow> int" where
  "py_int x = (if 0 \<le> x then \<lfloor>x\<rfloor> else \<lceil>x\<rceil>)"

text \<open>A store into a \<open>ctypes\<close> integer field keeps the low bits as a signed number.\<close>

definition c_int32 :: "int \<Rightarrow> int" where
  "c_int32 x = (x + 2 ^ 31) mod 2 ^ 32 - 2 ^ 31"

definition c_int64 :: "int \<Rightarrow> int" where
  "c_int64 x = (x + 2 ^ 63) mod 2 ^ 64 - 2 ^ 63"

lemma c_int32_range: "- (2 ^ 31) \<le> c_int32 x \<and> c_int32 x < 2 ^ 31"
proof -
  have "0 \<le> (x + 2 ^ 31) mod (2 ^ 32 :: int)" "(x + 2 ^ 31) mod (2 ^ 32 :: int) < 2 ^ 32"
    by simp_all
  then show ?thesis by (simp add: c_int32_def)
qed

lemma c_int32_id [simp]: "- (2 ^ 31) \<le> x \<Longrightarrow> x < 2 ^ 31 \<Longrightarrow> c_int32 x = x"
  by (simp add: c_int32_def)

lemma c_int32_neg1 [simp]: "c_int32 (-1) = -1"
  by (simp add: c_int32_def)

lemma c_int32_0 [simp]: "c_int32 0 = 0"
  by (simp add: c_int32_def)

lemma c_int64_id [simp]: "- (2 ^ 63) \<le> x \<Longrightarrow> x < 2 ^ 63 \<Longrightarrow> c_int64 x = x"
  by (simp add: c_int64_def)

lemma py_int_nonneg: "0 \<le> x \<Longrightarrow> 0 \<le> py_int x"
  by (simp add: py_int_def)

lemma py_int_le: "0 \<le> x \<Longrightarrow> of_int (py_int x) \<le> x"
  by (simp add: py_int_def)

lemma py_int_gt: "0 \<le> x \<Longrightarrow> x < of_int (py_int x) + 1"
  by (simp add: py_int_def)

lemma py_int_of_int [simp]: "py_int (of_int n) = n"
  by (simp add: py_int_def)

text \<open>A weighted mean lies between its arguments.\<close>

lemma convex_bounds:
  fixes a x p :: real
  assumes "0 \<le> a" "a \<le> 1"
  shows "min p x \<le> a * x + (1 - a) * p" "a * x + (1 - a) * p \<le> max p x"
proof -
  have "a * min p x + (1 - a) * min p x \<le> a * x + (1 - a) * p"
    using assms by (intro add_mono mult_left_mono) auto
  then show "min p x \<le> a * x + (1 - a) * p" by (simp add: algebra_simps)
  have "a * x + (1 - a) * p \<le> a * max p x + (1 - a) * max p x"
    using assms by (intro add_mono mult_left_mono) auto
  then show "a * x + (1 - a) * p \<le> max p x" by (simp add: algebra_simps)
qed

subsection \<open>Ceiling division\<close>

text \<open>The integer ceiling division of \<^verbatim>\<open>vllm/utils/math_utils.py\<close>.\<close>

definition cdiv :: "nat \<Rightarrow> nat \<Rightarrow> nat" where
  "cdiv a b = nat (- (int a div - int b))"

lemma cdiv_le_iff: "0 < b \<Longrightarrow> cdiv a b \<le> k \<longleftrightarrow> a \<le> k * b"
proof -
  assume b: "0 < b"
  let ?d = "(- int a) div int b" and ?r = "(- int a) mod int b"
  have e: "- int a = ?d * int b + ?r" by simp
  have r: "0 \<le> ?r" "?r < int b" using b by simp_all
  have "- ?d \<le> int k \<longleftrightarrow> int a \<le> int k * int b"
  proof
    assume "- ?d \<le> int k"
    then have "- ?d * int b \<le> int k * int b" by (intro mult_right_mono) simp_all
    with e r show "int a \<le> int k * int b" by linarith
  next
    assume a: "int a \<le> int k * int b"
    show "- ?d \<le> int k"
    proof (rule ccontr)
      assume "\<not> - ?d \<le> int k"
      then have "(int k + 1) * int b \<le> - ?d * int b" by (intro mult_right_mono) simp_all
      then have "int k * int b + int b \<le> - (?d * int b)" by (simp add: distrib_right)
      with e r a show False by linarith
    qed
  qed
  then show ?thesis by (simp add: cdiv_def div_minus_right nat_le_iff flip: of_nat_mult)
qed

lemma cdiv_min_mult:
  assumes "0 < b" "n \<le> cdiv a b"
  shows "cdiv (min a (b * n)) b = n"
proof (rule antisym)
  show "cdiv (min a (b * n)) b \<le> n" using assms(1) by (simp add: cdiv_le_iff mult.commute)
  show "n \<le> cdiv (min a (b * n)) b"
  proof (rule ccontr)
    assume "\<not> n \<le> cdiv (min a (b * n)) b"
    then have "cdiv (min a (b * n)) b \<le> n - 1" "0 < n" by linarith+
    then have "min a (b * n) \<le> (n - 1) * b" using assms(1) by (simp add: cdiv_le_iff)
    moreover have "\<not> b * n \<le> (n - 1) * b" using assms(1) \<open>0 < n\<close> by (simp add: diff_mult_distrib mult.commute)
    ultimately have "cdiv a b \<le> n - 1" using assms(1) by (simp add: cdiv_le_iff min_def split: if_splits)
    then show False using assms(2) \<open>0 < n\<close> by simp
  qed
qed

lemma div_less_cdiv: "0 < b \<Longrightarrow> a + b \<le> c \<Longrightarrow> a div b < cdiv c b"
proof (rule ccontr)
  assume a: "0 < b" "a + b \<le> c" "\<not> a div b < cdiv c b"
  then have "c \<le> a div b * b" using cdiv_le_iff [of b c "a div b"] by simp
  then have "c \<le> a" using div_times_less_eq_dividend [of a b] by linarith
  with a show False by simp
qed

end
