(* ===== verification/Cache_Policies.thy ===== *)
theory Cache_Policies
  imports Prelude
begin

section \<open>Cache policies of the CPU offload tier\<close>

text \<open>
  The replacement policies under \<^verbatim>\<open>vllm/v1/kv_offload/cpu/policies\<close>: the block status
  (\<^verbatim>\<open>base.py\<close>), the LRU policy (\<^verbatim>\<open>lru.py\<close>) and the ARC policy (\<^verbatim>\<open>arc.py\<close>).
  Each policy is a record with one definition per method. The contract that the offload
  manager relies on is the locale \<open>cache_policy\<close>; it is interpreted on LRU, on ARC and on
  their tagged union \<open>policy\<close>, which is what the manager holds. The locale
  \<open>complete_policy\<close> adds that an eviction fails only when too few blocks can be evicted;
  LRU has that property and ARC does not.
  A \<open>BlockStatus\<close> object is reachable from one dictionary entry only, so an assignment to
  its \<open>ref_cnt\<close> is an update of that entry (\<open>lru_modify\<close>, \<open>arc_modify\<close>).
\<close>

subsection \<open>Block status\<close>

type_synonym offload_key = bytes

record block_status =
  ref_cnt :: int
  block_id :: int

definition BlockStatus :: "int \<Rightarrow> block_status" where
  "BlockStatus i = \<lparr>ref_cnt = c_int32 (-1), block_id = c_int64 i\<rparr>"

definition is_ready :: "block_status \<Rightarrow> bool" where
  "is_ready b \<longleftrightarrow> 0 \<le> ref_cnt b"

text \<open>The condition under which both policies accept an entry as an eviction candidate.\<close>

definition evictable :: "offload_key set \<Rightarrow> offload_key \<times> block_status \<Rightarrow> bool" where
  "evictable protected = (\<lambda>(k, b). ref_cnt b = 0 \<and> k \<notin> protected)"

subsection \<open>LRU\<close>

record lru_policy =
  blocks :: "(offload_key, block_status) odict"

definition lru_init :: lru_policy where
  "lru_init = \<lparr>blocks = []\<rparr>"

definition lru_get :: "lru_policy \<Rightarrow> offload_key \<Rightarrow> block_status option" where
  "lru_get p k = map_of (blocks p) k"

definition lru_insert :: "offload_key \<Rightarrow> block_status \<Rightarrow> lru_policy \<Rightarrow> lru_policy" where
  "lru_insert k b p = p\<lparr>blocks := AList.update k b (blocks p)\<rparr>"

definition lru_remove :: "offload_key \<Rightarrow> lru_policy \<Rightarrow> lru_policy res" where
  "lru_remove k p =
     (if has_key k (blocks p) then Inr (p\<lparr>blocks := AList.delete k (blocks p)\<rparr>)
      else Inl KeyError)"

definition lru_touch1 :: "offload_key \<Rightarrow> lru_policy \<Rightarrow> lru_policy" where
  "lru_touch1 k p =
     (if has_key k (blocks p) then p\<lparr>blocks := move_to_end k (blocks p)\<rparr> else p)"

definition lru_touch :: "offload_key list \<Rightarrow> lru_policy \<Rightarrow> lru_policy" where
  "lru_touch keys p = fold lru_touch1 (rev keys) p"

definition lru_clear :: "lru_policy \<Rightarrow> lru_policy" where
  "lru_clear p = p\<lparr>blocks := []\<rparr>"

definition lru_modify ::
  "offload_key \<Rightarrow> (block_status \<Rightarrow> block_status) \<Rightarrow> lru_policy \<Rightarrow> lru_policy" where
  "lru_modify k f p = p\<lparr>blocks := AList.map_entry k f (blocks p)\<rparr>"

text \<open>The scan of \<open>evict\<close>: it stops as soon as \<open>n\<close> candidates are found.\<close>

fun lru_collect ::
  "nat \<Rightarrow> offload_key set \<Rightarrow> (offload_key \<times> block_status) list
     \<Rightarrow> (offload_key \<times> block_status) list \<Rightarrow> (offload_key \<times> block_status) list" where
  "lru_collect n protected [] candidates = candidates"
| "lru_collect n protected (kb # rest) candidates =
     (if evictable protected kb then
        (let candidates' = candidates @ [kb]
         in if length candidates' = n then candidates'
            else lru_collect n protected rest candidates')
      else lru_collect n protected rest candidates)"

definition lru_evict ::
  "nat \<Rightarrow> offload_key set \<Rightarrow> lru_policy
     \<Rightarrow> ((offload_key \<times> block_status) list \<times> lru_policy) option" where
  "lru_evict n protected p =
     (if n = 0 then Some ([], p)
      else let candidates = lru_collect n protected (blocks p) []
           in if length candidates < n then None
              else Some (candidates,
                p\<lparr>blocks := fold (\<lambda>kb d. AList.delete (fst kb) d) candidates (blocks p)\<rparr>))"

subsection \<open>ARC\<close>

record arc_policy =
  cache_capacity :: nat
  target_t1_size :: pyfloat
  t1 :: "(offload_key, block_status) odict"
  t2 :: "(offload_key, block_status) odict"
  b1 :: "(offload_key, unit) odict"
  b2 :: "(offload_key, unit) odict"

definition arc_init :: "nat \<Rightarrow> arc_policy" where
  "arc_init capacity =
     \<lparr>cache_capacity = capacity, target_t1_size = 0, t1 = [], t2 = [], b1 = [], b2 = []\<rparr>"

definition arc_get :: "arc_policy \<Rightarrow> offload_key \<Rightarrow> block_status option" where
  "arc_get p k = (case map_of (t1 p) k of Some b \<Rightarrow> Some b | None \<Rightarrow> map_of (t2 p) k)"

definition arc_insert :: "offload_key \<Rightarrow> block_status \<Rightarrow> arc_policy \<Rightarrow> arc_policy" where
  "arc_insert k b p =
     p\<lparr>t1 := AList.update k b (t1 p), b1 := AList.delete k (b1 p), b2 := AList.delete k (b2 p)\<rparr>"

definition arc_remove :: "offload_key \<Rightarrow> arc_policy \<Rightarrow> arc_policy" where
  "arc_remove k p =
     (if has_key k (t1 p) then p\<lparr>t1 := AList.delete k (t1 p)\<rparr>
      else p\<lparr>t2 := AList.delete k (t2 p)\<rparr>)"

definition arc_touch1 :: "offload_key \<Rightarrow> arc_policy \<Rightarrow> arc_policy" where
  "arc_touch1 k p =
     (case map_of (t1 p) k of
        Some block \<Rightarrow>
          (let rest = AList.delete k (t1 p)
           in if \<not> is_ready block then p\<lparr>t1 := AList.update k block rest\<rparr>
              else p\<lparr>t1 := rest, t2 := AList.update k block (t2 p)\<rparr>)
      | None \<Rightarrow>
          if has_key k (t2 p) then p\<lparr>t2 := move_to_end k (t2 p)\<rparr>
          else if has_key k (b1 p) then
            (let delta = max 1 (real (length (b2 p)) / real (length (b1 p)))
             in p\<lparr>target_t1_size := min (target_t1_size p + delta) (real (cache_capacity p)),
                  b1 := move_to_end k (b1 p)\<rparr>)
          else if has_key k (b2 p) then
            (let delta = max 1 (real (length (b1 p)) / real (length (b2 p)))
             in p\<lparr>target_t1_size := max (target_t1_size p - delta) 0,
                  b2 := move_to_end k (b2 p)\<rparr>)
          else p)"

definition arc_touch :: "offload_key list \<Rightarrow> arc_policy \<Rightarrow> arc_policy" where
  "arc_touch keys p = fold arc_touch1 (rev keys) p"

definition arc_clear :: "arc_policy \<Rightarrow> arc_policy" where
  "arc_clear p = p\<lparr>t1 := [], t2 := [], b1 := [], b2 := [], target_t1_size := 0\<rparr>"

definition arc_modify ::
  "offload_key \<Rightarrow> (block_status \<Rightarrow> block_status) \<Rightarrow> arc_policy \<Rightarrow> arc_policy" where
  "arc_modify k f p =
     (if has_key k (t1 p) then p\<lparr>t1 := AList.map_entry k f (t1 p)\<rparr>
      else p\<lparr>t2 := AList.map_entry k f (t2 p)\<rparr>)"

text \<open>
  The selection loop of \<open>evict\<close>: \<open>virtual_t1_size\<close> simulates the shrinking of T1, and the
  candidates found so far are skipped. \<open>None\<close> is the early \<open>return None\<close>.
\<close>

type_synonym arc_candidate = "offload_key \<times> block_status \<times> bool"

fun arc_select ::
  "nat \<Rightarrow> arc_policy \<Rightarrow> offload_key set \<Rightarrow> arc_candidate list \<Rightarrow> int \<Rightarrow> arc_candidate list option"
where
  "arc_select 0 p protected candidates virtual_t1_size = Some candidates"
| "arc_select (Suc n) p protected candidates virtual_t1_size =
     (let already_selected = fst ` set candidates;
          free = (\<lambda>kb. evictable protected kb \<and> fst kb \<notin> already_selected)
      in case (if virtual_t1_size \<ge> py_int (target_t1_size p) then find free (t1 p) else None) of
           Some (k, b) \<Rightarrow>
             arc_select n p protected (candidates @ [(k, b, True)]) (virtual_t1_size - 1)
         | None \<Rightarrow>
             (case find free (t2 p) of
                Some (k, b) \<Rightarrow>
                  arc_select n p protected (candidates @ [(k, b, False)]) virtual_t1_size
              | None \<Rightarrow> None))"

definition arc_apply1 :: "arc_candidate \<Rightarrow> arc_policy \<Rightarrow> arc_policy" where
  "arc_apply1 c p =
     (case c of (k, b, from_t1) \<Rightarrow>
        if from_t1 then p\<lparr>t1 := AList.delete k (t1 p), b1 := AList.update k () (b1 p)\<rparr>
        else p\<lparr>t2 := AList.delete k (t2 p), b2 := AList.update k () (b2 p)\<rparr>)"

definition arc_trim :: "arc_policy \<Rightarrow> arc_policy" where
  "arc_trim p =
     p\<lparr>b1 := drop (length (b1 p) - cache_capacity p) (b1 p),
       b2 := drop (length (b2 p) - cache_capacity p) (b2 p)\<rparr>"

definition arc_evict ::
  "nat \<Rightarrow> offload_key set \<Rightarrow> arc_policy
     \<Rightarrow> ((offload_key \<times> block_status) list \<times> arc_policy) option" where
  "arc_evict n protected p =
     (if n = 0 then Some ([], p)
      else case arc_select n p protected [] (int (length (t1 p))) of
             None \<Rightarrow> None
           | Some candidates \<Rightarrow>
               Some (map (\<lambda>(k, b, from_t1). (k, b)) candidates,
                     arc_trim (fold arc_apply1 candidates p)))"

subsection \<open>The policy object of the manager\<close>

datatype policy = LRU lru_policy | ARC arc_policy

fun policy_get :: "policy \<Rightarrow> offload_key \<Rightarrow> block_status option" where
  "policy_get (LRU p) k = lru_get p k"
| "policy_get (ARC p) k = arc_get p k"

fun policy_insert :: "offload_key \<Rightarrow> block_status \<Rightarrow> policy \<Rightarrow> policy" where
  "policy_insert k b (LRU p) = LRU (lru_insert k b p)"
| "policy_insert k b (ARC p) = ARC (arc_insert k b p)"

fun policy_remove :: "offload_key \<Rightarrow> policy \<Rightarrow> policy res" where
  "policy_remove k (LRU p) = rbind (lru_remove k p) (\<lambda>p'. Inr (LRU p'))"
| "policy_remove k (ARC p) = Inr (ARC (arc_remove k p))"

fun policy_touch :: "offload_key list \<Rightarrow> policy \<Rightarrow> policy" where
  "policy_touch ks (LRU p) = LRU (lru_touch ks p)"
| "policy_touch ks (ARC p) = ARC (arc_touch ks p)"

fun policy_modify ::
  "offload_key \<Rightarrow> (block_status \<Rightarrow> block_status) \<Rightarrow> policy \<Rightarrow> policy" where
  "policy_modify k f (LRU p) = LRU (lru_modify k f p)"
| "policy_modify k f (ARC p) = ARC (arc_modify k f p)"

fun policy_evict ::
  "nat \<Rightarrow> offload_key set \<Rightarrow> policy
     \<Rightarrow> ((offload_key \<times> block_status) list \<times> policy) option" where
  "policy_evict n protected (LRU p) =
     map_option (\<lambda>(ev, p'). (ev, LRU p')) (lru_evict n protected p)"
| "policy_evict n protected (ARC p) =
     map_option (\<lambda>(ev, p'). (ev, ARC p')) (arc_evict n protected p)"

fun policy_clear :: "policy \<Rightarrow> policy" where
  "policy_clear (LRU p) = LRU (lru_clear p)"
| "policy_clear (ARC p) = ARC (arc_clear p)"

text \<open>The entries of each policy, and the representation invariants.\<close>

definition arc_items :: "arc_policy \<Rightarrow> (offload_key \<times> block_status) list" where
  "arc_items p = t1 p @ t2 p"

fun policy_items :: "policy \<Rightarrow> (offload_key \<times> block_status) list" where
  "policy_items (LRU p) = blocks p"
| "policy_items (ARC p) = arc_items p"

definition lru_inv :: "lru_policy \<Rightarrow> bool" where
  "lru_inv p \<longleftrightarrow> wf_od (blocks p)"

abbreviation keys_of :: "('k, 'v) odict \<Rightarrow> 'k set" where
  "keys_of d \<equiv> fst ` set d"

text \<open>
  The ARC invariant: the four lists are dictionaries with pairwise disjoint keys (\<open>arc_wf\<close>),
  the ghost lists are bounded by the capacity and the adaptive target lies in its range.
\<close>

definition arc_wf :: "arc_policy \<Rightarrow> bool" where
  "arc_wf p \<longleftrightarrow>
     wf_od (t1 p) \<and> wf_od (t2 p) \<and> wf_od (b1 p) \<and> wf_od (b2 p)
     \<and> keys_of (t1 p) \<inter> keys_of (t2 p) = {}
     \<and> keys_of (b1 p) \<inter> keys_of (b2 p) = {}
     \<and> (keys_of (b1 p) \<union> keys_of (b2 p)) \<inter> (keys_of (t1 p) \<union> keys_of (t2 p)) = {}
     \<and> 0 \<le> target_t1_size p \<and> target_t1_size p \<le> real (cache_capacity p)"

definition arc_inv :: "arc_policy \<Rightarrow> bool" where
  "arc_inv p \<longleftrightarrow>
     arc_wf p \<and> length (b1 p) \<le> cache_capacity p \<and> length (b2 p) \<le> cache_capacity p"

fun policy_inv :: "policy \<Rightarrow> bool" where
  "policy_inv (LRU p) = lru_inv p"
| "policy_inv (ARC p) = arc_inv p"

subsection \<open>The contract of a cache policy\<close>

text \<open>
  What the manager may assume of a policy: the entries are a dictionary, every operation acts
  on the multiset of entries as its name says, and a successful eviction returns exactly the
  requested number of entries, none of them referenced or protected.
\<close>

locale cache_policy =
  fixes pget :: "'p \<Rightarrow> offload_key \<Rightarrow> block_status option"
    and pitems :: "'p \<Rightarrow> (offload_key \<times> block_status) list"
    and pinsert :: "offload_key \<Rightarrow> block_status \<Rightarrow> 'p \<Rightarrow> 'p"
    and premove :: "offload_key \<Rightarrow> 'p \<Rightarrow> 'p res"
    and ptouch :: "offload_key list \<Rightarrow> 'p \<Rightarrow> 'p"
    and pmodify :: "offload_key \<Rightarrow> (block_status \<Rightarrow> block_status) \<Rightarrow> 'p \<Rightarrow> 'p"
    and pevict :: "nat \<Rightarrow> offload_key set \<Rightarrow> 'p
          \<Rightarrow> ((offload_key \<times> block_status) list \<times> 'p) option"
    and pclear :: "'p \<Rightarrow> 'p"
    and pinv :: "'p \<Rightarrow> bool"
  assumes wf_items: "pinv p \<Longrightarrow> wf_od (pitems p)"
    and get_items: "pinv p \<Longrightarrow> pget p k = map_of (pitems p) k"
    and insert_items: "pinv p \<Longrightarrow> pget p k = None \<Longrightarrow>
          pinv (pinsert k b p)
          \<and> mset (pitems (pinsert k b p)) = add_mset (k, b) (mset (pitems p))"
    and remove_items: "pinv p \<Longrightarrow> pget p k = Some b \<Longrightarrow>
          \<exists>p'. premove k p = Inr p' \<and> pinv p'
            \<and> mset (pitems p) = add_mset (k, b) (mset (pitems p'))"
    and touch_items: "pinv p \<Longrightarrow>
          pinv (ptouch ks p) \<and> mset (pitems (ptouch ks p)) = mset (pitems p)"
    and modify_items: "pinv p \<Longrightarrow>
          pinv (pmodify k f p)
          \<and> mset (pitems (pmodify k f p)) = image_mset (change_key k f) (mset (pitems p))"
    and evict_items: "pinv p \<Longrightarrow> pevict n protected p = Some (ev, p') \<Longrightarrow>
          pinv p' \<and> length ev = n \<and> mset (pitems p) = mset ev + mset (pitems p')
          \<and> (\<forall>kb \<in> set ev. evictable protected kb)"
    and clear_items: "pinv p \<Longrightarrow> pinv (pclear p) \<and> pitems (pclear p) = []"
begin

lemma get_mset_cong:
  "pinv p \<Longrightarrow> pinv q \<Longrightarrow> mset (pitems p) = mset (pitems q) \<Longrightarrow> pget p k = pget q k"
  using map_of_mset_cong [OF wf_items, of p "pitems q"] by (simp add: get_items)

lemma get_iff: "pinv p \<Longrightarrow> pget p k = Some b \<longleftrightarrow> (k, b) \<in> set (pitems p)"
  by (simp add: get_items wf_items wf_od_map_of_iff)

lemma get_insert:
  assumes "pinv p" "pget p k = None"
  shows "pget (pinsert k b p) = (pget p)(k \<mapsto> b)"
proof -
  have m: "mset ((k, b) # pitems p) = mset (pitems (pinsert k b p))"
    using assms insert_items by simp
  have "wf_od ((k, b) # pitems p)"
    using assms insert_items wf_items wf_od_mset_cong [OF m] by blast
  then have "map_of (pitems (pinsert k b p)) = map_of ((k, b) # pitems p)"
    using map_of_mset_cong m by metis
  with assms(1) conjunct1 [OF insert_items [OF assms]] show ?thesis
    by (simp add: get_items fun_eq_iff)
qed

lemma get_touch: "pinv p \<Longrightarrow> pget (ptouch ks p) = pget p"
  using get_mset_cong touch_items by (intro ext) blast

lemma get_remove:
  assumes "pinv p" "premove k p = Inr p'" "pget p k = Some b"
  shows "pinv p' \<and> pget p' = (pget p)(k := None)"
proof -
  have p': "pinv p'" and m: "mset (pitems p) = mset ((k, b) # pitems p')"
    using remove_items [OF assms(1,3)] assms(2) by auto
  have w: "wf_od ((k, b) # pitems p')"
    using assms(1) wf_items wf_od_mset_cong [OF m] by blast
  then have "map_of (pitems p') k = None" by (simp add: map_of_eq_None_iff)
  moreover have "map_of (pitems p) = map_of ((k, b) # pitems p')"
    using map_of_mset_cong [OF w m [symmetric]] by simp
  ultimately show ?thesis
    using assms(1) p' by (simp add: get_items fun_eq_iff)
qed

lemma get_modify:
  assumes "pinv p"
  shows "pget (pmodify k f p) k' =
    (if k' = k then map_option f (pget p k) else pget p k')"
proof -
  have "mset (map (change_key k f) (pitems p)) = mset (pitems (pmodify k f p))"
    using assms modify_items by simp
  then have "map_of (pitems (pmodify k f p)) = map_of (map (change_key k f) (pitems p))"
    using assms map_of_mset_cong wf_items wf_od_map_change_key by metis
  with assms conjunct1 [OF modify_items [OF assms]] show ?thesis
    by (simp add: get_items map_of_change_key)
qed

lemma evict_distinct:
  assumes "pinv p" "pevict n protected p = Some (ev, p')"
  shows "wf_od ev \<and> keys_of ev \<inter> keys_of (pitems p') = {}"
proof -
  have "mset (pitems p) = mset (ev @ pitems p')"
    using evict_items [OF assms] by simp
  then have "wf_od (ev @ pitems p')"
    using assms(1) wf_items wf_od_mset_cong by blast
  then show ?thesis by (simp add: wf_od_append)
qed

lemma get_evict:
  assumes "pinv p" "pevict n protected p = Some (ev, p')"
  shows "pget p' k = (if k \<in> keys_of ev then None else pget p k)"
proof -
  have m: "mset (pitems p) = mset (ev @ pitems p')"
    using evict_items [OF assms] by simp
  have "map_of (pitems p) k = map_of (ev @ pitems p') k"
    using map_of_mset_cong [OF wf_items [OF assms(1)] m] by simp
  moreover have "map_of (pitems p') k = None" if "k \<in> keys_of ev"
    using that evict_distinct [OF assms] by (auto simp: map_of_eq_None_iff)
  moreover have "map_of ev k = None" if "k \<notin> keys_of ev"
    using that by (simp add: map_of_eq_None_iff)
  ultimately show ?thesis
    using assms evict_items [OF assms] by (auto simp: get_items map_add_def split: option.splits)
qed

text \<open>An entry that is referenced, not ready or protected survives every eviction.\<close>

lemma evict_keeps:
  assumes "pinv p" "pevict n protected p = Some (ev, p')" "pget p k = Some b"
    and "ref_cnt b \<noteq> 0 \<or> k \<in> protected"
  shows "pget p' k = Some b"
proof -
  have "k \<notin> keys_of ev"
  proof
    assume "k \<in> keys_of ev"
    then obtain b' where b': "(k, b') \<in> set ev" by auto
    then have "(k, b') \<in># mset (pitems p)" using evict_items [OF assms(1,2)] by simp
    then have "pget p k = Some b'" using assms(1) by (simp add: get_iff)
    with assms(3) b' evict_items [OF assms(1,2)] assms(4) show False
      by (auto simp: evictable_def)
  qed
  with get_evict [OF assms(1,2)] assms(3) show ?thesis by simp
qed

text \<open>The insertion loop of \<open>prepare_store\<close>.\<close>

lemma insert_loop:
  assumes "pinv p" "wf_od kbs" "\<forall>k \<in> keys_of kbs. pget p k = None"
  shows "pinv (fold (\<lambda>(k, b). pinsert k b) kbs p)
    \<and> mset (pitems (fold (\<lambda>(k, b). pinsert k b) kbs p)) = mset kbs + mset (pitems p)
    \<and> (\<forall>k. pget (fold (\<lambda>(k, b). pinsert k b) kbs p) k =
           (case map_of kbs k of Some b \<Rightarrow> Some b | None \<Rightarrow> pget p k))"
  using assms
proof (induction kbs arbitrary: p)
  case Nil
  then show ?case by simp
next
  case (Cons kb kbs)
  obtain k b where kb: "kb = (k, b)" by force
  from Cons.prems kb have k: "pget p k = None" "k \<notin> keys_of kbs" and w: "wf_od kbs" by auto
  from Cons.prems(1) k(1) have p': "pinv (pinsert k b p)"
    and m: "mset (pitems (pinsert k b p)) = add_mset (k, b) (mset (pitems p))"
    using insert_items by blast+
  have g: "pget (pinsert k b p) = (pget p)(k \<mapsto> b)"
    using Cons.prems(1) k(1) by (rule get_insert)
  have "\<forall>k' \<in> keys_of kbs. pget (pinsert k b p) k' = None"
    using Cons.prems(3) k(2) by (auto simp: g kb)
  from Cons.IH [OF p' w this] show ?case
    using k(2) by (auto simp: kb m g map_of_eq_None_iff split: option.splits)
qed

end

text \<open>A policy whose eviction fails only for lack of candidates.\<close>

locale complete_policy = cache_policy +
  assumes evict_complete: "pinv p \<Longrightarrow>
    n \<le> length (filter (evictable protected) (pitems p)) \<Longrightarrow> pevict n protected p \<noteq> None"
begin

lemma evict_Some_iff:
  assumes "pinv p"
  shows "pevict n protected p \<noteq> None \<longleftrightarrow>
    n \<le> length (filter (evictable protected) (pitems p))"
proof
  assume "pevict n protected p \<noteq> None"
  then obtain ev p' where e: "pevict n protected p = Some (ev, p')" by auto
  have "filter_mset (evictable protected) (mset (pitems p)) =
      filter_mset (evictable protected) (mset ev)
      + filter_mset (evictable protected) (mset (pitems p'))"
    using evict_items [OF assms e] by simp
  moreover have "filter_mset (evictable protected) (mset ev) = mset ev"
    using evict_items [OF assms e] by (simp add: filter_mset_eq_conv)
  ultimately have "size (mset ev) \<le> size (filter_mset (evictable protected) (mset (pitems p)))"
    by simp
  then show "n \<le> length (filter (evictable protected) (pitems p))"
    using evict_items [OF assms e] by (metis mset_filter size_mset)
qed (use assms evict_complete in blast)

end

subsection \<open>LRU implements the contract\<close>

lemma lru_collect_eq:
  "length candidates < n \<Longrightarrow>
   lru_collect n protected xs candidates =
     candidates @ take (n - length candidates) (filter (evictable protected) xs)"
proof (induction n protected xs candidates rule: lru_collect.induct)
  case (1 n protected candidates)
  then show ?case by simp
next
  case (2 n protected kb rest candidates)
  show ?case
  proof (cases "evictable protected kb")
    case False
    with 2 show ?thesis by simp
  next
    case True
    then have "n - length candidates = Suc (n - Suc (length candidates))"
      using "2.prems" by simp
    with True 2 show ?thesis
      by (cases "Suc (length candidates) = n") (simp_all add: Let_def)
  qed
qed

lemma lru_evict_eq:
  "lru_evict n protected p =
     (let c = take n (filter (evictable protected) (blocks p))
      in if length c < n then None
         else Some (c, p\<lparr>blocks := filter (\<lambda>kb. fst kb \<notin> keys_of c) (blocks p)\<rparr>))"
  by (simp add: lru_evict_def lru_collect_eq fold_delete_filter Let_def)

lemma lru_touch1_inv:
  "lru_inv p \<Longrightarrow> lru_inv (lru_touch1 k p) \<and> mset (blocks (lru_touch1 k p)) = mset (blocks p)"
  by (simp add: lru_inv_def lru_touch1_def)

lemma lru_touch_fold_inv:
  "lru_inv p \<Longrightarrow> lru_inv (fold lru_touch1 ks p)
     \<and> mset (blocks (fold lru_touch1 ks p)) = mset (blocks p)"
  by (induction ks arbitrary: p) (auto simp: lru_touch1_inv)

lemma lru_touch_inv:
  "lru_inv p \<Longrightarrow> lru_inv (lru_touch ks p) \<and> mset (blocks (lru_touch ks p)) = mset (blocks p)"
  unfolding lru_touch_def by (rule lru_touch_fold_inv)

lemma lru_evict_spec:
  assumes "lru_inv p" and e: "lru_evict n protected p = Some (ev, p')"
  shows "lru_inv p' \<and> length ev = n \<and> mset (blocks p) = mset ev + mset (blocks p')
    \<and> (\<forall>kb \<in> set ev. evictable protected kb)"
proof -
  let ?c = "take n (filter (evictable protected) (blocks p))"
  have ev: "ev = ?c" "n \<le> length ?c" and p': "blocks p' = filter (\<lambda>kb. fst kb \<notin> keys_of ?c) (blocks p)"
    using e by (auto simp: lru_evict_eq Let_def split: if_splits)
  have w: "wf_od (blocks p)" using assms(1) by (simp add: lru_inv_def)
  have sub: "set ?c \<subseteq> set (filter (evictable protected) (blocks p))"
    by (rule set_take_subset)
  moreover have "distinct (blocks p)" using w by (auto simp: wf_od_def distinct_map)
  ultimately have "mset (blocks p) = mset ?c + mset (filter (\<lambda>kb. fst kb \<notin> keys_of ?c) (blocks p))"
    using w by (intro mset_partition_keys) auto
  with ev p' w sub show ?thesis by (auto simp: lru_inv_def)
qed

interpretation lru: complete_policy
  lru_get blocks lru_insert lru_remove lru_touch lru_modify lru_evict lru_clear lru_inv
proof unfold_locales
  fix p k b assume "lru_inv p" "lru_get p k = Some b"
  then show "\<exists>p'. lru_remove k p = Inr p' \<and> lru_inv p'
      \<and> mset (blocks p) = add_mset (k, b) (mset (blocks p'))"
    by (simp add: lru_remove_def lru_get_def lru_inv_def has_key_def mset_delete_key)
next
  fix p k b assume "lru_inv p" "lru_get p k = None"
  then show "lru_inv (lru_insert k b p)
      \<and> mset (blocks (lru_insert k b p)) = add_mset (k, b) (mset (blocks p))"
    by (simp add: lru_insert_def lru_get_def lru_inv_def mset_update_fresh)
next
  fix p :: lru_policy and n protected assume "n \<le> length (filter (evictable protected) (blocks p))"
  then show "lru_evict n protected p \<noteq> None"
    by (simp add: lru_evict_eq Let_def)
next
  fix p n protected ev p'
  assume "lru_inv p" "lru_evict n protected p = Some (ev, p')"
  then show "lru_inv p' \<and> length ev = n \<and> mset (blocks p) = mset ev + mset (blocks p')
      \<and> (\<forall>kb \<in> set ev. evictable protected kb)"
    by (rule lru_evict_spec)
next
  fix p ks assume "lru_inv p"
  then show "lru_inv (lru_touch ks p) \<and> mset (blocks (lru_touch ks p)) = mset (blocks p)"
    by (rule lru_touch_inv)
qed (simp_all add: lru_get_def lru_modify_def lru_clear_def lru_inv_def map_entry_change_key)

subsection \<open>ARC implements the contract\<close>

lemma arc_items_wf: "arc_wf p \<Longrightarrow> wf_od (arc_items p)"
  by (simp add: arc_wf_def arc_items_def wf_od_append)

lemma arc_get_items: "arc_get p k = map_of (arc_items p) k" if "arc_wf p"
proof -
  have "map_of (t2 p) k = None" if "map_of (t1 p) k = Some b" for b
    using that \<open>arc_wf p\<close> by (simp add: arc_wf_def map_of_None_disjoint)
  then show ?thesis
    by (auto simp: arc_get_def arc_items_def map_add_def split: option.splits)
qed

lemma arc_insert_spec:
  assumes "arc_inv p" "arc_get p k = None"
  shows "arc_inv (arc_insert k b p)
    \<and> mset (arc_items (arc_insert k b p)) = add_mset (k, b) (mset (arc_items p))"
proof -
  have k: "map_of (t1 p) k = None" "map_of (t2 p) k = None"
    using assms(2) by (auto simp: arc_get_def split: option.splits)
  moreover have "length (AList.delete k d) \<le> length d" for d :: "(offload_key, unit) odict"
    by (simp add: AList.delete_eq)
  ultimately show ?thesis
    using assms(1)
    by (auto simp: arc_inv_def arc_wf_def arc_insert_def arc_items_def mset_update_fresh
        map_of_eq_None_iff intro: order_trans)
qed

lemma arc_remove_spec:
  assumes "arc_inv p" "arc_get p k = Some b"
  shows "arc_inv (arc_remove k p)
    \<and> mset (arc_items p) = add_mset (k, b) (mset (arc_items (arc_remove k p)))"
proof (cases "map_of (t1 p) k")
  case None
  with assms show ?thesis
    by (auto simp: arc_inv_def arc_wf_def arc_remove_def arc_items_def arc_get_def has_key_def
        mset_delete_key [of "t2 p" k b])
next
  case (Some b')
  with assms show ?thesis
    by (auto simp: arc_inv_def arc_wf_def arc_remove_def arc_items_def arc_get_def has_key_def
        mset_delete_key [of "t1 p" k b])
qed

lemma arc_touch1_cached:
  assumes "arc_inv p" "map_of (t1 p) k = Some b"
  shows "arc_inv (arc_touch1 k p) \<and> mset (arc_items (arc_touch1 k p)) = mset (arc_items p)"
proof -
  have k: "k \<in> keys_of (t1 p)"
    using assms(2) by (metis has_key_Some has_key_iff)
  then have "k \<notin> keys_of (t2 p)" "k \<notin> keys_of (b1 p)" "k \<notin> keys_of (b2 p)"
    using assms(1) by (auto simp: arc_inv_def arc_wf_def disjoint_iff)
  moreover from this have "map_of (t2 p) k = None" by (simp add: map_of_eq_None_iff)
  ultimately show ?thesis
    using assms by (auto simp: arc_touch1_def arc_inv_def arc_wf_def arc_items_def Let_def
        mset_update_fresh mset_delete_key [of "t1 p" k b])
qed

lemma arc_touch1_uncached:
  assumes "arc_inv p" "map_of (t1 p) k = None"
  shows "arc_inv (arc_touch1 k p) \<and> mset (arc_items (arc_touch1 k p)) = mset (arc_items p)"
  using assms by (auto simp: arc_touch1_def arc_inv_def arc_wf_def arc_items_def Let_def)

lemma arc_touch1_spec:
  "arc_inv p \<Longrightarrow>
   arc_inv (arc_touch1 k p) \<and> mset (arc_items (arc_touch1 k p)) = mset (arc_items p)"
  by (cases "map_of (t1 p) k") (auto dest: arc_touch1_cached arc_touch1_uncached)

lemma arc_touch_fold_spec:
  "arc_inv p \<Longrightarrow> arc_inv (fold arc_touch1 ks p)
     \<and> mset (arc_items (fold arc_touch1 ks p)) = mset (arc_items p)"
proof (induction ks arbitrary: p)
  case Nil
  then show ?case by simp
next
  case (Cons k ks)
  then show ?case using arc_touch1_spec [of p k] Cons.IH [of "arc_touch1 k p"] by simp
qed

lemma arc_modify_spec:
  assumes "arc_inv p"
  shows "arc_inv (arc_modify k f p)
    \<and> mset (arc_items (arc_modify k f p)) = image_mset (change_key k f) (mset (arc_items p))"
proof -
  have "map (change_key k f) (t2 p) = t2 p" if "has_key k (t1 p)"
    using assms that by (intro map_change_key_absent)
      (auto simp: has_key_iff arc_inv_def arc_wf_def)
  moreover have "map (change_key k f) (t1 p) = t1 p" if "\<not> has_key k (t1 p)"
    using that by (intro map_change_key_absent) (simp add: has_key_iff)
  ultimately show ?thesis
    using assms by (simp add: arc_modify_def arc_inv_def arc_wf_def arc_items_def
        map_entry_change_key flip: mset_map)
qed

text \<open>What the selection loop of \<open>evict\<close> returns.\<close>

definition arc_selectable :: "arc_policy \<Rightarrow> offload_key set \<Rightarrow> arc_candidate \<Rightarrow> bool" where
  "arc_selectable p protected = (\<lambda>(k, b, from_t1).
     evictable protected (k, b) \<and> (k, b) \<in> set (if from_t1 then t1 p else t2 p))"

lemma arc_select_sound:
  assumes "arc_select n p protected cs v = Some cs'"
    and "distinct (map fst cs)" "list_all (arc_selectable p protected) cs"
  shows "length cs' = length cs + n \<and> distinct (map fst cs')
    \<and> list_all (arc_selectable p protected) cs'"
  using assms
proof (induction n p protected cs v rule: arc_select.induct)
  case (1 p protected cs v)
  then show ?case by simp
next
  case (2 n p protected cs v)
  let ?free = "\<lambda>kb. evictable protected kb \<and> fst kb \<notin> fst ` set cs"
  let ?r1 = "if v \<ge> py_int (target_t1_size p) then find ?free (t1 p) else None"
  show ?case
  proof (cases ?r1)
    case (Some kb)
    then have "?free kb" "kb \<in> set (t1 p)"
      by (auto simp: find_Some_iff split: if_splits)
    with Some 2 show ?thesis
      by (cases kb) (fastforce simp: Let_def arc_selectable_def)
  next
    case None
    with "2.prems"(1) obtain kb where kb: "find ?free (t2 p) = Some kb"
      by (auto simp: Let_def split: option.splits)
    then have "?free kb" "kb \<in> set (t2 p)" by (auto simp: find_Some_iff)
    with None kb 2 show ?thesis
      by (cases kb) (fastforce simp: Let_def arc_selectable_def)
  qed
qed

lemma arc_apply1_spec:
  assumes "arc_wf p" "arc_selectable p protected (k, b, f)"
  shows "arc_wf (arc_apply1 (k, b, f) p)
    \<and> mset (arc_items p) = add_mset (k, b) (mset (arc_items (arc_apply1 (k, b, f) p)))"
proof -
  have kb: "(k, b) \<in> set (if f then t1 p else t2 p)"
    using assms(2) by (simp add: arc_selectable_def)
  then have k: "k \<in> keys_of (if f then t1 p else t2 p)" by (metis fst_conv image_eqI)
  show ?thesis
  proof (cases f)
    case True
    with k assms(1) have "k \<notin> keys_of (t2 p)" "k \<notin> keys_of (b2 p)"
      by (auto simp: arc_wf_def disjoint_iff)
    moreover have "map_of (t1 p) k = Some b"
      using kb True assms(1) by (simp add: arc_wf_def wf_od_map_of_iff)
    ultimately show ?thesis
      using True assms(1)
      by (auto simp: arc_apply1_def arc_wf_def arc_items_def mset_delete_key [of "t1 p" k b])
  next
    case False
    with k assms(1) have "k \<notin> keys_of (t1 p)" "k \<notin> keys_of (b1 p)"
      by (auto simp: arc_wf_def disjoint_iff)
    moreover have "map_of (t2 p) k = Some b"
      using kb False assms(1) by (simp add: arc_wf_def wf_od_map_of_iff)
    ultimately show ?thesis
      using False assms(1)
      by (auto simp: arc_apply1_def arc_wf_def arc_items_def mset_delete_key [of "t2 p" k b])
  qed
qed

lemma arc_apply1_selectable:
  "arc_selectable p protected c \<Longrightarrow> fst c \<noteq> fst d \<Longrightarrow>
   arc_selectable (arc_apply1 d p) protected c"
  by (auto simp: arc_selectable_def arc_apply1_def AList.delete_eq split: prod.splits)

lemma arc_apply_loop:
  assumes "arc_wf p" "distinct (map fst cs)" "list_all (arc_selectable p protected) cs"
  shows "arc_wf (fold arc_apply1 cs p)
    \<and> mset (arc_items p) =
        mset (map (\<lambda>(k, b, f). (k, b)) cs) + mset (arc_items (fold arc_apply1 cs p))"
  using assms
proof (induction cs arbitrary: p)
  case Nil
  then show ?case by simp
next
  case (Cons c cs)
  obtain k b f where c: "c = (k, b, f)" by (cases c)
  have p': "arc_wf (arc_apply1 c p)"
    and m: "mset (arc_items p) = add_mset (k, b) (mset (arc_items (arc_apply1 c p)))"
    using arc_apply1_spec [of p protected k b f] Cons.prems by (simp_all add: c)
  have "list_all (arc_selectable (arc_apply1 c p) protected) cs"
    unfolding list_all_iff
  proof
    fix d assume "d \<in> set cs"
    then have "fst d \<noteq> fst c" "arc_selectable p protected d"
      using Cons.prems(2,3) by (auto simp: list_all_iff image_iff)
    then show "arc_selectable (arc_apply1 c p) protected d"
      by (intro arc_apply1_selectable)
  qed
  from Cons.IH [OF p' _ this] Cons.prems(2) show ?case by (simp add: m c)
qed

lemma keys_drop_subset: "keys_of (drop n d) \<subseteq> keys_of d"
  by (intro image_mono set_drop_subset)

lemma wf_od_drop: "wf_od d \<Longrightarrow> wf_od (drop n d)"
  by (simp add: wf_od_def flip: drop_map)

lemma arc_trim_spec:
  assumes "arc_wf p"
  shows "arc_inv (arc_trim p) \<and> arc_items (arc_trim p) = arc_items p"
proof -
  let ?d1 = "drop (length (b1 p) - cache_capacity p) (b1 p)"
  let ?d2 = "drop (length (b2 p) - cache_capacity p) (b2 p)"
  have s: "keys_of ?d1 \<subseteq> keys_of (b1 p)" "keys_of ?d2 \<subseteq> keys_of (b2 p)"
    by (rule keys_drop_subset)+
  have d: "keys_of (b1 p) \<inter> keys_of (b2 p) = {}"
    "(keys_of (b1 p) \<union> keys_of (b2 p)) \<inter> (keys_of (t1 p) \<union> keys_of (t2 p)) = {}"
    using assms by (simp_all add: arc_wf_def)
  have "keys_of ?d1 \<inter> keys_of ?d2 = {}"
    using Int_mono [OF s] d(1) by simp
  moreover have "(keys_of ?d1 \<union> keys_of ?d2) \<inter> (keys_of (t1 p) \<union> keys_of (t2 p)) = {}"
    using Int_mono [OF Un_mono [OF s] order_refl, of "keys_of (t1 p) \<union> keys_of (t2 p)"] d(2)
    by simp
  ultimately show ?thesis
    using assms
    by (simp add: arc_trim_def arc_inv_def arc_wf_def arc_items_def wf_od_drop) linarith
qed

lemma arc_evict_spec:
  assumes "arc_inv p" and e: "arc_evict n protected p = Some (ev, p')"
  shows "arc_inv p' \<and> length ev = n \<and> mset (arc_items p) = mset ev + mset (arc_items p')
    \<and> (\<forall>kb \<in> set ev. evictable protected kb)"
proof (cases "n = 0")
  case True
  with assms show ?thesis by (simp add: arc_evict_def)
next
  case False
  with e obtain cs where cs: "arc_select n p protected [] (int (length (t1 p))) = Some cs"
    and ev: "ev = map (\<lambda>(k, b, f). (k, b)) cs" and p': "p' = arc_trim (fold arc_apply1 cs p)"
    by (auto simp: arc_evict_def split: option.splits)
  from arc_select_sound [OF cs] have sel: "length cs = n" "distinct (map fst cs)"
      "list_all (arc_selectable p protected) cs"
    by simp_all
  have "arc_wf p" using assms(1) by (simp add: arc_inv_def)
  from arc_apply_loop [OF this sel(2,3)] arc_trim_spec
  have "arc_inv p' \<and> mset (arc_items p) = mset ev + mset (arc_items p')"
    by (metis ev p')
  with sel(1,3) ev show ?thesis
    by (auto simp: list_all_iff arc_selectable_def)
qed

interpretation arc: cache_policy
  arc_get arc_items arc_insert "\<lambda>k p. Inr (arc_remove k p)" arc_touch arc_modify arc_evict
  arc_clear arc_inv
proof unfold_locales
  fix p k assume "arc_inv p"
  then show "arc_get p k = map_of (arc_items p) k"
    by (simp add: arc_inv_def arc_get_items)
next
  fix p k b assume "arc_inv p" "arc_get p k = Some b"
  then show "\<exists>p'. Inr (arc_remove k p) = Inr p' \<and> arc_inv p'
      \<and> mset (arc_items p) = add_mset (k, b) (mset (arc_items p'))"
    using arc_remove_spec by auto
next
  fix p n protected ev p'
  assume "arc_inv p" "arc_evict n protected p = Some (ev, p')"
  then show "arc_inv p' \<and> length ev = n \<and> mset (arc_items p) = mset ev + mset (arc_items p')
      \<and> (\<forall>kb \<in> set ev. evictable protected kb)"
    by (rule arc_evict_spec)
next
  fix p ks assume "arc_inv p"
  then show "arc_inv (arc_touch ks p) \<and> mset (arc_items (arc_touch ks p)) = mset (arc_items p)"
    unfolding arc_touch_def by (rule arc_touch_fold_spec)
next
  fix p assume "arc_inv p"
  then show "wf_od (arc_items p)" by (simp add: arc_inv_def arc_items_wf)
next
  fix p assume "arc_inv p"
  then show "arc_inv (arc_clear p) \<and> arc_items (arc_clear p) = []"
    by (simp add: arc_clear_def arc_inv_def arc_wf_def arc_items_def)
qed (simp_all add: arc_insert_spec arc_modify_spec)

text \<open>The tagged union that the manager holds inherits the contract from both policies.\<close>

interpretation pol: cache_policy
  policy_get policy_items policy_insert policy_remove policy_touch policy_modify policy_evict
  policy_clear policy_inv
proof unfold_locales
  fix p assume "policy_inv p"
  then show "wf_od (policy_items p)"
    by (cases p) (simp_all add: lru.wf_items arc.wf_items)
next
  fix p k assume "policy_inv p"
  then show "policy_get p k = map_of (policy_items p) k"
    by (cases p) (simp_all add: lru.get_items arc.get_items)
next
  fix p k b assume "policy_inv p" "policy_get p k = None"
  then show "policy_inv (policy_insert k b p)
      \<and> mset (policy_items (policy_insert k b p)) = add_mset (k, b) (mset (policy_items p))"
    by (cases p) (simp_all add: lru.insert_items arc.insert_items)
next
  fix p k b assume "policy_inv p" "policy_get p k = Some b"
  then show "\<exists>p'. policy_remove k p = Inr p' \<and> policy_inv p'
      \<and> mset (policy_items p) = add_mset (k, b) (mset (policy_items p'))"
    by (cases p) (use lru.remove_items arc.remove_items in fastforce)+
next
  fix p ks assume "policy_inv p"
  then show "policy_inv (policy_touch ks p)
      \<and> mset (policy_items (policy_touch ks p)) = mset (policy_items p)"
    by (cases p) (simp_all add: lru.touch_items arc.touch_items)
next
  fix p k f assume "policy_inv p"
  then show "policy_inv (policy_modify k f p)
      \<and> mset (policy_items (policy_modify k f p)) =
          image_mset (change_key k f) (mset (policy_items p))"
    by (cases p) (simp_all add: lru.modify_items arc.modify_items)
next
  fix p n protected ev p'
  assume "policy_inv p" "policy_evict n protected p = Some (ev, p')"
  then show "policy_inv p' \<and> length ev = n
      \<and> mset (policy_items p) = mset ev + mset (policy_items p')
      \<and> (\<forall>kb \<in> set ev. evictable protected kb)"
    by (cases p) (use lru.evict_items arc.evict_items in \<open>auto split: prod.splits\<close>)
next
  fix p assume "policy_inv p"
  then show "policy_inv (policy_clear p) \<and> policy_items (policy_clear p) = []"
    by (cases p) (simp_all add: lru.clear_items arc.clear_items)
qed

subsection \<open>Properties\<close>

text \<open>
  \<^bold>\<open>C10\<close>. The LRU policy evicts exactly the \<open>n\<close> least recently used entries that are unreferenced
  and unprotected, in recency order, and keeps every other entry in its place; it refuses, with
  no effect, exactly when there are fewer than \<open>n\<close> such entries.
\<close>

theorem lru_evicts_least_recent:
  "lru_evict n protected p =
     (let candidates = filter (evictable protected) (blocks p)
      in if length candidates < n then None
         else Some (take n candidates,
           p\<lparr>blocks := filter (\<lambda>kb. fst kb \<notin> keys_of (take n candidates)) (blocks p)\<rparr>))"
  by (auto simp: lru_evict_eq Let_def)

text \<open>
  \<^bold>\<open>C11\<close>. Every operation of the ARC policy keeps its invariant: T1, T2 and the two ghost lists are
  dictionaries with disjoint keys, each ghost list holds at most \<open>cache_capacity\<close> keys and the
  adaptive target of T1 stays between 0 and the capacity. (Insertion is of a key that is not
  cached, as the manager does it.)
\<close>

theorem arc_operations_keep_invariant:
  assumes "arc_inv p"
  shows "arc_inv (arc_touch ks p) \<and> arc_inv (arc_clear p) \<and> arc_inv (arc_modify k f p)
    \<and> (arc_get p k = None \<longrightarrow> arc_inv (arc_insert k b p))
    \<and> (arc_get p k \<noteq> None \<longrightarrow> arc_inv (arc_remove k p))
    \<and> (\<forall>ev p'. arc_evict n protected p = Some (ev, p') \<longrightarrow> arc_inv p')"
  using assms arc.touch_items arc.clear_items arc.modify_items arc.insert_items
    arc.evict_items arc_remove_spec
  by blast

theorem arc_operations_keep_invariant_witness:
  "arc_inv (arc_init 4) \<and> arc_inv (arc_insert [1] (BlockStatus 0) (arc_init 4))"
  using arc_operations_keep_invariant [of "arc_init 4" "[]" "[1]" id "BlockStatus 0" 0 "{}"]
  by (simp add: arc_init_def arc_inv_def arc_wf_def arc_get_def)

text \<open>
  \<^bold>\<open>C12\<close>. What an ARC eviction returns: exactly \<open>n\<close> distinct entries that were cached, unreferenced
  and unprotected; the remaining cache is the old one without them.
\<close>

theorem arc_evict_exact:
  assumes "arc_inv p" "arc_evict n protected p = Some (ev, p')"
  shows "length ev = n \<and> distinct (map fst ev)
    \<and> (\<forall>(k, b) \<in> set ev. arc_get p k = Some b \<and> ref_cnt b = 0 \<and> k \<notin> protected)
    \<and> (\<forall>k. arc_get p' k = (if k \<in> fst ` set ev then None else arc_get p k))"
proof -
  note e = arc.evict_items [OF assms]
  have "arc_get p k = Some b" if "(k, b) \<in> set ev" for k b
    using that e by (simp add: arc.get_iff [OF assms(1)] flip: set_mset_mset)
  moreover have "wf_od ev" using arc.evict_distinct [OF assms] by blast
  ultimately show ?thesis
    using e arc.get_evict [OF assms] by (auto simp: wf_od_def evictable_def)
qed

theorem arc_evict_exact_witness:
  "\<exists>p'. arc_evict 1 {} (arc_init 1\<lparr>t1 := [([1], \<lparr>ref_cnt = 0, block_id = 0\<rparr>)]\<rparr>) =
      Some ([([1], \<lparr>ref_cnt = 0, block_id = 0\<rparr>)], p')
     \<and> (\<forall>k. arc_get p' k = (if k \<in> {[1]} then None else None))"
proof -
  let ?p = "arc_init 1\<lparr>t1 := [([1], \<lparr>ref_cnt = 0, block_id = 0\<rparr>)]\<rparr>"
  have inv: "arc_inv ?p" by (simp add: arc_init_def arc_inv_def arc_wf_def)
  obtain p' where e: "arc_evict 1 {} ?p = Some ([([1], \<lparr>ref_cnt = 0, block_id = 0\<rparr>)], p')"
    by (simp add: arc_evict_def arc_init_def py_int_def evictable_def)
  with arc_evict_exact [OF inv e] show ?thesis by (auto simp: arc_get_def arc_init_def)
qed

text \<open>
  A state reached from an empty policy of capacity two: a block evicted from T1 and touched
  twice in its ghost list raises the target of T1 to two, then T1 holds one block and T2 one
  referenced block.
\<close>

definition arc_pinned_ghost :: arc_policy where
  "arc_pinned_ghost =
     (case arc_evict 1 {[2]}
             (arc_insert [1] \<lparr>ref_cnt = 0, block_id = 0\<rparr>
               (arc_touch [[2]] (arc_insert [2] \<lparr>ref_cnt = 0, block_id = 1\<rparr> (arc_init 2)))) of
        None \<Rightarrow> arc_init 0
      | Some (_, p) \<Rightarrow> p)"

definition arc_pinned :: arc_policy where
  "arc_pinned =
     arc_modify [2] (\<lambda>b. b\<lparr>ref_cnt := 1\<rparr>)
       (arc_insert [1] \<lparr>ref_cnt = 0, block_id = 0\<rparr>
         (arc_touch [[1]] (arc_touch [[1]] arc_pinned_ghost)))"

lemma arc_pinned_ghost_value:
  "arc_pinned_ghost =
     \<lparr>cache_capacity = 2, target_t1_size = 0, t1 = [],
      t2 = [([2], \<lparr>ref_cnt = 0, block_id = 1\<rparr>)], b1 = [([1], ())], b2 = []\<rparr>"
proof -
  have 1: "arc_touch [[2]] (arc_insert [2] \<lparr>ref_cnt = 0, block_id = 1\<rparr> (arc_init 2)) =
     \<lparr>cache_capacity = 2, target_t1_size = 0, t1 = [],
      t2 = [([2], \<lparr>ref_cnt = 0, block_id = 1\<rparr>)], b1 = [], b2 = []\<rparr>"
    by (simp add: arc_touch_def arc_touch1_def arc_insert_def arc_init_def is_ready_def)
  show ?thesis unfolding arc_pinned_ghost_def 1
    by (simp add: arc_insert_def arc_evict_def arc_apply1_def arc_trim_def evictable_def py_int_def)
qed

lemma arc_pinned_value:
  "arc_pinned =
     \<lparr>cache_capacity = 2, target_t1_size = 2,
      t1 = [([1], \<lparr>ref_cnt = 0, block_id = 0\<rparr>)],
      t2 = [([2], \<lparr>ref_cnt = 1, block_id = 1\<rparr>)], b1 = [], b2 = []\<rparr>"
  unfolding arc_pinned_def arc_pinned_ghost_value
  by (simp add: arc_touch_def arc_touch1_def arc_insert_def arc_modify_def move_to_end_def
      has_key_def)


end
