(* ===== verification/CPU_Manager.thy ===== *)
theory CPU_Manager
  imports Cache_Policies
begin

section \<open>The CPU offloading manager\<close>

text \<open>
  The class \<open>CPUOffloadingManager\<close> of \<^verbatim>\<open>vllm/v1/kv_offload/cpu/manager.py\<close>: a pool of CPU
  block slots (a counter of slots handed out once and a free list), the replacement policy,
  the optional store-frequency tracker and the optional event list. One definition per method;
  an assertion that fails is \<open>AssertionError\<close>. A Python set that a method iterates over is a
  list, of which \<open>remdups\<close> takes each element once.
  The representation invariant \<open>mgr_inv\<close> says that the slots of the cached blocks and the free
  list together are exactly the slots handed out so far, each once.
\<close>

record offloading_event =
  ev_keys :: "offload_key list"
  ev_medium :: string
  ev_removed :: bool

record prepare_store_output =
  keys_to_store :: "offload_key list"
  store_spec :: "int list"
  evicted_keys :: "offload_key list"

record cpu_manager =
  num_blocks :: nat
  num_allocated_blocks :: nat
  free_list :: "int list"
  events :: "offloading_event list option"
  mpolicy :: policy
  store_threshold :: int
  max_tracker_size :: nat
  counts :: "(offload_key, int) odict option"

definition manager_init :: "nat \<Rightarrow> string \<Rightarrow> bool \<Rightarrow> int \<Rightarrow> nat \<Rightarrow> cpu_manager res" where
  "manager_init n policy_name enable_events threshold tracker =
     (let mk = (\<lambda>p. Inr \<lparr>num_blocks = n, num_allocated_blocks = 0, free_list = [],
            events = (if enable_events then Some [] else None), mpolicy = p,
            store_threshold = threshold, max_tracker_size = tracker,
            counts = (if threshold \<ge> 2 then Some [] else None)\<rparr>)
      in if policy_name = ''lru'' then mk (LRU lru_init)
         else if policy_name = ''arc'' then mk (ARC (arc_init n))
         else Inl (ValueError ''Unknown cache policy''))"

abbreviation mget :: "cpu_manager \<Rightarrow> offload_key \<Rightarrow> block_status option" where
  "mget m \<equiv> policy_get (mpolicy m)"

abbreviation mmodify ::
  "offload_key \<Rightarrow> (block_status \<Rightarrow> block_status) \<Rightarrow> cpu_manager \<Rightarrow> cpu_manager" where
  "mmodify k f m \<equiv> m\<lparr>mpolicy := policy_modify k f (mpolicy m)\<rparr>"

text \<open>The assignments \<open>block.ref_cnt += 1\<close>, \<open>-= 1\<close> and \<open>= 0\<close> on the 32-bit field.\<close>

definition incr_ref :: "block_status \<Rightarrow> block_status" where
  "incr_ref b = b\<lparr>ref_cnt := c_int32 (ref_cnt b + 1)\<rparr>"

definition decr_ref :: "block_status \<Rightarrow> block_status" where
  "decr_ref b = b\<lparr>ref_cnt := c_int32 (ref_cnt b - 1)\<rparr>"

definition ready_ref :: "block_status \<Rightarrow> block_status" where
  "ready_ref b = b\<lparr>ref_cnt := c_int32 0\<rparr>"

subsection \<open>Block pool\<close>

definition get_num_free_blocks :: "cpu_manager \<Rightarrow> int" where
  "get_num_free_blocks m =
     int (length (free_list m)) + int (num_blocks m) - int (num_allocated_blocks m)"

fun alloc_fresh :: "nat \<Rightarrow> cpu_manager \<Rightarrow> block_status list \<times> cpu_manager" where
  "alloc_fresh 0 m = ([], m)"
| "alloc_fresh (Suc n) m =
     (let b = BlockStatus (int (num_allocated_blocks m));
          m' = m\<lparr>num_allocated_blocks := num_allocated_blocks m + 1\<rparr>;
          (bs, m'') = alloc_fresh n m'
      in (b # bs, m''))"

fun alloc_reused :: "nat \<Rightarrow> cpu_manager \<Rightarrow> (block_status list \<times> cpu_manager) res" where
  "alloc_reused 0 m = Inr ([], m)"
| "alloc_reused (Suc n) m =
     (if free_list m = [] then Inl IndexError
      else rbind (alloc_reused n (m\<lparr>free_list := butlast (free_list m)\<rparr>))
             (\<lambda>(bs, m'). Inr (BlockStatus (last (free_list m)) # bs, m')))"

definition allocate_blocks ::
  "offload_key list \<Rightarrow> cpu_manager \<Rightarrow> (block_status list \<times> cpu_manager) res" where
  "allocate_blocks keys m =
     (let num_fresh = min (int (length keys)) (int (num_blocks m) - int (num_allocated_blocks m));
          num_reused = int (length keys) - num_fresh
      in py_assert (int (length (free_list m)) \<ge> num_reused)
           (let (fresh, m1) = alloc_fresh (nat num_fresh) m
            in rbind (alloc_reused (nat num_reused) m1) (\<lambda>(reused, m2). Inr (fresh @ reused, m2))))"

definition free_block :: "block_status \<Rightarrow> cpu_manager \<Rightarrow> cpu_manager" where
  "free_block b m = m\<lparr>free_list := free_list m @ [block_id b]\<rparr>"

definition get_load_store_spec :: "block_status list \<Rightarrow> int list" where
  "get_load_store_spec bs = map block_id bs"

subsection \<open>The offloading interface\<close>

definition track :: "offload_key \<Rightarrow> cpu_manager \<Rightarrow> cpu_manager res" where
  "track k m =
     (case counts m of
        None \<Rightarrow> Inr m
      | Some c \<Rightarrow>
          (case map_of c k of
             Some n \<Rightarrow> Inr (m\<lparr>counts := Some (AList.update k (n + 1) (move_to_end k c))\<rparr>)
           | None \<Rightarrow>
               if length c \<ge> max_tracker_size m then
                 (case c of [] \<Rightarrow> Inl KeyError
                  | _ # c' \<Rightarrow> Inr (m\<lparr>counts := Some (AList.update k 1 c')\<rparr>))
               else Inr (m\<lparr>counts := Some (AList.update k 1 c)\<rparr>)))"

definition lookup :: "offload_key \<Rightarrow> cpu_manager \<Rightarrow> (bool option \<times> cpu_manager) res" where
  "lookup k m = rbind (track k m) (\<lambda>m'.
     Inr (case mget m' k of
            None \<Rightarrow> (Some False, m')
          | Some b \<Rightarrow> if \<not> is_ready b then (None, m') else (Some True, m')))"

definition load1 ::
  "offload_key \<Rightarrow> cpu_manager \<times> block_status list \<Rightarrow> (cpu_manager \<times> block_status list) res"
where
  "load1 k s = (case s of (m, bs) \<Rightarrow>
     (case mget m k of
        None \<Rightarrow> Inl AssertionError
      | Some b \<Rightarrow> py_assert (is_ready b) (Inr (mmodify k incr_ref m, bs @ [incr_ref b]))))"

definition prepare_load :: "offload_key list \<Rightarrow> cpu_manager \<Rightarrow> (int list \<times> cpu_manager) res" where
  "prepare_load keys m =
     rbind (rfold load1 keys (m, [])) (\<lambda>(m', bs). Inr (get_load_store_spec bs, m'))"

definition touch :: "offload_key list \<Rightarrow> cpu_manager \<Rightarrow> cpu_manager" where
  "touch keys m = m\<lparr>mpolicy := policy_touch keys (mpolicy m)\<rparr>"

definition retain1 ::
  "offload_key \<Rightarrow> cpu_manager \<times> offload_key list \<Rightarrow> cpu_manager \<times> offload_key list" where
  "retain1 k s = (case s of (m, retained) \<Rightarrow>
     (case mget m k of
        None \<Rightarrow> (m, retained)
      | Some b \<Rightarrow> if is_ready b then (mmodify k incr_ref m, retained @ [k]) else (m, retained)))"

definition retain :: "offload_key list \<Rightarrow> cpu_manager \<Rightarrow> offload_key list \<times> cpu_manager" where
  "retain keys m = (case fold retain1 (remdups keys) (m, []) of (m', retained) \<Rightarrow> (retained, m'))"

definition release :: "offload_key list \<Rightarrow> cpu_manager \<Rightarrow> cpu_manager res" where
  "release keys m =
     (let ks = remdups keys
      in py_assert (list_all (\<lambda>k. case mget m k of None \<Rightarrow> False | Some b \<Rightarrow> ref_cnt b > 0) ks)
           (Inr (fold (\<lambda>k. mmodify k decr_ref) ks m)))"

definition complete_load1 :: "offload_key \<Rightarrow> cpu_manager \<Rightarrow> cpu_manager res" where
  "complete_load1 k m =
     (case mget m k of
        None \<Rightarrow> Inl AssertionError
      | Some b \<Rightarrow> py_assert (ref_cnt b > 0) (Inr (mmodify k decr_ref m)))"

definition complete_load :: "offload_key list \<Rightarrow> cpu_manager \<Rightarrow> cpu_manager res" where
  "complete_load keys m = rfold complete_load1 keys m"

definition emit_event :: "offload_key list \<Rightarrow> bool \<Rightarrow> cpu_manager \<Rightarrow> cpu_manager" where
  "emit_event ks removed m =
     (case events m of
        None \<Rightarrow> m
      | Some es \<Rightarrow>
          if ks = [] then m
          else m\<lparr>events := Some (es @ [\<lparr>ev_keys = ks, ev_medium = ''CPU'', ev_removed = removed\<rparr>])\<rparr>)"

text \<open>The keys that pass the store-frequency threshold.\<close>

definition admitted_keys :: "offload_key list \<Rightarrow> cpu_manager \<Rightarrow> offload_key list" where
  "admitted_keys keys m =
     (case counts m of
        None \<Rightarrow> keys
      | Some c \<Rightarrow> filter (\<lambda>k. get_default 0 k c \<ge> store_threshold m) keys)"

definition make_room ::
  "nat \<Rightarrow> offload_key list \<Rightarrow> cpu_manager \<Rightarrow> (offload_key list \<times> cpu_manager) option" where
  "make_room n keys m =
     (case policy_evict n (set keys) (mpolicy m) of
        None \<Rightarrow> None
      | Some (evicted, p) \<Rightarrow>
          Some (map fst evicted, fold (\<lambda>kb. free_block (snd kb)) evicted (m\<lparr>mpolicy := p\<rparr>)))"

definition install_blocks ::
  "offload_key list \<Rightarrow> offload_key list \<Rightarrow> cpu_manager
     \<Rightarrow> (prepare_store_output option \<times> cpu_manager) res" where
  "install_blocks to_store to_evict m =
     rbind (allocate_blocks to_store (emit_event to_evict True m)) (\<lambda>(bs, m').
       py_assert (length bs = length to_store)
         (Inr (Some \<lparr>keys_to_store = to_store, store_spec = get_load_store_spec bs,
                     evicted_keys = to_evict\<rparr>,
               m'\<lparr>mpolicy := fold (\<lambda>(k, b). policy_insert k b) (zip to_store bs) (mpolicy m')\<rparr>)))"

definition prepare_store ::
  "offload_key list \<Rightarrow> cpu_manager \<Rightarrow> (prepare_store_output option \<times> cpu_manager) res" where
  "prepare_store keys0 m =
     (let keys = admitted_keys keys0 m;
          to_store = filter (\<lambda>k. mget m k = None) keys;
          num_blocks_to_evict = int (length to_store) - get_num_free_blocks m
      in if to_store = [] then
           Inr (Some \<lparr>keys_to_store = [], store_spec = get_load_store_spec [], evicted_keys = []\<rparr>, m)
         else if num_blocks_to_evict > 0 then
           (case make_room (nat num_blocks_to_evict) keys m of
              None \<Rightarrow> Inr (None, m)
            | Some (to_evict, m') \<Rightarrow> install_blocks to_store to_evict m')
         else install_blocks to_store [] m)"

definition complete_ok1 ::
  "offload_key \<Rightarrow> cpu_manager \<times> offload_key list \<Rightarrow> cpu_manager \<times> offload_key list" where
  "complete_ok1 k s = (case s of (m, stored) \<Rightarrow>
     (case mget m k of
        None \<Rightarrow> (m, stored)
      | Some b \<Rightarrow> if \<not> is_ready b then (mmodify k ready_ref m, stored @ [k]) else (m, stored)))"

definition complete_fail1 :: "offload_key \<Rightarrow> cpu_manager \<Rightarrow> cpu_manager res" where
  "complete_fail1 k m =
     (case mget m k of
        None \<Rightarrow> Inr m
      | Some b \<Rightarrow>
          if \<not> is_ready b then
            rbind (policy_remove k (mpolicy m)) (\<lambda>p. Inr (free_block b (m\<lparr>mpolicy := p\<rparr>)))
          else Inr m)"

definition complete_store :: "offload_key list \<Rightarrow> bool \<Rightarrow> cpu_manager \<Rightarrow> cpu_manager res" where
  "complete_store keys success m =
     (if success then
        (case fold complete_ok1 keys (m, []) of (m', stored) \<Rightarrow> Inr (emit_event stored False m'))
      else rfold complete_fail1 keys m)"

definition reset_cache :: "cpu_manager \<Rightarrow> cpu_manager" where
  "reset_cache m =
     m\<lparr>mpolicy := policy_clear (mpolicy m), free_list := [], num_allocated_blocks := 0\<rparr>"

definition take_events :: "cpu_manager \<Rightarrow> offloading_event list \<times> cpu_manager" where
  "take_events m =
     (case events m of None \<Rightarrow> ([], m) | Some es \<Rightarrow> (es, m\<lparr>events := Some []\<rparr>))"

subsection \<open>Representation invariant\<close>

definition cached_ids :: "cpu_manager \<Rightarrow> int multiset" where
  "cached_ids m = image_mset (block_id \<circ> snd) (mset (policy_items (mpolicy m)))"

definition mgr_inv :: "cpu_manager \<Rightarrow> bool" where
  "mgr_inv m \<longleftrightarrow>
     policy_inv (mpolicy m)
     \<and> num_allocated_blocks m \<le> num_blocks m
     \<and> num_blocks m \<le> 2 ^ 63
     \<and> cached_ids m + mset (free_list m) = mset (map int [0..<num_allocated_blocks m])"

subsection \<open>Modification of one entry\<close>

lemma ref_update_id [simp]:
  "block_id (incr_ref b) = block_id b" "block_id (decr_ref b) = block_id b"
  "block_id (ready_ref b) = block_id b"
  by (simp_all add: incr_ref_def decr_ref_def ready_ref_def)

lemma ready_ref_cnt [simp]: "ref_cnt (ready_ref b) = 0"
  by (simp add: ready_ref_def)

lemma decr_incr_ref:
  "is_ready b \<Longrightarrow> ref_cnt b < 2 ^ 31 - 1 \<Longrightarrow> decr_ref (incr_ref b) = b"
  by (simp add: incr_ref_def decr_ref_def is_ready_def)

lemma incr_ref_pos: "is_ready b \<Longrightarrow> ref_cnt b < 2 ^ 31 - 1 \<Longrightarrow> ref_cnt (incr_ref b) > 0"
  by (simp add: incr_ref_def is_ready_def)

lemma mgr_inv_policy [simp, dest]: "mgr_inv m \<Longrightarrow> policy_inv (mpolicy m)"
  by (simp add: mgr_inv_def)

lemma mgr_inv_modify:
  assumes "mgr_inv m" and "\<And>b. block_id (f b) = block_id b"
  shows "mgr_inv (mmodify k f m)"
proof -
  have "image_mset (block_id \<circ> snd) (image_mset (change_key k f) M) = image_mset (block_id \<circ> snd) M"
    for M
    using assms(2)
    by (auto simp: multiset.map_comp comp_def change_key_def case_prod_beta
        intro!: image_mset_cong)
  then show ?thesis
    using assms(1) pol.modify_items [of "mpolicy m" k f]
    by (simp add: mgr_inv_def cached_ids_def)
qed

lemma mget_modify:
  "mgr_inv m \<Longrightarrow>
   mget (mmodify k f m) k' = (if k' = k then map_option f (mget m k) else mget m k')"
  by (simp add: pol.get_modify)

lemma free_block_simps [simp]:
  "mpolicy (free_block b m) = mpolicy m" "num_blocks (free_block b m) = num_blocks m"
  "num_allocated_blocks (free_block b m) = num_allocated_blocks m"
  "free_list (free_block b m) = free_list m @ [block_id b]"
  "events (free_block b m) = events m" "counts (free_block b m) = counts m"
  by (simp_all add: free_block_def)

lemma emit_event_simps [simp]:
  "mpolicy (emit_event ks r m) = mpolicy m" "num_blocks (emit_event ks r m) = num_blocks m"
  "num_allocated_blocks (emit_event ks r m) = num_allocated_blocks m"
  "free_list (emit_event ks r m) = free_list m" "counts (emit_event ks r m) = counts m"
  by (simp_all add: emit_event_def split: option.split)

lemma mgr_inv_emit [simp]: "mgr_inv (emit_event ks r m) = mgr_inv m"
  by (simp add: mgr_inv_def cached_ids_def)

subsection \<open>Allocation\<close>

lemma alloc_fresh_eq:
  "alloc_fresh n m =
     (map (\<lambda>i. BlockStatus (int i)) [num_allocated_blocks m..<num_allocated_blocks m + n],
      m\<lparr>num_allocated_blocks := num_allocated_blocks m + n\<rparr>)"
proof (induction n arbitrary: m)
  case 0
  then show ?case by simp
next
  case (Suc n)
  let ?a = "num_allocated_blocks m"
  have "[?a..<?a + Suc n] = ?a # [Suc ?a..<Suc ?a + n]"
    by (simp add: upt_conv_Cons del: upt_Suc)
  with Suc show ?case by (simp del: upt_Suc)
qed

lemma alloc_reused_eq:
  "n \<le> length (free_list m) \<Longrightarrow>
   alloc_reused n m =
     Inr (map BlockStatus (take n (rev (free_list m))),
          m\<lparr>free_list := take (length (free_list m) - n) (free_list m)\<rparr>)"
proof (induction n arbitrary: m)
  case 0
  then show ?case by simp
next
  case (Suc n)
  obtain xs x where f: "free_list m = xs @ [x]"
    using Suc.prems by (cases "free_list m" rule: rev_cases) auto
  with Suc.prems Suc.IH [of "m\<lparr>free_list := xs\<rparr>"] show ?case by simp
qed

lemma mset_take_rev: "mset (take n (rev xs)) + mset (take (length xs - n) xs) = mset xs"
proof -
  have "mset (take n (rev xs)) = mset (drop (length xs - n) xs)"
    by (metis mset_rev take_rev)
  then show ?thesis
    by (metis add.commute append_take_drop_id mset_append)
qed

text \<open>
  Allocation succeeds exactly as many times as there are free slots, and moves that many
  distinct slots out of the pool.
\<close>

lemma allocate_blocks_spec:
  assumes "mgr_inv m" and "int (length keys) \<le> get_num_free_blocks m"
  shows "\<exists>ids m'. allocate_blocks keys m = Inr (map BlockStatus ids, m')
    \<and> length ids = length keys
    \<and> mpolicy m' = mpolicy m \<and> num_blocks m' = num_blocks m \<and> counts m' = counts m
    \<and> num_allocated_blocks m' \<le> num_blocks m
    \<and> cached_ids m + mset ids + mset (free_list m') =
        mset (map int [0..<num_allocated_blocks m'])"
proof -
  let ?a = "num_allocated_blocks m" and ?l = "length keys" and ?f = "free_list m"
  define n where "n = min ?l (num_blocks m - ?a)"
  have a: "?a \<le> num_blocks m" using assms(1) by (simp add: mgr_inv_def)
  have fresh: "min (int ?l) (int (num_blocks m) - int ?a) = int n"
    using a by (simp add: n_def of_nat_diff)
  have r: "?l - n \<le> length ?f"
    using assms(2) a unfolding get_num_free_blocks_def n_def by linarith
  have nl: "n \<le> ?l" by (simp add: n_def)
  let ?ids = "map int [?a..<?a + n] @ take (?l - n) (rev ?f)"
  let ?m' = "m\<lparr>num_allocated_blocks := ?a + n, free_list := take (length ?f - (?l - n)) ?f\<rparr>"
  have "nat (int ?l - int n) = ?l - n" using nl by simp
  then have "allocate_blocks keys m = Inr (map BlockStatus ?ids, ?m')"
    using r nl by (simp add: allocate_blocks_def fresh alloc_fresh_eq alloc_reused_eq Let_def
        py_assert_def comp_def)
  moreover have "length ?ids = ?l" using r nl by simp
  moreover have "cached_ids m + mset ?ids + mset (free_list ?m') = mset (map int [0..<?a + n])"
  proof -
    have "mset (map int [0..<?a + n]) = mset (map int [0..<?a]) + mset (map int [?a..<?a + n])"
      by (simp add: upt_add_eq_append [of 0 ?a n])
    then show ?thesis
      using assms(1) mset_take_rev [of "?l - n" ?f]
      by (simp add: mgr_inv_def ac_simps)
  qed
  moreover have "?a + n \<le> num_blocks m" using a by (simp add: n_def)
  ultimately show ?thesis by (intro exI [of _ ?ids] exI [of _ ?m']) simp
qed

subsection \<open>Preparing a store\<close>

text \<open>A block slot that is not ready yet, as \<open>prepare_store\<close> installs it.\<close>

definition pending_block :: "int \<Rightarrow> block_status" where
  "pending_block i = \<lparr>ref_cnt = -1, block_id = i\<rparr>"

lemma BlockStatus_pending: "0 \<le> i \<Longrightarrow> i < 2 ^ 63 \<Longrightarrow> BlockStatus i = pending_block i"
  by (simp add: BlockStatus_def pending_block_def)

lemma pending_simps [simp]:
  "ref_cnt (pending_block i) = -1" "block_id (pending_block i) = i" "\<not> is_ready (pending_block i)"
  by (simp_all add: pending_block_def is_ready_def)

lemma ids_in_range:
  assumes "M + mset ids + N = mset (map int [0..<n])" "i \<in> set ids"
  shows "0 \<le> i \<and> i < int n"
proof -
  have "i \<in># mset (map int [0..<n])" using assms by (metis set_mset_mset union_iff)
  then show ?thesis by auto
qed

lemma ids_distinct:
  assumes "M + mset ids + N = mset (map int [0..<n])"
  shows "distinct ids"
proof -
  obtain xs ys where "M = mset xs" "N = mset ys" using ex_mset by metis
  then have "mset (xs @ ids @ ys) = mset (map int [0..<n])"
    using assms by (simp add: add.assoc)
  moreover have "distinct (map int [0..<n])" by (simp add: distinct_map)
  ultimately have "distinct (xs @ ids @ ys)" by (metis mset_eq_imp_distinct_iff)
  then show ?thesis by simp
qed

text \<open>The view of the cache after new blocks were installed.\<close>

definition installed ::
  "offload_key list \<Rightarrow> int list \<Rightarrow> (offload_key \<Rightarrow> block_status option) \<Rightarrow> offload_key
     \<Rightarrow> block_status option" where
  "installed ks ids g k =
     (case map_of (zip ks ids) k of Some i \<Rightarrow> Some (pending_block i) | None \<Rightarrow> g k)"

lemma map_of_zip_map: "map_of (zip ks (map f xs)) k = map_option f (map_of (zip ks xs) k)"
  by (induction ks xs rule: list_induct2') auto

lemma install_blocks_spec:
  assumes "mgr_inv m" "distinct to_store" "\<forall>k \<in> set to_store. mget m k = None"
    and "int (length to_store) \<le> get_num_free_blocks m"
  shows "\<exists>out m'. install_blocks to_store to_evict m = Inr (Some out, m') \<and> mgr_inv m'
    \<and> keys_to_store out = to_store \<and> evicted_keys out = to_evict
    \<and> length (store_spec out) = length to_store \<and> distinct (store_spec out)
    \<and> counts m' = counts m
    \<and> (\<forall>k. mget m' k = installed to_store (store_spec out) (mget m) k)"
proof -
  let ?e = "emit_event to_evict True m"
  have e: "mgr_inv ?e" "int (length to_store) \<le> get_num_free_blocks ?e"
    using assms(1,4) by (simp_all add: get_num_free_blocks_def)
  from allocate_blocks_spec [OF this] obtain ids m1 where
    al: "allocate_blocks to_store ?e = Inr (map BlockStatus ids, m1)"
    and len: "length ids = length to_store"
    and m1: "mpolicy m1 = mpolicy m" "num_blocks m1 = num_blocks m" "counts m1 = counts m"
      "num_allocated_blocks m1 \<le> num_blocks m"
    and ids: "cached_ids m + mset ids + mset (free_list m1) =
      mset (map int [0..<num_allocated_blocks m1])"
    by (auto simp: cached_ids_def)
  have "num_blocks m \<le> 2 ^ 63" using assms(1) by (simp add: mgr_inv_def)
  then have "BlockStatus i = pending_block i" if "i \<in> set ids" for i
    using ids_in_range [OF ids that] m1(4) by (intro BlockStatus_pending) auto
  then have bs: "map BlockStatus ids = map pending_block ids" by simp
  let ?kbs = "zip to_store (map pending_block ids)"
  let ?p = "fold (\<lambda>(k, b). policy_insert k b) ?kbs (mpolicy m)"
  have keys: "map fst ?kbs = to_store" using len by simp
  then have "wf_od ?kbs" "\<forall>k \<in> keys_of ?kbs. mget m k = None"
    using assms(2,3) by (simp_all add: wf_od_def flip: set_map)
  from pol.insert_loop [OF mgr_inv_policy [OF assms(1)] this]
  have p: "policy_inv ?p" "mset (policy_items ?p) = mset ?kbs + mset (policy_items (mpolicy m))"
    "\<And>k. policy_get ?p k = (case map_of ?kbs k of Some b \<Rightarrow> Some b | None \<Rightarrow> mget m k)"
    by simp_all
  have "image_mset (block_id \<circ> snd) (mset ?kbs) = mset (map (block_id \<circ> snd) ?kbs)" by simp
  also have "map (block_id \<circ> snd) ?kbs = ids"
    using len by (simp add: map_snd_zip flip: map_map) (simp add: comp_def)
  finally have c: "image_mset (block_id \<circ> snd) (mset ?kbs) = mset ids" .
  let ?m' = "m1\<lparr>mpolicy := ?p\<rparr>"
  have "mgr_inv ?m'"
    using assms(1) p(1,2) m1 ids c by (simp add: mgr_inv_def cached_ids_def ac_simps)
  moreover have "policy_get ?p k = installed to_store ids (mget m) k" for k
    by (simp add: p(3) installed_def map_of_zip_map split: option.split)
  ultimately show ?thesis
    using al len m1 ids_distinct [OF ids]
    by (simp add: install_blocks_def bs get_load_store_spec_def comp_def)
qed

lemma fold_free_block_eq:
  "fold (\<lambda>kb. free_block (snd kb)) ev m = m\<lparr>free_list := free_list m @ map (block_id \<circ> snd) ev\<rparr>"
  by (induction ev arbitrary: m) (simp_all add: free_block_def)

lemma make_room_spec:
  assumes "mgr_inv m" "make_room n keys m = Some (ks, m')"
  shows "mgr_inv m' \<and> get_num_free_blocks m' = get_num_free_blocks m + int n
    \<and> counts m' = counts m
    \<and> (\<forall>k. mget m' k = (if k \<in> set ks then None else mget m k))
    \<and> (\<forall>k \<in> set ks. k \<notin> set keys \<and> (\<exists>b. mget m k = Some b \<and> ref_cnt b = 0))"
proof -
  obtain ev p where ev: "policy_evict n (set keys) (mpolicy m) = Some (ev, p)"
    and ks: "ks = map fst ev"
    and m': "m' = m\<lparr>mpolicy := p, free_list := free_list m @ map (block_id \<circ> snd) ev\<rparr>"
    using assms(2) by (auto simp: make_room_def fold_free_block_eq split: option.splits)
  note pi = mgr_inv_policy [OF assms(1)]
  from pol.evict_items [OF pi ev] have e: "policy_inv p" "length ev = n"
    "mset (policy_items (mpolicy m)) = mset ev + mset (policy_items p)"
    "\<forall>kb \<in> set ev. evictable (set keys) kb"
    by auto
  have "mgr_inv m'"
    using assms(1) e(1,3) by (simp add: m' mgr_inv_def cached_ids_def ac_simps)
  moreover have "mget m k = Some b" if "(k, b) \<in> set ev" for k b
    using that e(3) by (simp add: pol.get_iff [OF pi] flip: set_mset_mset)
  ultimately show ?thesis
    using e(2,4) pol.get_evict [OF pi ev]
    by (fastforce simp: m' ks get_num_free_blocks_def evictable_def)
qed

lemma prepare_store_spec:
  assumes "mgr_inv m" "distinct keys"
  shows "\<exists>out m'. prepare_store keys m = Inr (out, m') \<and> mgr_inv m' \<and> counts m' = counts m
    \<and> (case out of
         None \<Rightarrow> m' = m
       | Some s \<Rightarrow>
           keys_to_store s = filter (\<lambda>k. mget m k = None) (admitted_keys keys m)
           \<and> length (store_spec s) = length (keys_to_store s) \<and> distinct (store_spec s)
           \<and> (\<forall>k \<in> set (evicted_keys s). k \<notin> set (admitted_keys keys m)
                 \<and> (\<exists>b. mget m k = Some b \<and> ref_cnt b = 0))
           \<and> (\<forall>k. mget m' k = installed (keys_to_store s) (store_spec s)
                 (\<lambda>k. if k \<in> set (evicted_keys s) then None else mget m k) k))"
proof -
  let ?keys = "admitted_keys keys m"
  let ?ks = "filter (\<lambda>k. mget m k = None) ?keys"
  let ?n = "int (length ?ks) - get_num_free_blocks m"
  have d: "distinct ?ks" using assms(2) by (simp add: admitted_keys_def split: option.split)
  consider "?ks = []" | "?ks \<noteq> []" "?n \<le> 0" | "?ks \<noteq> []" "?n > 0" by linarith
  then show ?thesis
  proof cases
    case 1
    then show ?thesis
      using assms(1) by (simp add: prepare_store_def Let_def get_load_store_spec_def installed_def)
  next
    case 2
    then have "prepare_store keys m = install_blocks ?ks [] m"
      by (simp add: prepare_store_def Let_def)
    with install_blocks_spec [OF assms(1) d, of "[]"] 2 show ?thesis by auto
  next
    case 3
    show ?thesis
    proof (cases "make_room (nat ?n) ?keys m")
      case None
      with 3 assms(1) show ?thesis by (simp add: prepare_store_def Let_def)
    next
      case (Some r)
      then obtain ev m1 where r: "make_room (nat ?n) ?keys m = Some (ev, m1)" by (cases r) auto
      note mr = make_room_spec [OF assms(1) r]
      have p: "prepare_store keys m = install_blocks ?ks ev m1"
        using 3 r by (simp add: prepare_store_def Let_def)
      have "int (length ?ks) \<le> get_num_free_blocks m1" "\<forall>k \<in> set ?ks. mget m1 k = None"
        using mr 3(2) by auto
      then obtain out m' where i: "install_blocks ?ks ev m1 = Inr (Some out, m')"
          "mgr_inv m'" "keys_to_store out = ?ks" "evicted_keys out = ev"
          "length (store_spec out) = length ?ks" "distinct (store_spec out)"
          "counts m' = counts m1"
          "\<forall>k. mget m' k = installed ?ks (store_spec out) (mget m1) k"
        using install_blocks_spec [of m1 ?ks ev] d mr by blast
      have "mget m1 = (\<lambda>k. if k \<in> set ev then None else mget m k)" using mr by (simp add: fun_eq_iff)
      with p i mr show ?thesis by simp
    qed
  qed
qed

subsection \<open>References\<close>

text \<open>One assignment to the reference count of each key of a list without repetitions.\<close>

lemma modify_loop:
  assumes "mgr_inv m" "distinct ks" and id: "\<And>b. block_id (f b) = block_id b"
  shows "mgr_inv (fold (\<lambda>k. mmodify k f) ks m)
    \<and> (\<forall>k. mget (fold (\<lambda>k. mmodify k f) ks m) k =
          (if k \<in> set ks then map_option f (mget m k) else mget m k))"
  using assms(1,2)
proof (induction ks arbitrary: m)
  case Nil
  then show ?case by simp
next
  case (Cons k ks)
  have m': "mgr_inv (mmodify k f m)" using Cons.prems(1) id by (rule mgr_inv_modify)
  from Cons.IH [OF this] Cons.prems show ?case by (auto simp: pol.get_modify)
qed

definition loadable :: "cpu_manager \<Rightarrow> offload_key \<Rightarrow> bool" where
  "loadable m k \<longleftrightarrow> (\<exists>b. mget m k = Some b \<and> is_ready b)"

definition referenced :: "cpu_manager \<Rightarrow> offload_key \<Rightarrow> bool" where
  "referenced m k \<longleftrightarrow> (\<exists>b. mget m k = Some b \<and> ref_cnt b > 0)"

lemma loadable_modify:
  "mgr_inv m \<Longrightarrow> k' \<noteq> k \<Longrightarrow> loadable (mmodify k f m) k' = loadable m k'"
  by (simp add: loadable_def pol.get_modify)

lemma retain1_eq:
  "retain1 k (m, rs) = (if loadable m k then (mmodify k incr_ref m, rs @ [k]) else (m, rs))"
  by (auto simp: retain1_def loadable_def split: option.splits)

lemma retain_loop:
  assumes "mgr_inv m" "distinct ks"
  shows "fold retain1 ks (m, rs) =
    (fold (\<lambda>k. mmodify k incr_ref) (filter (loadable m) ks) m, rs @ filter (loadable m) ks)"
  using assms
proof (induction ks arbitrary: m rs)
  case Nil
  then show ?case by simp
next
  case (Cons k ks)
  have same: "filter (loadable (mmodify k incr_ref m)) ks = filter (loadable m) ks"
    using Cons.prems by (intro filter_cong refl loadable_modify) auto
  have inv: "mgr_inv (mmodify k incr_ref m)"
    using Cons.prems(1) by (intro mgr_inv_modify) simp_all
  show ?case
    using Cons.prems Cons.IH [of m rs] Cons.IH [OF inv, of "rs @ [k]"] same
    by (simp add: retain1_eq)
qed

lemma retain_eq:
  "mgr_inv m \<Longrightarrow> retain keys m =
     (filter (loadable m) (remdups keys),
      fold (\<lambda>k. mmodify k incr_ref) (filter (loadable m) (remdups keys)) m)"
  by (simp add: retain_def retain_loop)

lemma retain_spec:
  assumes "mgr_inv m" "retain keys m = (rs, m')"
  shows "mgr_inv m' \<and> distinct rs \<and> set rs = {k \<in> set keys. loadable m k}
    \<and> (\<forall>k. mget m' k = (if k \<in> set rs then map_option incr_ref (mget m k) else mget m k))"
proof -
  from assms have rs: "rs = filter (loadable m) (remdups keys)"
    and m': "m' = fold (\<lambda>k. mmodify k incr_ref) rs m"
    by (auto simp: retain_eq)
  have d: "distinct rs" by (simp add: rs)
  from modify_loop [OF assms(1) d, of incr_ref] show ?thesis by (auto simp: m' rs)
qed

lemma release_eq:
  "release keys m =
     (if \<forall>k \<in> set keys. referenced m k
      then Inr (fold (\<lambda>k. mmodify k decr_ref) (remdups keys) m) else Inl AssertionError)"
  by (auto simp: release_def py_assert_def list_all_iff referenced_def split: option.splits)

lemma release_spec:
  assumes "mgr_inv m" "release keys m = Inr m'"
  shows "mgr_inv m' \<and> (\<forall>k \<in> set keys. referenced m k)
    \<and> (\<forall>k. mget m' k = (if k \<in> set keys then map_option decr_ref (mget m k) else mget m k))"
  using assms modify_loop [OF assms(1) distinct_remdups, of decr_ref keys]
  by (auto simp: release_eq split: if_splits)

lemma complete_load1_inv:
  "mgr_inv m \<Longrightarrow> complete_load1 k m = Inr m' \<Longrightarrow> mgr_inv m'"
  by (auto simp: complete_load1_def res_simps split: option.splits intro: mgr_inv_modify)

lemma load1_inv: "mgr_inv m \<Longrightarrow> load1 k (m, bs) = Inr (m', bs') \<Longrightarrow> mgr_inv m'"
  by (auto simp: load1_def res_simps split: option.splits intro: mgr_inv_modify)

lemma prepare_load_inv: "mgr_inv m \<Longrightarrow> prepare_load keys m = Inr (ids, m') \<Longrightarrow> mgr_inv m'"
  using rfold_invariant [of load1 keys "(m, [])" _ "\<lambda>s. mgr_inv (fst s)"] load1_inv
  by (fastforce simp: prepare_load_def res_simps)

lemma complete_load_inv: "mgr_inv m \<Longrightarrow> complete_load keys m = Inr m' \<Longrightarrow> mgr_inv m'"
  unfolding complete_load_def
  by (rule rfold_invariant [of complete_load1 keys m m' mgr_inv]) (auto intro: complete_load1_inv)

text \<open>A load of distinct ready keys succeeds, returns their slots in order and adds a reference.\<close>

lemma load_loop:
  assumes "distinct keys" "mgr_inv m" "\<forall>k \<in> set keys. loadable m k"
  shows "rfold load1 keys (m, bs) =
    Inr (fold (\<lambda>k. mmodify k incr_ref) keys m,
         bs @ map (\<lambda>k. incr_ref (the (mget m k))) keys)"
  using assms
proof (induction keys arbitrary: m bs)
  case Nil
  then show ?case by simp
next
  case (Cons k ks)
  let ?m = "mmodify k incr_ref m"
  have inv: "mgr_inv ?m" using Cons.prems(2) by (intro mgr_inv_modify) simp_all
  have "\<forall>k' \<in> set ks. loadable ?m k'"
    using Cons.prems by (metis distinct.simps(2) list.set_intros(2) loadable_modify)
  moreover have "map (\<lambda>k. incr_ref (the (mget ?m k))) ks = map (\<lambda>k. incr_ref (the (mget m k))) ks"
    using Cons.prems by (intro map_cong) (auto simp: pol.get_modify)
  moreover obtain b where "mget m k = Some b" "is_ready b"
    using Cons.prems(3) by (auto simp: loadable_def)
  ultimately show ?case using Cons.IH [OF _ inv] Cons.prems(1) by (simp add: load1_def)
qed

lemma prepare_load_spec:
  assumes "mgr_inv m" "distinct keys" "\<forall>k \<in> set keys. loadable m k"
  shows "\<exists>m'. prepare_load keys m = Inr (map (\<lambda>k. block_id (the (mget m k))) keys, m')
    \<and> mgr_inv m'
    \<and> (\<forall>k. mget m' k = (if k \<in> set keys then map_option incr_ref (mget m k) else mget m k))"
  using modify_loop [OF assms(1,2), of incr_ref]
  by (simp add: prepare_load_def load_loop assms get_load_store_spec_def comp_def)

lemma complete_load_spec:
  assumes "mgr_inv m" "distinct keys" "\<forall>k \<in> set keys. referenced m k"
  shows "complete_load keys m = Inr (fold (\<lambda>k. mmodify k decr_ref) keys m)"
  using assms
proof (induction keys arbitrary: m)
  case Nil
  then show ?case by (simp add: complete_load_def)
next
  case (Cons k ks)
  let ?m = "mmodify k decr_ref m"
  have inv: "mgr_inv ?m" using Cons.prems(1) by (intro mgr_inv_modify) simp_all
  have "\<forall>k' \<in> set ks. referenced ?m k'"
    using Cons.prems by (auto simp: referenced_def pol.get_modify)
  with Cons.IH [OF inv] Cons.prems(2) have "complete_load ks ?m =
      Inr (fold (\<lambda>k. mmodify k decr_ref) ks ?m)" by simp
  moreover obtain b where "mget m k = Some b" "ref_cnt b > 0"
    using Cons.prems(3) by (auto simp: referenced_def)
  ultimately show ?case by (simp add: complete_load_def complete_load1_def)
qed

subsection \<open>Completing a store\<close>

definition pending :: "cpu_manager \<Rightarrow> offload_key \<Rightarrow> bool" where
  "pending m k \<longleftrightarrow> (\<exists>b. mget m k = Some b \<and> \<not> is_ready b)"

lemma complete_ok_loop:
  assumes "mgr_inv m"
  shows "mgr_inv (fst (fold complete_ok1 ks (m, st)))
    \<and> (\<forall>k. mget (fst (fold complete_ok1 ks (m, st))) k =
          (if k \<in> set ks \<and> pending m k then map_option ready_ref (mget m k) else mget m k))"
  using assms
proof (induction ks arbitrary: m st)
  case Nil
  then show ?case by simp
next
  case (Cons k ks)
  show ?case
  proof (cases "pending m k")
    case False
    then have "complete_ok1 k (m, st) = (m, st)"
      by (auto simp: complete_ok1_def pending_def split: option.split)
    with Cons False show ?thesis by auto
  next
    case True
    let ?m = "mmodify k ready_ref m"
    have inv: "mgr_inv ?m" using Cons.prems by (intro mgr_inv_modify) simp_all
    have "complete_ok1 k (m, st) = (?m, st @ [k])"
      using True by (auto simp: complete_ok1_def pending_def)
    moreover have "pending ?m k' \<longleftrightarrow> k' \<noteq> k \<and> pending m k'" for k'
      using Cons.prems True by (auto simp: pending_def pol.get_modify is_ready_def)
    ultimately show ?thesis
      using Cons.IH [OF inv, of "st @ [k]"] Cons.prems True by (auto simp: pol.get_modify)
  qed
qed

lemma complete_fail1_spec:
  assumes "mgr_inv m"
  shows "\<exists>m'. complete_fail1 k m = Inr m' \<and> mgr_inv m'
    \<and> (\<forall>k'. mget m' k' = (if k' = k \<and> pending m k then None else mget m k'))"
proof (cases "pending m k")
  case False
  with assms show ?thesis by (auto simp: complete_fail1_def pending_def split: option.split)
next
  case True
  then obtain b where b: "mget m k = Some b" "\<not> is_ready b" by (auto simp: pending_def)
  note pi = mgr_inv_policy [OF assms]
  from pol.remove_items [OF pi b(1)] obtain p where p: "policy_remove k (mpolicy m) = Inr p"
    "policy_inv p" "mset (policy_items (mpolicy m)) = add_mset (k, b) (mset (policy_items p))"
    by blast
  have "mgr_inv (free_block b (m\<lparr>mpolicy := p\<rparr>))"
    using assms p(2,3) by (simp add: mgr_inv_def cached_ids_def)
  with b p True pol.get_remove [OF pi p(1) b(1)] show ?thesis
    by (simp add: complete_fail1_def)
qed

lemma complete_fail_loop:
  assumes "mgr_inv m"
  shows "\<exists>m'. rfold complete_fail1 ks m = Inr m' \<and> mgr_inv m'
    \<and> (\<forall>k. mget m' k = (if k \<in> set ks \<and> pending m k then None else mget m k))"
  using assms
proof (induction ks arbitrary: m)
  case Nil
  then show ?case by simp
next
  case (Cons k ks)
  from complete_fail1_spec [OF Cons.prems, of k] obtain m1 where
    m1: "complete_fail1 k m = Inr m1" "mgr_inv m1"
      "\<And>k'. mget m1 k' = (if k' = k \<and> pending m k then None else mget m k')" by blast
  have "pending m1 k' \<longleftrightarrow> k' \<noteq> k \<and> pending m k'" for k'
    using m1(3) by (auto simp: pending_def)
  with Cons.IH [OF m1(2)] m1 show ?case by (auto simp: pending_def)
qed

lemma complete_store_spec:
  assumes "mgr_inv m"
  shows "\<exists>m'. complete_store ks success m = Inr m' \<and> mgr_inv m'
    \<and> (\<forall>k. mget m' k =
          (if k \<in> set ks \<and> pending m k
           then (if success then map_option ready_ref (mget m k) else None) else mget m k))"
proof (cases success)
  case True
  obtain m' st where "fold complete_ok1 ks (m, []) = (m', st)" by force
  with True complete_ok_loop [OF assms, of ks "[]"] show ?thesis
    by (simp add: complete_store_def)
next
  case False
  with complete_fail_loop [OF assms, of ks] show ?thesis by (auto simp: complete_store_def)
qed

lemma track_inv: "track k m = Inr m' \<Longrightarrow> mpolicy m' = mpolicy m \<and> (mgr_inv m' = mgr_inv m)"
  by (auto simp: track_def mgr_inv_def cached_ids_def split: option.splits if_splits list.splits)

lemma touch_inv: "mgr_inv m \<Longrightarrow> mgr_inv (touch ks m) \<and> mget (touch ks m) = mget m"
  using pol.touch_items [of "mpolicy m" ks] pol.get_touch [of "mpolicy m" ks]
  by (simp add: mgr_inv_def cached_ids_def touch_def)

lemma reset_inv: "mgr_inv m \<Longrightarrow> mgr_inv (reset_cache m) \<and> mget (reset_cache m) k = None"
  using pol.clear_items [of "mpolicy m"]
  by (simp add: mgr_inv_def cached_ids_def reset_cache_def pol.get_items)

lemma manager_init_inv:
  "n \<le> 2 ^ 63 \<Longrightarrow> manager_init n name ee th tr = Inr m \<Longrightarrow> mgr_inv m"
  by (auto simp: manager_init_def mgr_inv_def cached_ids_def lru_init_def lru_inv_def arc_init_def
      arc_inv_def arc_wf_def arc_items_def Let_def split: if_splits)

subsection \<open>The manager as a state machine\<close>

text \<open>
  The calls its clients may make, in any order. \<open>prepare_store\<close> is called with keys without
  repetitions, as its callers do.
\<close>

inductive mgr_step :: "cpu_manager \<Rightarrow> cpu_manager \<Rightarrow> bool" where
  st_lookup: "lookup k m = Inr (r, m') \<Longrightarrow> mgr_step m m'"
| st_touch: "mgr_step m (touch ks m)"
| st_load: "prepare_load ks m = Inr (ids, m') \<Longrightarrow> mgr_step m m'"
| st_loaded: "complete_load ks m = Inr m' \<Longrightarrow> mgr_step m m'"
| st_retain: "retain ks m = (rs, m') \<Longrightarrow> mgr_step m m'"
| st_release: "release ks m = Inr m' \<Longrightarrow> mgr_step m m'"
| st_store: "distinct ks \<Longrightarrow> prepare_store ks m = Inr (out, m') \<Longrightarrow> mgr_step m m'"
| st_stored: "complete_store ks ok m = Inr m' \<Longrightarrow> mgr_step m m'"
| st_reset: "mgr_step m (reset_cache m)"
| st_events: "take_events m = (es, m') \<Longrightarrow> mgr_step m m'"

inductive mgr_reachable :: "nat \<Rightarrow> cpu_manager \<Rightarrow> bool" for n where
  mgr_start: "manager_init n name ee th tr = Inr m \<Longrightarrow> mgr_reachable n m"
| mgr_next: "mgr_reachable n m \<Longrightarrow> mgr_step m m' \<Longrightarrow> mgr_reachable n m'"

lemma mgr_step_inv: "mgr_step m m' \<Longrightarrow> mgr_inv m \<Longrightarrow> mgr_inv m'"
proof (induction rule: mgr_step.induct)
  case (st_lookup k m r m')
  then show ?case
    by (auto simp: lookup_def res_simps track_inv split: option.splits if_splits)
next
  case (st_store ks m out m')
  then show ?case using prepare_store_spec [of m ks] by auto
next
  case (st_stored ks ok m m')
  then show ?case using complete_store_spec [of m ks ok] by auto
next
  case (st_events m es m')
  then show ?case by (auto simp: take_events_def mgr_inv_def cached_ids_def split: option.splits)
qed (auto simp: touch_inv reset_inv dest: prepare_load_inv complete_load_inv retain_spec release_spec)

lemma mgr_reachable_inv: "mgr_reachable n m \<Longrightarrow> n \<le> 2 ^ 63 \<Longrightarrow> mgr_inv m"
  by (induction rule: mgr_reachable.induct) (auto intro: manager_init_inv mgr_step_inv)

subsection \<open>Properties\<close>

text \<open>
  A sample state for the witnesses: an LRU manager of two slots that holds a ready block and a
  block whose store is still in flight.
\<close>

definition sample_manager :: cpu_manager where
  "sample_manager =
     \<lparr>num_blocks = 2, num_allocated_blocks = 2, free_list = [], events = None,
      mpolicy = LRU \<lparr>blocks = [([1], \<lparr>ref_cnt = 0, block_id = 0\<rparr>),
                              ([2], \<lparr>ref_cnt = -1, block_id = 1\<rparr>)]\<rparr>,
      store_threshold = 1, max_tracker_size = 8, counts = None\<rparr>"

lemma sample_manager_inv: "mgr_inv sample_manager"
  by (simp add: sample_manager_def mgr_inv_def cached_ids_def lru_inv_def wf_od_def upt_rec)

lemmas sample_simps = sample_manager_def loadable_def referenced_def pending_def lru_get_def
  is_ready_def



text \<open>
  \<^bold>\<open>C2\<close>. \<open>prepare_store\<close> on keys without repetitions never raises and keeps the invariant.
  Either it refuses and leaves the manager unchanged, or it reports the admitted keys that were
  not cached, gives each of them a slot of its own, installs them as not ready, evicts only
  unreferenced ready blocks outside the admitted keys, and changes no other entry.
\<close>

theorem prepare_store_correct:
  assumes "mgr_inv m" "distinct keys"
  shows "\<exists>out m'. prepare_store keys m = Inr (out, m') \<and> mgr_inv m'
    \<and> (case out of
         None \<Rightarrow> m' = m
       | Some s \<Rightarrow>
           keys_to_store s = filter (\<lambda>k. mget m k = None) (admitted_keys keys m)
           \<and> length (store_spec s) = length (keys_to_store s) \<and> distinct (store_spec s)
           \<and> (\<forall>k \<in> set (evicted_keys s). k \<notin> set (admitted_keys keys m)
                 \<and> (\<exists>b. mget m k = Some b \<and> ref_cnt b = 0))
           \<and> (\<forall>k. mget m' k = installed (keys_to_store s) (store_spec s)
                 (\<lambda>k. if k \<in> set (evicted_keys s) then None else mget m k) k))"
  using prepare_store_spec [OF assms] by blast

theorem prepare_store_correct_witness:
  "mgr_inv sample_manager \<and> distinct [[2 :: 8 word], [3]]
   \<and> (\<exists>out m'. prepare_store [[2], [3]] sample_manager = Inr (out, m') \<and> mgr_inv m')"
  using prepare_store_correct [OF sample_manager_inv, of "[[2], [3]]"] sample_manager_inv
  by auto



text \<open>
  \<^bold>\<open>C8\<close>. \<open>release\<close> undoes \<open>retain\<close>: after retaining any keys, releasing the keys that \<open>retain\<close>
  reported succeeds and restores the status of every block, provided no retained block was at the
  largest 32-bit reference count. \<open>retain\<close> reports exactly the ready keys it was given.
\<close>

theorem retain_release_roundtrip:
  assumes "mgr_inv m" "retain keys m = (rs, m')"
    and "\<forall>k \<in> set rs. ref_cnt (the (mget m k)) < 2 ^ 31 - 1"
  shows "set rs = {k \<in> set keys. loadable m k}
    \<and> (\<exists>m''. release rs m' = Inr m'' \<and> mgr_inv m'' \<and> mget m'' = mget m)"
proof -
  note r = retain_spec [OF assms(1,2)]
  have upd: "\<exists>b. mget m k = Some b \<and> is_ready b \<and> mget m' k = Some (incr_ref b)
      \<and> decr_ref (incr_ref b) = b \<and> ref_cnt (incr_ref b) > 0" if k: "k \<in> set rs" for k
  proof -
    have "loadable m k" using r k by blast
    then obtain b where b: "mget m k = Some b" "is_ready b" by (auto simp: loadable_def)
    have "ref_cnt b < 2 ^ 31 - 1" using assms(3) k b(1) by auto
    with b have "decr_ref (incr_ref b) = b" "ref_cnt (incr_ref b) > 0"
      by (simp_all add: decr_incr_ref incr_ref_pos)
    with b r k show ?thesis by simp
  qed
  then have "\<forall>k \<in> set rs. referenced m' k" by (fastforce simp: referenced_def)
  then obtain m'' where m'': "release rs m' = Inr m''" by (simp add: release_eq)
  from release_spec [OF conjunct1 [OF r] this] have "mgr_inv m''"
    and g: "\<And>k. mget m'' k = (if k \<in> set rs then map_option decr_ref (mget m' k) else mget m' k)"
    by auto
  moreover have "mget m'' k = mget m k" for k
  proof (cases "k \<in> set rs")
    case True
    with upd [OF True] show ?thesis by (auto simp: g)
  next
    case False
    with r show ?thesis by (auto simp: g)
  qed
  ultimately show ?thesis using r m'' by auto
qed

theorem retain_release_roundtrip_witness:
  "\<exists>rs m'. retain [[2], [1], [1]] sample_manager = (rs, m') \<and> rs = [[1]]
     \<and> (\<exists>m''. release rs m' = Inr m'' \<and> mget m'' = mget sample_manager)"
proof -
  obtain rs m' where r: "retain [[2], [1], [1]] sample_manager = (rs, m')" by force
  then have "rs = filter (loadable sample_manager) (remdups [[2], [1], [1]])"
    by (simp add: retain_eq [OF sample_manager_inv])
  then have rs: "rs = [[1]]" by (simp add: sample_simps)
  have "\<forall>k \<in> set rs. ref_cnt (the (mget sample_manager k)) < 2 ^ 31 - 1"
    by (simp add: rs sample_simps)
  from retain_release_roundtrip [OF sample_manager_inv r this] r rs show ?thesis by blast
qed

text \<open>
  \<open>complete_store\<close> never raises and keeps the invariant. On success every listed block
  whose store was in flight becomes ready with reference count 0; on failure it leaves the cache
  and its slot returns to the free list; every other entry is unchanged.
\<close>

lemma complete_store_correct:
  assumes "mgr_inv m"
  shows "\<exists>m'. complete_store ks success m = Inr m' \<and> mgr_inv m'
    \<and> (\<forall>k. mget m' k =
          (if k \<in> set ks \<and> pending m k
           then (if success then map_option ready_ref (mget m k) else None) else mget m k))"
  using assms by (rule complete_store_spec)

lemma prepare_load_unready:
  assumes "mgr_inv m" "distinct keys" "\<not> (\<forall>k \<in> set keys. loadable m k)"
  shows "prepare_load keys m = Inl AssertionError"
proof -
  from assms(3) obtain xs k ys where keys: "keys = xs @ k # ys" "\<not> loadable m k" "\<forall>k \<in> set xs. loadable m k"
    using split_list_first_prop [of keys "\<lambda>k. \<not> loadable m k"] by auto
  let ?m = "fold (\<lambda>k. mmodify k incr_ref) xs m"
  have "distinct xs" "k \<notin> set xs" using assms(2) keys(1) by auto
  with modify_loop [OF assms(1), of xs incr_ref] keys(2) have "\<not> loadable ?m k"
    by (simp add: loadable_def)
  then have "load1 k (?m, bs) = Inl AssertionError" for bs
    by (auto simp: load1_def loadable_def py_assert_def split: option.split)
  with load_loop [OF \<open>distinct xs\<close> assms(1) keys(3)] show ?thesis
    by (simp add: prepare_load_def keys(1) rfold_append)
qed

text \<open>
  A load of distinct ready keys succeeds and returns the slots of the keys in order;
  completing it succeeds and restores the status of every block, provided no count was at the
  32-bit maximum. A load that names a missing or unfinished key raises an assertion error.
\<close>

lemma load_roundtrip:
  assumes "mgr_inv m" "distinct keys"
  shows "(if \<forall>k \<in> set keys. loadable m k then
      (\<exists>m'. prepare_load keys m = Inr (map (\<lambda>k. block_id (the (mget m k))) keys, m')
         \<and> mgr_inv m'
         \<and> ((\<forall>k \<in> set keys. ref_cnt (the (mget m k)) < 2 ^ 31 - 1) \<longrightarrow>
             (\<exists>m''. complete_load keys m' = Inr m'' \<and> mget m'' = mget m)))
    else prepare_load keys m = Inl AssertionError)"
proof (cases "\<forall>k \<in> set keys. loadable m k")
  case True
  from prepare_load_spec [OF assms True] obtain m' where
    m': "prepare_load keys m = Inr (map (\<lambda>k. block_id (the (mget m k))) keys, m')" "mgr_inv m'"
      "\<And>k. mget m' k = (if k \<in> set keys then map_option incr_ref (mget m k) else mget m k)"
    by auto
  have "\<exists>m''. complete_load keys m' = Inr m'' \<and> mget m'' = mget m"
    if small: "\<forall>k \<in> set keys. ref_cnt (the (mget m k)) < 2 ^ 31 - 1"
  proof -
    have b: "\<exists>b. mget m k = Some b \<and> decr_ref (incr_ref b) = b \<and> ref_cnt (incr_ref b) > 0"
      if "k \<in> set keys" for k
      using True small that decr_incr_ref incr_ref_pos by (fastforce simp: loadable_def)
    then have "\<forall>k \<in> set keys. referenced m' k" by (fastforce simp: referenced_def m'(3))
    with complete_load_spec [OF m'(2) assms(2)] modify_loop [OF m'(2) assms(2), of decr_ref]
    obtain m'' where "complete_load keys m' = Inr m''"
      "\<And>k. mget m'' k = (if k \<in> set keys then map_option decr_ref (mget m' k) else mget m' k)"
      by auto
    moreover from this(2) have "mget m'' k = mget m k" for k
      using b [of k] by (auto simp: m'(3))
    ultimately show ?thesis by blast
  qed
  with True m' show ?thesis by auto
next
  case False
  then show ?thesis using prepare_load_unready [OF assms] by auto
qed

definition threshold_manager :: cpu_manager where
  "threshold_manager =
     \<lparr>num_blocks = 1, num_allocated_blocks = 1, free_list = [], events = None,
      mpolicy = LRU \<lparr>blocks = [([1], \<lparr>ref_cnt = 0, block_id = 0\<rparr>)]\<rparr>,
      store_threshold = 2, max_tracker_size = 8, counts = Some [([2], 2)]\<rparr>"


end
