(* ===== verification/Protocol.thy ===== *)
theory Protocol
  imports Prelude "HOL-Library.Sublist"
begin

section \<open>Request metadata and lifecycle identifiers\<close>

text \<open>
  \<^verbatim>\<open>vllm/tokencake/protocol.py\<close>. The identifier check is modelled down to the parts of
  Python's \<open>uuid.UUID\<close> that it uses: the removal of decorations, the lenient \<open>int(s, 16)\<close>, the
  version and variant bits and the printing of 32 hexadecimal digits. Strings are lists of
  one-byte characters. The metadata object is a record; the constraints that its fields declare
  and its validator are the definition \<open>TokenCakeMetadata\<close>. The conversion of a JSON object to
  typed field values is done by the validation library; it is the parameter \<open>typed\<close> of the
  functions that call it, and gives the record together with the names of the fields that were
  set, or \<open>None\<close> when a value has the wrong type.
\<close>

subsection \<open>Python's UUID\<close>

text \<open>\<open>s.replace(pat, '')\<close> for a non-empty pattern.\<close>

fun py_remove :: "string \<Rightarrow> string \<Rightarrow> string" where
  "py_remove pat [] = []"
| "py_remove pat (c # cs) =
     (if prefix pat (c # cs) then py_remove pat (drop (length pat - 1) cs)
      else c # py_remove pat cs)"

text \<open>\<open>s.strip(chars)\<close>.\<close>

definition py_strip :: "char set \<Rightarrow> string \<Rightarrow> string" where
  "py_strip chars s = rev (dropWhile (\<lambda>c. c \<in> chars) (rev (dropWhile (\<lambda>c. c \<in> chars) s)))"

definition hex_chars :: string where
  "hex_chars = ''0123456789abcdef''"

definition hex_value :: "char \<Rightarrow> nat option" where
  "hex_value c =
     map_of (zip ''0123456789abcdefABCDEF'' [0, 1, 2, 3, 4, 5, 6, 7, 8, 9,
        10, 11, 12, 13, 14, 15, 10, 11, 12, 13, 14, 15]) c"

text \<open>The digits of \<open>int(s, 16)\<close>: an underscore is allowed between two digits.\<close>

fun hex_digits :: "bool \<Rightarrow> nat \<Rightarrow> string \<Rightarrow> nat option" where
  "hex_digits after_digit n [] = (if after_digit then Some n else None)"
| "hex_digits after_digit n (c # cs) =
     (if c = CHR ''_'' then (if after_digit then hex_digits False n cs else None)
      else case hex_value c of None \<Rightarrow> None | Some d \<Rightarrow> hex_digits True (16 * n + d) cs)"

definition whitespace :: "char set" where
  "whitespace = set [CHR '' '', CHR 0x09, CHR 0x0A, CHR 0x0B, CHR 0x0C, CHR 0x0D,
     CHR 0x1C, CHR 0x1D, CHR 0x1E, CHR 0x1F, CHR 0x85, CHR 0xA0]"

definition drop_sign :: "string \<Rightarrow> int \<times> string" where
  "drop_sign s =
     (case s of [] \<Rightarrow> (1, [])
      | c # cs \<Rightarrow> if c = CHR ''-'' then (-1, cs) else if c = CHR ''+'' then (1, cs) else (1, s))"

definition drop_0x :: "string \<Rightarrow> string" where
  "drop_0x s =
     (if prefix ''0x'' s \<or> prefix ''0X'' s then
        (case drop 2 s of c # cs \<Rightarrow> if c = CHR ''_'' then cs else c # cs | [] \<Rightarrow> [])
      else s)"

definition py_int16 :: "string \<Rightarrow> int option" where
  "py_int16 s =
     (case drop_sign (py_strip whitespace s) of
        (sg, body) \<Rightarrow> map_option (\<lambda>n. sg * int n) (hex_digits False 0 (drop_0x body)))"

text \<open>\<open>UUID(hex=s)\<close>: the 128-bit number, or \<open>None\<close> for the \<open>ValueError\<close> of the constructor.\<close>

definition uuid_of_hex :: "string \<Rightarrow> nat option" where
  "uuid_of_hex s0 =
     (let s1 = py_remove ''uuid:'' (py_remove ''urn:'' s0);
          s2 = filter (\<lambda>c. c \<noteq> CHR ''-'') (py_strip {CHR ''{'', CHR ''}''} s1)
      in if length s2 \<noteq> 32 then None
         else case py_int16 s2 of
                None \<Rightarrow> None
              | Some i \<Rightarrow> if 0 \<le> i \<and> i < 2 ^ 128 then Some (nat i) else None)"

text \<open>\<open>'%032x' % n\<close> for a number of at most 128 bits.\<close>

fun hexn :: "nat \<Rightarrow> nat \<Rightarrow> string" where
  "hexn 0 n = []"
| "hexn (Suc k) n = hexn k (n div 16) @ [hex_chars ! (n mod 16)]"

definition uuid_hex :: "nat \<Rightarrow> string" where
  "uuid_hex n = hexn 32 n"

text \<open>The version is defined for the RFC 4122 variant only (bit 63 set and bit 62 clear).\<close>

definition uuid_version :: "nat \<Rightarrow> nat option" where
  "uuid_version n =
     (if odd (n div 2 ^ 63) \<and> even (n div 2 ^ 62) then Some ((n div 2 ^ 76) mod 16) else None)"

subsection \<open>Validation\<close>

definition lifecycle_message :: string where
  "lifecycle_message = ''TokenCake lifecycle_id must be tc- followed by canonical UUID4 hex''"

definition validate_lifecycle_id :: "string \<Rightarrow> string res" where
  "validate_lifecycle_id value =
     (if length value \<noteq> 35 \<or> \<not> prefix ''tc-'' value then Inl (ValueError lifecycle_message)
      else case uuid_of_hex (drop 3 value) of
             None \<Rightarrow> Inl (ValueError lifecycle_message)
           | Some identifier \<Rightarrow>
               if uuid_version identifier \<noteq> Some 4 \<or> uuid_hex identifier \<noteq> drop 3 value
               then Inl (ValueError lifecycle_message) else Inr value)"

record metadata =
  lifecycle_id :: string
  agent_type :: string
  agent_name :: string
  importance :: pyfloat
  depth :: int
  in_degree :: int
  out_degree :: int
  similarity :: pyfloat
  application_started_at_s :: pyfloat
  application_start_offset_s :: pyfloat
  application_elapsed_s :: pyfloat
  application_max_depth :: int
  remaining_depth :: int
  critical_path :: bool
  near_completion :: bool
  join_group :: string
  dependency_depth :: int
  fanout_width :: int
  memory_weight :: pyfloat
  offload_eligible :: bool
  reusable_prefix :: bool

definition metadata_defaults :: "string \<Rightarrow> metadata" where
  "metadata_defaults i =
     \<lparr>lifecycle_id = i, agent_type = '''', agent_name = '''', importance = 0, depth = 0,
      in_degree = 0, out_degree = 0, similarity = 0, application_started_at_s = 0,
      application_start_offset_s = 0, application_elapsed_s = 0, application_max_depth = 0,
      remaining_depth = 0, critical_path = False, near_completion = False, join_group = '''',
      dependency_depth = 0, fanout_width = 1, memory_weight = 1, offload_eligible = False,
      reusable_prefix = False\<rparr>"

definition field_constraints :: "metadata \<Rightarrow> bool" where
  "field_constraints d \<longleftrightarrow>
     0 \<le> importance d \<and> 0 \<le> depth d \<and> 0 \<le> in_degree d \<and> 0 \<le> out_degree d
     \<and> 0 \<le> similarity d \<and> similarity d \<le> 1
     \<and> 0 \<le> application_started_at_s d \<and> 0 \<le> application_start_offset_s d
     \<and> 0 \<le> application_elapsed_s d \<and> 0 \<le> application_max_depth d \<and> 0 \<le> remaining_depth d
     \<and> 0 \<le> dependency_depth d \<and> 1 \<le> fanout_width d \<and> 0 \<le> memory_weight d"

definition validate_depths :: "string set \<Rightarrow> metadata \<Rightarrow> metadata res" where
  "validate_depths fields_set d =
     (if ''application_max_depth'' \<in> fields_set then
        (if depth d > application_max_depth d then
           Inl (ValueError ''TokenCake depth exceeds application_max_depth'')
         else if remaining_depth d > application_max_depth d then
           Inl (ValueError ''TokenCake remaining_depth exceeds application_max_depth'')
         else Inr d)
      else Inr d)"

definition TokenCakeMetadata :: "string set \<Rightarrow> metadata \<Rightarrow> metadata res" where
  "TokenCakeMetadata fields_set d =
     rbind (validate_lifecycle_id (lifecycle_id d)) (\<lambda>_.
       if \<not> field_constraints d then Inl (ValueError ''field constraint'')
       else validate_depths fields_set d)"

text \<open>JSON values, as far as the callers look at them.\<close>

datatype json = JObject "(string \<times> json) list" | JOther

definition metadata_from_extra_args ::
  "(json \<Rightarrow> (string set \<times> metadata) option) \<Rightarrow> (string \<times> json) list option
     \<Rightarrow> metadata option res" where
  "metadata_from_extra_args typed extra_args =
     (case extra_args of
        None \<Rightarrow> Inr None
      | Some args \<Rightarrow>
          (case map_of args ''tokencake'' of
             None \<Rightarrow> Inr None
           | Some JOther \<Rightarrow> Inl (ValueError ''vllm_xargs['tokencake'] must be an object'')
           | Some (JObject fs) \<Rightarrow>
               (case typed (JObject fs) of
                  None \<Rightarrow> Inl (ValueError ''type error'')
                | Some (fields_set, d) \<Rightarrow> rbind (TokenCakeMetadata fields_set d) (\<lambda>d. Inr (Some d)))))"

definition single_generation :: string where
  "single_generation = ''TokenCake metadata requires exactly one EngineCore generation''"

text \<open>
  On success the caller's dictionary entry is replaced by the dump of the validated object
  (\<open>dump\<close>, again the validation library); the result is the updated dictionary.
\<close>

definition validate_request_metadata ::
  "(json \<Rightarrow> (string set \<times> metadata) option) \<Rightarrow> (metadata \<Rightarrow> json)
     \<Rightarrow> (string \<times> json) list option \<Rightarrow> string \<Rightarrow> int option \<Rightarrow> bool
     \<Rightarrow> (string \<times> json) list option res" where
  "validate_request_metadata typed dump extra_args request_id n use_beam_search =
     rbind (metadata_from_extra_args typed extra_args) (\<lambda>r.
       case r of
         None \<Rightarrow> Inr extra_args
       | Some d \<Rightarrow>
           if lifecycle_id d \<noteq> request_id then
             Inl (ValueError ''TokenCake lifecycle_id must match the top-level request_id'')
           else if n \<notin> {None, Some 1} \<or> use_beam_search then Inl (ValueError single_generation)
           else (case extra_args of
                   None \<Rightarrow> Inl AssertionError
                 | Some args \<Rightarrow> Inr (Some (AList.update ''tokencake'' (dump d) args))))"

definition validate_generation_count ::
  "(string \<times> json) list option \<Rightarrow> int \<Rightarrow> bool \<Rightarrow> unit res" where
  "validate_generation_count extra_args generations builtin_tools =
     (case extra_args of
        None \<Rightarrow> Inr ()
      | Some args \<Rightarrow>
          if has_key ''tokencake'' args \<and> (generations \<noteq> 1 \<or> builtin_tools)
          then Inl (ValueError single_generation) else Inr ())"

subsection \<open>Hexadecimal digits\<close>

abbreviation all_hex :: "string \<Rightarrow> bool" where
  "all_hex s \<equiv> set s \<subseteq> set hex_chars"

definition digit :: "char \<Rightarrow> nat" where
  "digit c = the (hex_value c)"

lemma hex_chars_cases:
  "c \<in> set hex_chars \<Longrightarrow>
   hex_value c = Some (digit c) \<and> digit c < 16 \<and> hex_chars ! digit c = c"
  unfolding hex_chars_def digit_def hex_value_def by auto

lemma hex_nth [simp]: "d < 16 \<Longrightarrow> hex_chars ! d \<in> set hex_chars"
  by (rule nth_mem) (simp add: hex_chars_def)

lemma hex_nth_inj: "d < 16 \<Longrightarrow> e < 16 \<Longrightarrow> hex_chars ! d = hex_chars ! e \<longleftrightarrow> d = e"
  by (rule nth_eq_iff_index_eq) (simp_all add: hex_chars_def)

lemma length_hexn [simp]: "length (hexn k n) = k"
  by (induction k arbitrary: n) simp_all

lemma hexn_hex: "all_hex (hexn k n)"
  by (induction k arbitrary: n) auto

lemma hexn_nth: "i < k \<Longrightarrow> hexn k n ! i = hex_chars ! ((n div 16 ^ (k - 1 - i)) mod 16)"
proof (induction k arbitrary: n)
  case 0
  then show ?case by simp
next
  case (Suc k)
  show ?case
  proof (cases "i < k")
    case True
    then have "16 * 16 ^ (k - 1 - i) = (16::nat) ^ (k - i)"
      by (simp flip: power_Suc add: Suc_diff_Suc)
    with True Suc.IH [of "n div 16"] show ?thesis
      by (simp add: nth_append flip: div_mult2_eq)
  next
    case False
    with Suc.prems have "i = k" by simp
    then show ?thesis by (simp add: nth_append)
  qed
qed

definition hex_number :: "string \<Rightarrow> nat" where
  "hex_number s = foldl (\<lambda>n c. 16 * n + digit c) 0 s"

lemma hex_digits_number:
  "all_hex s \<Longrightarrow> hex_digits True n s = Some (foldl (\<lambda>n c. 16 * n + digit c) n s)"
proof (induction s arbitrary: n)
  case Nil
  then show ?case by simp
next
  case (Cons c s)
  then have "c \<noteq> CHR ''_''" by (auto simp: hex_chars_def)
  with Cons hex_chars_cases [of c] show ?case by simp
qed

lemma hex_digits_start:
  "all_hex s \<Longrightarrow> s \<noteq> [] \<Longrightarrow> hex_digits False 0 s = Some (hex_number s)"
  using hex_digits_number [of "tl s" "digit (hd s)"] hex_chars_cases [of "hd s"]
  by (cases s) (auto simp: hex_chars_def hex_number_def)

lemma hexn_hex_number: "all_hex s \<Longrightarrow> hexn (length s) (hex_number s) = s"
proof (induction s rule: rev_induct)
  case Nil
  then show ?case by simp
next
  case (snoc c s)
  then have "hex_number (s @ [c]) div 16 = hex_number s" "hex_number (s @ [c]) mod 16 = digit c"
    using hex_chars_cases [of c] by (auto simp: hex_number_def)
  with snoc hex_chars_cases [of c] show ?case by simp
qed

lemma hex_number_bound: "all_hex s \<Longrightarrow> hex_number s < 16 ^ length s"
proof (induction s rule: rev_induct)
  case Nil
  then show ?case by (simp add: hex_number_def)
next
  case (snoc c s)
  then have "hex_number s < 16 ^ length s" "digit c < 16" using hex_chars_cases [of c] by auto
  then have "16 * hex_number s + digit c < 16 * 16 ^ length s" by linarith
  then show ?case by (simp add: hex_number_def)
qed

subsection \<open>Undecorated strings\<close>

lemma dropWhile_none: "set s \<inter> A = {} \<Longrightarrow> dropWhile (\<lambda>c. c \<in> A) s = s"
  by (cases s) auto

lemma py_strip_none: "set s \<inter> A = {} \<Longrightarrow> py_strip A s = s"
  using dropWhile_none [of s A] dropWhile_none [of "rev s" A] by (simp add: py_strip_def)

lemma py_remove_none: "c \<notin> set s \<Longrightarrow> py_remove (c # pat) s = s"
  by (induction s) auto

lemma py_int16_hex: "all_hex s \<Longrightarrow> s \<noteq> [] \<Longrightarrow> py_int16 s = Some (int (hex_number s))"
proof -
  assume s: "all_hex s" "s \<noteq> []"
  then have "set s \<inter> whitespace = {}" by (auto simp: hex_chars_def whitespace_def)
  moreover have "drop_sign s = (1, s)"
    using s by (cases s) (auto simp: drop_sign_def hex_chars_def)
  moreover have "CHR ''x'' \<notin> set s" "CHR ''X'' \<notin> set s" using s by (auto simp: hex_chars_def)
  then have "drop_0x s = s" by (auto simp: drop_0x_def prefix_def)
  ultimately show ?thesis
    using s by (simp add: py_int16_def py_strip_none hex_digits_start)
qed

lemma uuid_of_hex_canonical:
  assumes "all_hex s" "length s = 32"
  shows "uuid_of_hex s = Some (hex_number s)"
proof -
  have c: "CHR ''u'' \<notin> set s" "CHR ''-'' \<notin> set s" "set s \<inter> {CHR ''{'', CHR ''}''} = {}"
    using assms(1) by (auto simp: hex_chars_def)
  then have "py_remove ''uuid:'' (py_remove ''urn:'' s) = s" by (simp add: py_remove_none)
  moreover have "filter (\<lambda>c. c \<noteq> CHR ''-'') s = s"
    using c(2) by (intro filter_True) auto
  moreover have "hex_number s < 2 ^ 128"
    using hex_number_bound [OF assms(1)] assms(2) by simp
  moreover have "py_int16 s = Some (int (hex_number s))"
    using assms by (intro py_int16_hex) auto
  ultimately show ?thesis
    using assms(2) c(3) by (simp add: uuid_of_hex_def Let_def py_strip_none)
qed

subsection \<open>Properties\<close>

text \<open>The third field's first digit and the fourth field's first digit of a UUID.\<close>

lemma variant_bits: "odd (q div 8) \<and> even (q div 4) \<longleftrightarrow> q mod 16 \<in> {8, 9, 10, 11}" for q :: nat
proof -
  define r where "r = q mod 16"
  have q: "q = 16 * (q div 16) + r" by (simp add: r_def)
  have "(16 * a + r) div 8 = 2 * a + r div 8" "(16 * a + r) div 4 = 4 * a + r div 4" for a
    by presburger+
  then have "odd (q div 8) \<and> even (q div 4) \<longleftrightarrow> odd (r div 8) \<and> even (r div 4)"
    by (subst (1 2) q) simp
  also have "r \<in> set [0..<16]" by (simp add: r_def)
  then have "odd (r div 8) \<and> even (r div 4) \<longleftrightarrow> r \<in> {8, 9, 10, 11}"
    by (simp add: upt_rec) (elim disjE; simp)
  finally show ?thesis by (simp add: r_def)
qed

lemma uuid_version_4_iff:
  "uuid_version n = Some 4 \<longleftrightarrow>
     uuid_hex n ! 12 = CHR ''4'' \<and> uuid_hex n ! 16 \<in> set ''89ab''"
proof -
  define d where "d = (n div 2 ^ 60) mod 16"
  have "uuid_hex n ! 12 = hex_chars ! ((n div 2 ^ 76) mod 16)"
    and h16: "uuid_hex n ! 16 = hex_chars ! d"
    by (simp_all add: uuid_hex_def hexn_nth d_def)
  moreover have "hex_chars ! e = CHR ''4'' \<longleftrightarrow> e = 4" if "e < 16" for e
    using hex_nth_inj [OF that, of 4] by (simp add: hex_chars_def)
  moreover have "hex_chars ! d \<in> set ''89ab'' \<longleftrightarrow> d \<in> {8, 9, 10, 11}"
    using hex_nth_inj [of d 8] hex_nth_inj [of d 9] hex_nth_inj [of d 10] hex_nth_inj [of d 11]
    by (simp add: hex_chars_def d_def)
  moreover have "odd (n div 2 ^ 63) \<and> even (n div 2 ^ 62) \<longleftrightarrow> d \<in> {8, 9, 10, 11}"
  proof -
    have e: "n div 2 ^ 63 = n div 2 ^ 60 div 8" "n div 2 ^ 62 = n div 2 ^ 60 div 4"
      by (simp_all flip: div_mult2_eq)
    show ?thesis unfolding e d_def by (rule variant_bits)
  qed
  ultimately show ?thesis by (auto simp: uuid_version_def)
qed

lemma validate_lifecycle_id_eq:
  "validate_lifecycle_id s =
     (if length s = 35 \<and> prefix ''tc-'' s \<and> all_hex (drop 3 s)
         \<and> drop 3 s ! 12 = CHR ''4'' \<and> drop 3 s ! 16 \<in> set ''89ab''
      then Inr s else Inl (ValueError lifecycle_message))"
proof (cases "length s = 35 \<and> prefix ''tc-'' s")
  case False
  then show ?thesis by (auto simp: validate_lifecycle_id_def)
next
  case True
  let ?t = "drop 3 s"
  have len: "length ?t = 32" using True by simp
  show ?thesis
  proof (cases "all_hex ?t")
    case hex: True
    have "uuid_of_hex ?t = Some (hex_number ?t)" using hex len by (rule uuid_of_hex_canonical)
    moreover have "uuid_hex (hex_number ?t) = ?t"
      using hexn_hex_number [OF hex] len by (simp add: uuid_hex_def)
    ultimately show ?thesis
      using True hex uuid_version_4_iff [of "hex_number ?t"]
      by (simp add: validate_lifecycle_id_def)
  next
    case False
    then have "uuid_hex n \<noteq> ?t" for n using hexn_hex [of 32 n] by (auto simp: uuid_hex_def)
    with True False show ?thesis by (auto simp: validate_lifecycle_id_def split: option.split)
  qed
qed

text \<open>
  \<^bold>\<open>C14\<close>. \<open>validate_lifecycle_id\<close> accepts exactly the strings \<open>tc-\<close> followed by 32 lowercase
  hexadecimal digits whose 13th digit is 4 and whose 17th digit is 8, 9, a or b (a canonical
  version-4 UUID), returns them unchanged and raises one and the same error for every other
  string, including those that Python's UUID constructor would accept (braces, hyphens, a
  \<open>urn:uuid:\<close> prefix, upper case, signs, underscores).
\<close>

theorem lifecycle_id_accepted_iff:
  "validate_lifecycle_id s =
     (if length s = 35 \<and> prefix ''tc-'' s \<and> all_hex (drop 3 s)
         \<and> drop 3 s ! 12 = CHR ''4'' \<and> drop 3 s ! 16 \<in> set ''89ab''
      then Inr s else Inl (ValueError lifecycle_message))"
  by (rule validate_lifecycle_id_eq)

lemma TokenCakeMetadata_Inr:
  assumes "TokenCakeMetadata fs d = Inr d'"
  shows "d' = d \<and> validate_lifecycle_id (lifecycle_id d) = Inr (lifecycle_id d)
    \<and> field_constraints d
    \<and> (''application_max_depth'' \<in> fs \<longrightarrow>
         depth d \<le> application_max_depth d \<and> remaining_depth d \<le> application_max_depth d)"
proof -
  have idem: "validate_lifecycle_id i = Inr j \<Longrightarrow> j = i" for i j
    by (auto simp: validate_lifecycle_id_def split: if_splits option.splits)
  from assms obtain j where "validate_lifecycle_id (lifecycle_id d) = Inr j"
    "field_constraints d" "validate_depths fs d = Inr d'"
    by (auto simp: TokenCakeMetadata_def rbind_eq_Inr split: if_splits)
  with idem show ?thesis by (auto simp: validate_depths_def split: if_splits)
qed

text \<open>
  A request whose metadata passes \<open>validate_request_metadata\<close> carries a canonical
  lifecycle identifier equal to its request id, asks for a single generation without beam search,
  and its field values satisfy the declared constraints, with both depths within the application's
  depth when that was given; only the \<open>tokencake\<close> entry of its arguments is rewritten.
\<close>

lemma request_metadata_validated:
  assumes "validate_request_metadata typed dump (Some args) rid n beam = Inr r"
    and "map_of args ''tokencake'' = Some v"
  shows "\<exists>fs d. typed v = Some (fs, d) \<and> lifecycle_id d = rid
    \<and> validate_lifecycle_id rid = Inr rid \<and> (n = None \<or> n = Some 1) \<and> \<not> beam
    \<and> field_constraints d
    \<and> (''application_max_depth'' \<in> fs \<longrightarrow>
         depth d \<le> application_max_depth d \<and> remaining_depth d \<le> application_max_depth d)
    \<and> r = Some (AList.update ''tokencake'' (dump d) args)"
proof -
  have "metadata_from_extra_args typed (Some args) \<noteq> Inr None"
    using assms(2)
    by (auto simp: metadata_from_extra_args_def rbind_eq_Inr split: json.splits option.splits)
  with assms(1) obtain d where d: "metadata_from_extra_args typed (Some args) = Inr (Some d)"
    by (auto simp: validate_request_metadata_def rbind_eq_Inr)
  with assms(1) have r: "lifecycle_id d = rid" "n = None \<or> n = Some 1" "\<not> beam"
      "r = Some (AList.update ''tokencake'' (dump d) args)"
    by (auto simp: validate_request_metadata_def split: if_splits)
  from d assms(2) obtain fs e where "typed v = Some (fs, e)" "TokenCakeMetadata fs e = Inr d"
    by (auto simp: metadata_from_extra_args_def rbind_eq_Inr split: json.splits option.splits)
  with TokenCakeMetadata_Inr [OF this(2)] r show ?thesis by auto
qed

end
