(* ===== verification/Metrics.thy ===== *)
theory Metrics
  imports Prelude
begin

section \<open>Counters\<close>

text \<open>
  \<^verbatim>\<open>vllm/tokencake/metrics.py\<close>: the enumeration of counters, the counter object that the
  scheduler side updates, and the translation of its snapshots into increments of the exported
  counters. The metrics library is not modelled: \<open>observe\<close> returns the increments and gauge
  values that it passes to it.
\<close>

datatype metric =
    M_ASSOCIATED
  | M_COMPLETED
  | M_STARTED
  | M_FINISHED
  | M_ABORTED
  | M_ERROR
  | M_EXPIRED
  | M_RESET
  | M_DUPLICATE
  | M_LATE_FINISH
  | M_UNKNOWN
  | M_CONFLICT
  | M_NOT_ELIGIBLE
  | M_EMPTY
  | M_LOW_PRESSURE
  | M_NO_WAITING_DEMAND
  | M_BACKOFF
  | M_UNPROFITABLE
  | M_PREFIX_GAP
  | M_CPU_CAPACITY
  | M_SELECTED
  | M_STALE
  | M_EXTERNAL
  | M_FENCE_WAIT
  | M_TRANSFER_FAILURE
  | M_SAVED
  | M_DEFERRED
  | M_PREEMPTED
  | M_PREFILL_CAPPED
  | M_PHYSICAL_PREEMPTED
  | M_RESERVATION_PREEMPTED
  | M_RESERVATION_DENIED
  | M_PREFILL_CAPACITY_DENIED
  | M_GENERATION_CAPACITY_DENIED
  | M_GENERATION_PROGRESS_DEFERRED
  | M_RECLAIM_BENEFICIARY
  | M_RESUME_DEFERRED
  | M_ADMITTED
  | M_WORK_CONSERVING_ADMITTED
  | M_CACHE_AFFINITY_ADMITTED
  | M_JOIN_PRIORITY_ADMITTED
  | M_PRIORITY_BORROW_ADMITTED
  | M_CRITICAL_ADMITTED
  | M_CRITICAL_WAIT_GE_60S
  | M_CRITICAL_WAIT_GE_180S
  | M_EXECUTED_TOKENS
  | M_RECOMPUTED_TOKENS
  | M_GPU_HIT_TOKENS
  | M_GPU_SHARED_HIT_BLOCKS
  | M_GPU_EXCLUSIVE_HIT_BLOCKS
  | M_CPU_HIT_TOKENS
  | M_RESUME_GPU_HIT_TOKENS
  | M_RESUME_CPU_HIT_TOKENS

fun metric_value :: "metric \<Rightarrow> string" where
  "metric_value M_ASSOCIATED = ''lifecycle.associated''"
| "metric_value M_COMPLETED = ''lifecycle.completed''"
| "metric_value M_STARTED = ''lifecycle.started''"
| "metric_value M_FINISHED = ''lifecycle.finished''"
| "metric_value M_ABORTED = ''lifecycle.aborted''"
| "metric_value M_ERROR = ''lifecycle.error''"
| "metric_value M_EXPIRED = ''lifecycle.expired''"
| "metric_value M_RESET = ''lifecycle.reset''"
| "metric_value M_DUPLICATE = ''lifecycle.duplicate''"
| "metric_value M_LATE_FINISH = ''lifecycle.late_finish''"
| "metric_value M_UNKNOWN = ''lifecycle.unknown''"
| "metric_value M_CONFLICT = ''lifecycle.conflict''"
| "metric_value M_NOT_ELIGIBLE = ''decision.not_eligible''"
| "metric_value M_EMPTY = ''decision.empty''"
| "metric_value M_LOW_PRESSURE = ''decision.low_pressure''"
| "metric_value M_NO_WAITING_DEMAND = ''decision.no_waiting_demand''"
| "metric_value M_BACKOFF = ''decision.backoff''"
| "metric_value M_UNPROFITABLE = ''decision.unprofitable''"
| "metric_value M_PREFIX_GAP = ''decision.prefix_gap''"
| "metric_value M_CPU_CAPACITY = ''decision.cpu_capacity''"
| "metric_value M_SELECTED = ''decision.selected''"
| "metric_value M_STALE = ''decision.stale_snapshot''"
| "metric_value M_EXTERNAL = ''decision.snapshot_external''"
| "metric_value M_FENCE_WAIT = ''decision.fence_wait''"
| "metric_value M_TRANSFER_FAILURE = ''decision.transfer_failure''"
| "metric_value M_SAVED = ''saved_blocks.completed''"
| "metric_value M_DEFERRED = ''scheduling.deferred''"
| "metric_value M_PREEMPTED = ''scheduling.preempted''"
| "metric_value M_PREFILL_CAPPED = ''scheduling.prefill_capped''"
| "metric_value M_PHYSICAL_PREEMPTED = ''scheduling.physical_preempted''"
| "metric_value M_RESERVATION_PREEMPTED = ''scheduling.reservation_preempted''"
| "metric_value M_RESERVATION_DENIED = ''scheduling.reservation_denied''"
| "metric_value M_PREFILL_CAPACITY_DENIED = ''scheduling.prefill_capacity_denied''"
| "metric_value M_GENERATION_CAPACITY_DENIED = ''scheduling.generation_capacity_denied''"
| "metric_value M_GENERATION_PROGRESS_DEFERRED = ''scheduling.generation_progress_deferred''"
| "metric_value M_RECLAIM_BENEFICIARY = ''scheduling.reclaim_beneficiary''"
| "metric_value M_RESUME_DEFERRED = ''scheduling.resume_deferred''"
| "metric_value M_ADMITTED = ''scheduling.admitted''"
| "metric_value M_WORK_CONSERVING_ADMITTED = ''scheduling.work_conserving_admitted''"
| "metric_value M_CACHE_AFFINITY_ADMITTED = ''scheduling.cache_affinity_admitted''"
| "metric_value M_JOIN_PRIORITY_ADMITTED = ''scheduling.join_priority_admitted''"
| "metric_value M_PRIORITY_BORROW_ADMITTED = ''scheduling.priority_borrow_admitted''"
| "metric_value M_CRITICAL_ADMITTED = ''scheduling.critical_admitted''"
| "metric_value M_CRITICAL_WAIT_GE_60S = ''scheduling.critical_wait_ge_60s''"
| "metric_value M_CRITICAL_WAIT_GE_180S = ''scheduling.critical_wait_ge_180s''"
| "metric_value M_EXECUTED_TOKENS = ''scheduling.executed_tokens''"
| "metric_value M_RECOMPUTED_TOKENS = ''scheduling.recomputed_tokens''"
| "metric_value M_GPU_HIT_TOKENS = ''scheduling.gpu_hit_tokens''"
| "metric_value M_GPU_SHARED_HIT_BLOCKS = ''scheduling.gpu_shared_hit_blocks''"
| "metric_value M_GPU_EXCLUSIVE_HIT_BLOCKS = ''scheduling.gpu_exclusive_hit_blocks''"
| "metric_value M_CPU_HIT_TOKENS = ''scheduling.cpu_hit_tokens''"
| "metric_value M_RESUME_GPU_HIT_TOKENS = ''scheduling.resume_gpu_hit_tokens''"
| "metric_value M_RESUME_CPU_HIT_TOKENS = ''scheduling.resume_cpu_hit_tokens''"

text \<open>The members in the order of the class body, which is the order of iteration.\<close>

definition all_metrics :: "metric list" where
  "all_metrics =
    [M_ASSOCIATED, M_COMPLETED, M_STARTED, M_FINISHED, M_ABORTED, M_ERROR, M_EXPIRED,
     M_RESET, M_DUPLICATE, M_LATE_FINISH, M_UNKNOWN, M_CONFLICT, M_NOT_ELIGIBLE, M_EMPTY,
     M_LOW_PRESSURE, M_NO_WAITING_DEMAND, M_BACKOFF, M_UNPROFITABLE, M_PREFIX_GAP,
     M_CPU_CAPACITY, M_SELECTED, M_STALE, M_EXTERNAL, M_FENCE_WAIT, M_TRANSFER_FAILURE,
     M_SAVED, M_DEFERRED, M_PREEMPTED, M_PREFILL_CAPPED, M_PHYSICAL_PREEMPTED,
     M_RESERVATION_PREEMPTED, M_RESERVATION_DENIED, M_PREFILL_CAPACITY_DENIED,
     M_GENERATION_CAPACITY_DENIED, M_GENERATION_PROGRESS_DEFERRED, M_RECLAIM_BENEFICIARY,
     M_RESUME_DEFERRED, M_ADMITTED, M_WORK_CONSERVING_ADMITTED, M_CACHE_AFFINITY_ADMITTED,
     M_JOIN_PRIORITY_ADMITTED, M_PRIORITY_BORROW_ADMITTED, M_CRITICAL_ADMITTED,
     M_CRITICAL_WAIT_GE_60S, M_CRITICAL_WAIT_GE_180S, M_EXECUTED_TOKENS, M_RECOMPUTED_TOKENS,
     M_GPU_HIT_TOKENS, M_GPU_SHARED_HIT_BLOCKS, M_GPU_EXCLUSIVE_HIT_BLOCKS, M_CPU_HIT_TOKENS,
     M_RESUME_GPU_HIT_TOKENS, M_RESUME_CPU_HIT_TOKENS]"

record tc_metrics =
  counters :: "metric \<Rightarrow> int"
  max_critical_wait_ms :: int
  max_critical_growth_wait_ms :: int

definition metrics_init :: tc_metrics where
  "metrics_init =
     \<lparr>counters = (\<lambda>_. 0), max_critical_wait_ms = 0, max_critical_growth_wait_ms = 0\<rparr>"

text \<open>\<open>count\<close> asserts that the amount is not negative; \<open>count1\<close> is the call with amount 1.\<close>

definition count_metric :: "metric \<Rightarrow> int \<Rightarrow> tc_metrics \<Rightarrow> tc_metrics res" where
  "count_metric x amount m =
     py_assert (amount \<ge> 0) (Inr (m\<lparr>counters := (counters m)(x := counters m x + amount)\<rparr>))"

definition count1 :: "metric \<Rightarrow> tc_metrics \<Rightarrow> tc_metrics" where
  "count1 x m = m\<lparr>counters := (counters m)(x := counters m x + 1)\<rparr>"

definition growth_wait :: "pyfloat \<Rightarrow> tc_metrics \<Rightarrow> tc_metrics" where
  "growth_wait seconds m =
     m\<lparr>max_critical_growth_wait_ms :=
         max (max_critical_growth_wait_ms m) (py_int (seconds * 1000))\<rparr>"

definition admission_wait :: "pyfloat \<Rightarrow> bool \<Rightarrow> tc_metrics \<Rightarrow> tc_metrics" where
  "admission_wait seconds critical m =
     (let m1 = count1 M_ADMITTED m
      in if critical then
           (let m2 = count1 M_CRITICAL_ADMITTED m1;
                m3 = m2\<lparr>max_critical_wait_ms :=
                       max (max_critical_wait_ms m2) (py_int (seconds * 1000))\<rparr>;
                m4 = (if seconds \<ge> 60 then count1 M_CRITICAL_WAIT_GE_60S m3 else m3)
            in if seconds \<ge> 180 then count1 M_CRITICAL_WAIT_GE_180S m4 else m4)
         else m1)"

definition snapshot :: "int \<Rightarrow> tc_metrics \<Rightarrow> (string, int) odict" where
  "snapshot active m =
     map (\<lambda>x. (metric_value x, counters m x)) all_metrics
     @ [(''active'', active), (''max_critical_wait_ms'', max_critical_wait_ms m),
        (''max_critical_growth_wait_ms'', max_critical_growth_wait_ms m)]"

text \<open>
  The exporter keeps the previous snapshot of each engine. A snapshot without one of the counters
  raises \<open>KeyError\<close>; a counter that went down fails the assertion.
\<close>

record prom_update =
  increments :: "(metric \<times> int) list"
  active_gauge :: int
  wait_gauge :: pyfloat
  growth_wait_gauge :: pyfloat

fun observe_deltas ::
  "metric list \<Rightarrow> (string, int) odict \<Rightarrow> (string, int) odict \<Rightarrow> (metric \<times> int) list res" where
  "observe_deltas [] values previous = Inr []"
| "observe_deltas (x # xs) values previous =
     (case map_of values (metric_value x) of
        None \<Rightarrow> Inl KeyError
      | Some value \<Rightarrow>
          (let delta = value - get_default 0 (metric_value x) previous
           in py_assert (delta \<ge> 0)
                (rbind (observe_deltas xs values previous) (\<lambda>ds. Inr ((x, delta) # ds)))))"

definition observe ::
  "(string, int) odict \<Rightarrow> int \<Rightarrow> (int \<rightharpoonup> (string, int) odict)
     \<Rightarrow> (prom_update \<times> (int \<rightharpoonup> (string, int) odict)) res" where
  "observe values engine_idx state =
     (case state engine_idx of
        None \<Rightarrow> Inl KeyError
      | Some previous \<Rightarrow>
          rbind (observe_deltas all_metrics values previous) (\<lambda>ds.
            case map_of values ''active'' of
              None \<Rightarrow> Inl KeyError
            | Some a \<Rightarrow>
                Inr (\<lparr>increments = ds, active_gauge = a,
                      wait_gauge = of_int (get_default 0 ''max_critical_wait_ms'' values) / 1000,
                      growth_wait_gauge =
                        of_int (get_default 0 ''max_critical_growth_wait_ms'' values) / 1000\<rparr>,
                     state(engine_idx \<mapsto> values))))"

subsection \<open>Lemmas\<close>

lemma all_metrics_complete: "set all_metrics = UNIV"
proof -
  have "x \<in> set all_metrics" for x by (cases x) (simp_all add: all_metrics_def)
  then show ?thesis by blast
qed

lemma metric_value_inj: "metric_value x = metric_value y \<longleftrightarrow> x = y"
proof -
  have "distinct (map metric_value all_metrics)" by (simp add: all_metrics_def)
  then have "inj_on metric_value (set all_metrics)" by (simp add: distinct_map)
  then show ?thesis by (auto simp: all_metrics_complete inj_on_def)
qed

lemma metric_value_not_gauge:
  "metric_value x \<noteq> ''active'' \<and> metric_value x \<noteq> ''max_critical_wait_ms''
   \<and> metric_value x \<noteq> ''max_critical_growth_wait_ms''"
  by (cases x) simp_all

lemma map_of_values:
  "x \<in> set xs \<Longrightarrow> map_of (map (\<lambda>x. (metric_value x, f x)) xs @ ys) (metric_value x) = Some (f x)"
  by (induction xs) (auto simp: metric_value_inj)

lemma snapshot_counter: "map_of (snapshot a m) (metric_value x) = Some (counters m x)"
  unfolding snapshot_def by (rule map_of_values) (simp add: all_metrics_complete)

lemma map_of_values_other:
  "(\<And>x. metric_value x \<noteq> k) \<Longrightarrow> map_of (map (\<lambda>x. (metric_value x, f x)) xs @ ys) k = map_of ys k"
  by (induction xs) auto

lemma snapshot_active: "map_of (snapshot a m) ''active'' = Some a"
  unfolding snapshot_def using metric_value_not_gauge by (subst map_of_values_other) auto

lemma count1_counters: "counters (count1 x m) y = counters m y + (if y = x then 1 else 0)"
  by (simp add: count1_def)

definition metrics_le :: "tc_metrics \<Rightarrow> tc_metrics \<Rightarrow> bool" where
  "metrics_le m m' \<longleftrightarrow>
     (\<forall>x. counters m x \<le> counters m' x)
     \<and> max_critical_wait_ms m \<le> max_critical_wait_ms m'
     \<and> max_critical_growth_wait_ms m \<le> max_critical_growth_wait_ms m'"

lemma metrics_le_refl [simp]: "metrics_le m m"
  by (simp add: metrics_le_def)

lemma metrics_le_trans: "metrics_le a b \<Longrightarrow> metrics_le b c \<Longrightarrow> metrics_le a c"
  unfolding metrics_le_def by (meson order_trans)

lemma metrics_le_count1 [simp]: "metrics_le m (count1 x m)"
  by (simp add: metrics_le_def count1_def)

lemma metrics_le_count1_right: "metrics_le m m' \<Longrightarrow> metrics_le m (count1 x m')"
  using metrics_le_count1 metrics_le_trans by blast

lemma observe_deltas_snapshot:
  assumes "\<And>x. get_default 0 (metric_value x) previous \<le> counters m x"
  shows "observe_deltas xs (snapshot a m) previous =
    Inr (map (\<lambda>x. (x, counters m x - get_default 0 (metric_value x) previous)) xs)"
  by (induction xs) (simp_all add: snapshot_counter Let_def assms)

text \<open>A run of the exporter over the successive snapshots of one engine.\<close>

fun observe_all ::
  "int \<Rightarrow> (string, int) odict list \<Rightarrow> (int \<rightharpoonup> (string, int) odict) \<Rightarrow> prom_update list res" where
  "observe_all e [] st = Inr []"
| "observe_all e (v # vs) st =
     rbind (observe v e st) (\<lambda>(u, st'). rbind (observe_all e vs st') (\<lambda>us. Inr (u # us)))"

definition exported :: "metric \<Rightarrow> prom_update list \<Rightarrow> int" where
  "exported x us = (\<Sum>u \<leftarrow> us. \<Sum>(y, d) \<leftarrow> increments u. if y = x then d else 0)"

lemma sum_selected_metric:
  "distinct xs \<Longrightarrow>
   (\<Sum>y \<leftarrow> xs. if y = x then f y else 0) = (if x \<in> set xs then f x else (0::int))"
  by (induction xs) auto

lemma distinct_all_metrics: "distinct all_metrics"
  by (simp add: all_metrics_def)

lemma observe_snapshot:
  assumes "st e = Some previous"
    and "\<And>x. get_default 0 (metric_value x) previous \<le> counters m x"
  shows "\<exists>u. observe (snapshot a m) e st = Inr (u, st(e \<mapsto> snapshot a m))
    \<and> (\<forall>x. exported x [u] = counters m x - get_default 0 (metric_value x) previous)"
  using assms
  by (simp add: observe_def observe_deltas_snapshot snapshot_active exported_def
      comp_def sum_selected_metric distinct_all_metrics all_metrics_complete)

lemma observe_all_telescopes:
  assumes "sorted_wrt metrics_le (map snd ams)" and "st e = Some previous"
    and "\<forall>m \<in> snd ` set ams. \<forall>x. get_default 0 (metric_value x) previous \<le> counters m x"
  shows "\<exists>us. observe_all e (map (\<lambda>(a, m). snapshot a m) ams) st = Inr us
    \<and> (\<forall>x. exported x us =
          (if ams = [] then 0
           else counters (snd (last ams)) x - get_default 0 (metric_value x) previous))"
  using assms
proof (induction ams arbitrary: st previous)
  case Nil
  then show ?case by (simp add: exported_def)
next
  case (Cons am ams)
  obtain a m where am: "am = (a, m)" by force
  from Cons.prems observe_snapshot [of st e previous m a] obtain u where
    u: "observe (snapshot a m) e st = Inr (u, st(e \<mapsto> snapshot a m))"
      "\<And>x. exported x [u] = counters m x - get_default 0 (metric_value x) previous"
    by (auto simp: am)
  have g: "get_default 0 (metric_value x) (snapshot a m) = counters m x" for x
    by (simp add: get_default_def snapshot_counter)
  have "\<forall>m' \<in> snd ` set ams. \<forall>x. get_default 0 (metric_value x) (snapshot a m) \<le> counters m' x"
    using Cons.prems(1) by (auto simp: g am metrics_le_def)
  moreover have "sorted_wrt metrics_le (map snd ams)" using Cons.prems(1) by simp
  moreover have "(st(e \<mapsto> snapshot a m)) e = Some (snapshot a m)" by simp
  ultimately obtain us where
    us: "observe_all e (map (\<lambda>(a, m). snapshot a m) ams) (st(e \<mapsto> snapshot a m)) = Inr us"
      "\<And>x. exported x us = (if ams = [] then 0 else counters (snd (last ams)) x - counters m x)"
    using Cons.IH unfolding g [symmetric] by blast
  have "exported x (u # us) = exported x [u] + exported x us" for x by (simp add: exported_def)
  with u us show ?case by (auto simp: am)
qed

subsection \<open>Properties\<close>

text \<open>
  The exporter is faithful over a whole run: for any sequence of snapshots of counters
  that only grow, starting from an engine with no previous snapshot, no observation raises and
  the increments exported for each counter add up to the value of the last snapshot.
\<close>

lemma exported_counters_telescope:
  assumes "sorted_wrt metrics_le (metrics_init # map snd ams)" "ams \<noteq> []"
  shows "\<exists>us. observe_all e (map (\<lambda>(a, m). snapshot a m) ams) [e \<mapsto> []] = Inr us
    \<and> (\<forall>x. exported x us = counters (snd (last ams)) x)"
  using assms observe_all_telescopes [of ams "[e \<mapsto> []]" e "[]"]
  by (auto simp: get_default_def metrics_le_def metrics_init_def)

text \<open>The updates of the counter object only raise its counters and maxima.\<close>

lemma updates_raise:
  "metrics_le m (count1 x m)" "metrics_le m (growth_wait s m)" "metrics_le m (admission_wait s c m)"
  "count_metric x amount m = Inr m' \<Longrightarrow> metrics_le m m'"
  by (auto simp: metrics_le_def count1_def growth_wait_def admission_wait_def count_metric_def py_assert_def
      Let_def split: if_splits)

end
