(* ===== verification/Config.thy ===== *)
theory Config
  imports Prelude
begin

section \<open>TokenCake configuration\<close>

text \<open>
  The immutable settings of \<^verbatim>\<open>vllm/tokencake/config.py\<close>: the three sections with their defaults,
  declared field bounds and cross-field validators, the parsing of the \<open>tokencake\<close> entry of
  \<open>additional_config\<close>, and the check of the engine's prerequisites. The construction of typed
  sections from raw values is the validation library's and is the parameter \<open>build\<close>.
\<close>

datatype reserve_mode = RM_all | RM_progress | RM_reclaim

datatype temporal_selection = First_fit | Best_fit | Priority_first

record scheduling_config =
  sched_enabled :: bool
  reserve_generation_tokens :: bool
  generation_reserve_mode :: reserve_mode
  decode_prefill_token_budget :: int
  cache_affinity_score_band :: int
  inherit_join_priority :: bool
  priority_borrow_score_margin :: int
  sched_temporal_selection :: temporal_selection
  critical_ratio :: pyfloat
  reserve_ratio_min :: pyfloat
  reserve_ratio_max :: pyfloat
  gpu_usage_low :: pyfloat
  gpu_usage_high :: pyfloat
  reserve_adjustment_step :: pyfloat

definition scheduling_defaults :: scheduling_config where
  "scheduling_defaults =
     \<lparr>sched_enabled = True, reserve_generation_tokens = True, generation_reserve_mode = RM_all,
      decode_prefill_token_budget = 0, cache_affinity_score_band = 500,
      inherit_join_priority = True, priority_borrow_score_margin = 500,
      sched_temporal_selection = First_fit, critical_ratio = 75 / 100,
      reserve_ratio_min = 5 / 100, reserve_ratio_max = 30 / 100, gpu_usage_low = 40 / 100,
      gpu_usage_high = 75 / 100, reserve_adjustment_step = 5 / 100\<rparr>"

definition ratio :: "pyfloat \<Rightarrow> bool" where
  "ratio x \<longleftrightarrow> 0 \<le> x \<and> x \<le> 1"

definition positive_ratio :: "pyfloat \<Rightarrow> bool" where
  "positive_ratio x \<longleftrightarrow> 0 < x \<and> x \<le> 1"

definition scheduling_fields :: "scheduling_config \<Rightarrow> bool" where
  "scheduling_fields c \<longleftrightarrow>
     0 \<le> decode_prefill_token_budget c \<and> 0 \<le> cache_affinity_score_band c
     \<and> 0 \<le> priority_borrow_score_margin c \<and> positive_ratio (critical_ratio c)
     \<and> ratio (reserve_ratio_min c) \<and> ratio (reserve_ratio_max c)
     \<and> ratio (gpu_usage_low c) \<and> ratio (gpu_usage_high c)
     \<and> positive_ratio (reserve_adjustment_step c)"

definition scheduling_validate_bounds :: "scheduling_config \<Rightarrow> scheduling_config res" where
  "scheduling_validate_bounds c =
     (if reserve_ratio_min c > reserve_ratio_max c then
        Inl (ValueError ''tokencake reserve_ratio_min must not exceed reserve_ratio_max'')
      else if gpu_usage_low c \<ge> gpu_usage_high c then
        Inl (ValueError ''tokencake gpu_usage_low must be below gpu_usage_high'')
      else Inr c)"

definition SchedulingConfig :: "scheduling_config \<Rightarrow> scheduling_config res" where
  "SchedulingConfig c =
     (if \<not> scheduling_fields c then Inl (ValueError ''field constraint'')
      else scheduling_validate_bounds c)"

record transfer_config =
  d2h_bandwidth_gbps :: pyfloat
  h2d_bandwidth_gbps :: pyfloat
  d2h_base_time_s :: pyfloat
  h2d_base_time_s :: pyfloat
  submission_time_per_run_s :: pyfloat

definition transfer_defaults :: transfer_config where
  "transfer_defaults =
     \<lparr>d2h_bandwidth_gbps = 12, h2d_bandwidth_gbps = 12, d2h_base_time_s = 0, h2d_base_time_s = 0,
      submission_time_per_run_s = 3 / 1000000\<rparr>"

definition transfer_fields :: "transfer_config \<Rightarrow> bool" where
  "transfer_fields c \<longleftrightarrow>
     0 < d2h_bandwidth_gbps c \<and> 0 < h2d_bandwidth_gbps c \<and> 0 \<le> d2h_base_time_s c
     \<and> 0 \<le> h2d_base_time_s c \<and> 0 \<le> submission_time_per_run_s c"

record offload_config =
  offload_enabled :: bool
  min_gpu_usage :: pyfloat
  high_pressure_gpu_usage :: pyfloat
  score_threshold :: pyfloat
  backoff_steps :: int
  eviction_window_blocks :: int
  max_relief_blocks :: int
  default_stall_s :: pyfloat
  release_lead_s :: pyfloat
  ewma_alpha :: pyfloat
  transfer :: transfer_config

definition offload_defaults :: offload_config where
  "offload_defaults =
     \<lparr>offload_enabled = True, min_gpu_usage = 60 / 100, high_pressure_gpu_usage = 85 / 100,
      score_threshold = 1, backoff_steps = 8, eviction_window_blocks = 128, max_relief_blocks = 0,
      default_stall_s = 1, release_lead_s = 10 / 100, ewma_alpha = 5 / 10,
      transfer = transfer_defaults\<rparr>"

definition offload_fields :: "offload_config \<Rightarrow> bool" where
  "offload_fields c \<longleftrightarrow>
     ratio (min_gpu_usage c) \<and> ratio (high_pressure_gpu_usage c) \<and> 0 \<le> score_threshold c
     \<and> 0 \<le> backoff_steps c \<and> 0 < eviction_window_blocks c \<and> 0 \<le> max_relief_blocks c
     \<and> 0 < default_stall_s c \<and> 0 \<le> release_lead_s c \<and> positive_ratio (ewma_alpha c)
     \<and> transfer_fields (transfer c)"

definition offload_validate_bounds :: "offload_config \<Rightarrow> offload_config res" where
  "offload_validate_bounds c =
     (if min_gpu_usage c \<ge> high_pressure_gpu_usage c then
        Inl (ValueError ''tokencake min_gpu_usage must be below high_pressure_gpu_usage'')
      else Inr c)"

definition OffloadConfig :: "offload_config \<Rightarrow> offload_config res" where
  "OffloadConfig c =
     (if \<not> offload_fields c then Inl (ValueError ''field constraint'')
      else offload_validate_bounds c)"

record tokencake_config =
  scheduling :: scheduling_config
  offload :: offload_config

definition TokenCakeConfig ::
  "scheduling_config \<Rightarrow> offload_config \<Rightarrow> tokencake_config res" where
  "TokenCakeConfig s f =
     rbind (SchedulingConfig s) (\<lambda>s'. rbind (OffloadConfig f) (\<lambda>f'.
       Inr \<lparr>scheduling = s', offload = f'\<rparr>))"

definition config_temporal_selection :: "tokencake_config \<Rightarrow> temporal_selection" where
  "config_temporal_selection c =
     (if sched_enabled (scheduling c) then sched_temporal_selection (scheduling c) else First_fit)"

subsection \<open>Parsing\<close>

text \<open>Raw configuration values, as far as the parser looks at them.\<close>

datatype raw = RDict "(string \<times> raw) list" | RBool bool | ROther

definition disabled_with_tuning :: "raw option \<Rightarrow> bool" where
  "disabled_with_tuning section =
     (case section of
        Some (RDict fs) \<Rightarrow>
          map_of fs ''enabled'' = Some (RBool False) \<and> fst ` set fs - {''enabled''} \<noteq> {}
      | _ \<Rightarrow> False)"

definition parse_tokencake_config ::
  "((string \<times> raw) list \<Rightarrow> (scheduling_config \<times> offload_config) option) \<Rightarrow> raw
     \<Rightarrow> tokencake_config option res" where
  "parse_tokencake_config build additional_config =
     (case additional_config of
        RDict entries \<Rightarrow>
          (case map_of entries ''tokencake'' of
             None \<Rightarrow> Inr None
           | Some (RDict value) \<Rightarrow>
               if disabled_with_tuning (map_of value ''scheduling'') then
                 Inl (ValueError ''tokencake.scheduling is disabled but supplies tuning fields'')
               else if disabled_with_tuning (map_of value ''offload'') then
                 Inl (ValueError ''tokencake.offload is disabled but supplies tuning fields'')
               else (case build value of
                       None \<Rightarrow> Inl (ValueError ''validation error'')
                     | Some (s, f) \<Rightarrow> rbind (TokenCakeConfig s f) (\<lambda>c. Inr (Some c)))
           | Some _ \<Rightarrow> Inl (ValueError ''additional_config['tokencake'] must be an object''))
      | _ \<Rightarrow> Inr None)"

subsection \<open>Prerequisites\<close>

text \<open>A float setting that may be infinite or not a number.\<close>

datatype ext_float = Finite pyfloat | Infinity | NegInfinity | NaN

record kv_transfer_config =
  kv_connector :: "string option"
  kv_connector_module_path :: "string option"
  kv_connector_extra_config :: "(string, string) odict"

record engine_config =
  data_parallel_size :: int
  kv_offloading_size :: "ext_float option"
  kv_offloading_backend :: string
  use_simple_kv_offload :: bool
  kv_transfer :: "kv_transfer_config option"

definition positive_capacity :: "ext_float option \<Rightarrow> bool" where
  "positive_capacity c = (case c of Some (Finite x) \<Rightarrow> x > 0 | _ \<Rightarrow> False)"

definition validate_transfer :: "kv_transfer_config option \<Rightarrow> unit res" where
  "validate_transfer t =
     (case t of
        None \<Rightarrow> Inr ()
      | Some t \<Rightarrow>
          if kv_connector t \<notin> {None, Some ''OffloadingConnector'', Some ''TokenCakeConnector''} then
            Inl (ValueError ''TokenCake offload is incompatible with the configured connector'')
          else if kv_connector_module_path t \<noteq> None then
            Inl (ValueError ''TokenCake offload requires the registered native connector'')
          else if get_default ''CPUOffloadingSpec'' ''spec_name'' (kv_connector_extra_config t)
                  \<noteq> ''CPUOffloadingSpec'' then
            Inl (ValueError ''TokenCake offload requires the native CPUOffloadingSpec manager'')
          else Inr ())"

definition validate_prerequisites :: "engine_config \<Rightarrow> tokencake_config \<Rightarrow> unit res" where
  "validate_prerequisites v settings =
     (if \<not> (sched_enabled (scheduling settings) \<or> offload_enabled (offload settings)) then Inr ()
      else if data_parallel_size v > 1 then
        Inl (ValueError ''TokenCake requires data_parallel_size=1'')
      else if \<not> offload_enabled (offload settings) then Inr ()
      else if \<not> positive_capacity (kv_offloading_size v) then
        Inl (ValueError ''TokenCake offload requires positive kv_offloading_size in GiB'')
      else if kv_offloading_backend v \<noteq> ''native'' then
        Inl (ValueError (''TokenCake offload requires kv_offloading_backend='' @ [CHR 0x27] @ ''native'' @ [CHR 0x27]))
      else if use_simple_kv_offload v then
        Inl (ValueError
          ''TokenCake requires OffloadingConnector; set VLLM_USE_SIMPLE_KV_OFFLOAD=0'')
      else validate_transfer (kv_transfer v))"

subsection \<open>Properties\<close>

lemma scheduling_defaults_valid: "SchedulingConfig scheduling_defaults = Inr scheduling_defaults"
  by (simp add: SchedulingConfig_def scheduling_fields_def scheduling_validate_bounds_def
      scheduling_defaults_def ratio_def positive_ratio_def)

lemma offload_defaults_valid: "OffloadConfig offload_defaults = Inr offload_defaults"
  by (simp add: OffloadConfig_def offload_fields_def offload_validate_bounds_def
      offload_defaults_def ratio_def positive_ratio_def transfer_fields_def transfer_defaults_def)

lemma SchedulingConfig_Inr:
  "SchedulingConfig c = Inr c' \<Longrightarrow>
   c' = c \<and> scheduling_fields c \<and> reserve_ratio_min c \<le> reserve_ratio_max c
   \<and> gpu_usage_low c < gpu_usage_high c"
  by (auto simp: SchedulingConfig_def scheduling_validate_bounds_def split: if_splits)

lemma OffloadConfig_Inr:
  "OffloadConfig c = Inr c' \<Longrightarrow>
   c' = c \<and> offload_fields c \<and> min_gpu_usage c < high_pressure_gpu_usage c"
  by (auto simp: OffloadConfig_def offload_validate_bounds_def split: if_splits)



text \<open>
  The prerequisites hold for an enabled offload section exactly when the engine has one
  data-parallel replica, a finite positive CPU capacity, the native backend without the simple
  offload switch, and no transfer configuration other than the registered native connector with
  the native CPU manager; a scheduling-only configuration needs only the single replica.
\<close>

lemma prerequisites_accepted_iff:
  "validate_prerequisites v c = Inr () \<longleftrightarrow>
     (offload_enabled (offload c) \<or> sched_enabled (scheduling c) \<longrightarrow> data_parallel_size v \<le> 1)
     \<and> (offload_enabled (offload c) \<longrightarrow>
          (\<exists>x > 0. kv_offloading_size v = Some (Finite x)) \<and> kv_offloading_backend v = ''native''
          \<and> \<not> use_simple_kv_offload v
          \<and> (\<forall>t. kv_transfer v = Some t \<longrightarrow>
               kv_connector t \<in> {None, Some ''OffloadingConnector'', Some ''TokenCakeConnector''}
               \<and> kv_connector_module_path t = None
               \<and> map_of (kv_connector_extra_config t) ''spec_name''
                   \<in> {None, Some ''CPUOffloadingSpec''}))"
proof -
  have t: "validate_transfer t = Inr () \<longleftrightarrow>
      (\<forall>u. t = Some u \<longrightarrow>
        kv_connector u \<in> {None, Some ''OffloadingConnector'', Some ''TokenCakeConnector''}
        \<and> kv_connector_module_path u = None
        \<and> map_of (kv_connector_extra_config u) ''spec_name'' \<in> {None, Some ''CPUOffloadingSpec''})"
    for t
    by (cases t) (auto simp: validate_transfer_def get_default_def split: option.splits)
  have c: "positive_capacity k \<longleftrightarrow> (\<exists>x > 0. k = Some (Finite x))" for k
    by (auto simp: positive_capacity_def split: option.splits ext_float.splits)
  show ?thesis unfolding t [symmetric] c [symmetric]
    by (auto simp: validate_prerequisites_def)
qed

end
