(* ===== verification/References.thy ===== *)
theory References
  imports CPU_Manager
begin

section \<open>Reference accounting\<close>

text \<open>
  What the holders of CPU blocks rely on: the interface between the manager's reference counts
  and its clients (lifecycle records that retain a prefix, transfers that load blocks). A holder
  is a list of keys without repetitions; \<open>accounted\<close> says that the reference count of every key
  is the number of holders that list it. The locale states what taking, adding and dropping
  references must do, and proves once that accounting is kept; the interpretation discharges the
  laws for the CPU manager.
\<close>

definition accounted :: "('m \<Rightarrow> bool) \<Rightarrow> ('m \<Rightarrow> 'k \<Rightarrow> int) \<Rightarrow> 'm \<Rightarrow> 'k list multiset \<Rightarrow> bool" where
  "accounted valid refs m hs \<longleftrightarrow>
     valid m \<and> (\<forall>h \<in># hs. distinct h) \<and> (\<forall>k. refs m k = int (size {# h \<in># hs. k \<in> set h #}))"

lemma accounted_Nil [simp]: "accounted valid refs m (add_mset [] hs) \<longleftrightarrow> accounted valid refs m hs"
  by (simp add: accounted_def)

lemma accounted_frame:
  "accounted valid refs m hs \<Longrightarrow> valid m' \<Longrightarrow> (\<And>k. refs m' k = refs m k) \<Longrightarrow> accounted valid refs m' hs"
  by (simp add: accounted_def)

lemma accounted_le_size: "accounted valid refs m hs \<Longrightarrow> refs m k \<le> int (size hs)"
  by (simp add: accounted_def size_mset_mono)

lemma accounted_pos:
  assumes "accounted valid refs m (add_mset h hs)" "k \<in> set h"
  shows "refs m k > 0"
  using assms by (simp add: accounted_def)

lemma accounted_distinct: "accounted valid refs m (add_mset h hs) \<Longrightarrow> distinct h"
  by (simp add: accounted_def)

locale reference_counts =
  fixes valid :: "'m \<Rightarrow> bool"
    and refs :: "'m \<Rightarrow> 'k \<Rightarrow> int"
    and take_refs :: "'k list \<Rightarrow> 'm \<Rightarrow> 'k list \<times> 'm"
    and drop_refs :: "'k list \<Rightarrow> 'm \<Rightarrow> 'm res"
  assumes take_law:
    "valid m \<Longrightarrow> take_refs ks m = (rs, m') \<Longrightarrow> \<forall>k \<in> set ks. refs m k < 2 ^ 31 - 1 \<Longrightarrow>
     valid m' \<and> distinct rs \<and> set rs \<subseteq> set ks
     \<and> (\<forall>k. refs m' k = refs m k + (if k \<in> set rs then 1 else 0))"
    and drop_law:
    "valid m \<Longrightarrow> \<forall>k \<in> set ks. refs m k > 0 \<Longrightarrow>
     \<exists>m'. drop_refs ks m = Inr m' \<and> valid m'
       \<and> (\<forall>k. refs m' k = refs m k - (if k \<in> set ks then 1 else 0))"
begin

lemma drop_holder:
  assumes "accounted valid refs m (add_mset h hs)"
  shows "\<exists>m'. drop_refs h m = Inr m' \<and> accounted valid refs m' hs"
proof -
  have "\<forall>k \<in> set h. refs m k > 0" using accounted_pos [OF assms] by blast
  with assms drop_law [of m h] obtain m' where "drop_refs h m = Inr m'" "valid m'"
    and "\<And>k. refs m' k = refs m k - (if k \<in> set h then 1 else 0)"
    by (auto simp: accounted_def)
  with assms show ?thesis by (auto simp: accounted_def)
qed

lemma extend_holder:
  assumes "accounted valid refs m (add_mset h hs)" "take_refs ks m = (rs, m')"
    and "set ks \<inter> set h = {}" "size hs < 2 ^ 31 - 2"
  shows "accounted valid refs m' (add_mset (h @ rs) hs) \<and> set rs \<subseteq> set ks"
proof -
  have "refs m k < 2 ^ 31 - 1" for k
    using accounted_le_size [OF assms(1), of k] assms(4) by simp
  with assms(1,2) take_law [of m ks rs m'] have "valid m'" "distinct rs" "set rs \<subseteq> set ks"
    and "\<And>k. refs m' k = refs m k + (if k \<in> set rs then 1 else 0)"
    by (auto simp: accounted_def)
  with assms(1,3) show ?thesis by (auto simp: accounted_def)
qed

lemma new_holder:
  assumes "accounted valid refs m hs" "take_refs ks m = (rs, m')" "size hs < 2 ^ 31 - 2"
  shows "accounted valid refs m' (add_mset rs hs) \<and> set rs \<subseteq> set ks"
  using extend_holder [of m "[]" hs ks rs m'] assms by simp

end

subsection \<open>The CPU manager as a reference store\<close>

text \<open>The references to a key: a block that is missing or not ready has none.\<close>

definition block_refs :: "cpu_manager \<Rightarrow> offload_key \<Rightarrow> int" where
  "block_refs m k = (case mget m k of None \<Rightarrow> 0 | Some b \<Rightarrow> if is_ready b then ref_cnt b else 0)"

definition counted_inv :: "cpu_manager \<Rightarrow> bool" where
  "counted_inv m \<longleftrightarrow> mgr_inv m \<and> (\<forall>k b. mget m k = Some b \<longrightarrow> ref_cnt b < 2 ^ 31)"

lemma ref_cnt_bounds [simp]:
  "ref_cnt (incr_ref b) < 2147483648" "ref_cnt (decr_ref b) < 2147483648"
  using c_int32_range by (simp_all add: incr_ref_def decr_ref_def)

lemma ref_cnt_incr: "is_ready b \<Longrightarrow> ref_cnt b < 2 ^ 31 - 1 \<Longrightarrow> ref_cnt (incr_ref b) = ref_cnt b + 1"
  by (simp add: incr_ref_def is_ready_def)

lemma ref_cnt_decr: "0 < ref_cnt b \<Longrightarrow> ref_cnt b < 2 ^ 31 \<Longrightarrow> ref_cnt (decr_ref b) = ref_cnt b - 1"
  by (simp add: decr_ref_def)

lemma counted_taken:
  assumes "counted_inv m" "mgr_inv m'" "\<forall>k \<in> set rs. loadable m k \<and> block_refs m k < 2 ^ 31 - 1"
    and "\<forall>k. mget m' k = (if k \<in> set rs then map_option incr_ref (mget m k) else mget m k)"
  shows "counted_inv m' \<and> (\<forall>k. block_refs m' k = block_refs m k + (if k \<in> set rs then 1 else 0))"
proof -
  have "block_refs m' k = block_refs m k + 1" if "k \<in> set rs" for k
    using assms(3,4) that ref_cnt_incr
    by (fastforce simp: block_refs_def loadable_def is_ready_def)
  moreover have "ref_cnt b < 2 ^ 31" if "mget m' k = Some b" for k b
    using that assms(1,4) by (auto simp: counted_inv_def split: if_splits)
  ultimately show ?thesis using assms(2,4) by (auto simp: counted_inv_def block_refs_def)
qed

lemma counted_dropped:
  assumes "counted_inv m" "mgr_inv m'" "\<forall>k \<in> set ks. block_refs m k > 0"
    and "\<forall>k. mget m' k = (if k \<in> set ks then map_option decr_ref (mget m k) else mget m k)"
  shows "counted_inv m' \<and> (\<forall>k. block_refs m' k = block_refs m k - (if k \<in> set ks then 1 else 0))"
proof -
  have "block_refs m' k = block_refs m k - 1" if k: "k \<in> set ks" for k
  proof -
    from assms(3) k obtain b where b: "mget m k = Some b" "0 < ref_cnt b"
      by (auto simp: block_refs_def split: option.splits if_splits)
    with assms(1) have "ref_cnt (decr_ref b) = ref_cnt b - 1"
      by (simp add: counted_inv_def ref_cnt_decr)
    with b k assms(4) show ?thesis by (simp add: block_refs_def is_ready_def)
  qed
  moreover have "ref_cnt b < 2 ^ 31" if "mget m' k = Some b" for k b
    using that assms(1,4) by (auto simp: counted_inv_def split: if_splits)
  ultimately show ?thesis using assms(2,4) by (auto simp: counted_inv_def block_refs_def)
qed

lemma block_refs_pos: "block_refs m k > 0 \<Longrightarrow> referenced m k"
  by (auto simp: block_refs_def referenced_def split: option.splits if_splits)

lemma counted_release:
  assumes "counted_inv m" "\<forall>k \<in> set ks. block_refs m k > 0"
  shows "\<exists>m'. release ks m = Inr m' \<and> counted_inv m'
    \<and> (\<forall>k. block_refs m' k = block_refs m k - (if k \<in> set ks then 1 else 0))"
proof -
  from assms(2) have "\<forall>k \<in> set ks. referenced m k" by (blast dest: block_refs_pos)
  then obtain m' where m': "release ks m = Inr m'" by (simp add: release_eq)
  with assms counted_dropped [of m m' ks] release_spec [of m ks m'] show ?thesis
    by (simp add: counted_inv_def)
qed

lemma counted_complete_load:
  assumes "counted_inv m" "distinct ks" "\<forall>k \<in> set ks. block_refs m k > 0"
  shows "\<exists>m'. complete_load ks m = Inr m' \<and> counted_inv m'
    \<and> (\<forall>k. block_refs m' k = block_refs m k - (if k \<in> set ks then 1 else 0))"
proof -
  have inv: "mgr_inv m" using assms(1) by (simp add: counted_inv_def)
  have "complete_load ks m = Inr (fold (\<lambda>k. mmodify k decr_ref) ks m)"
    using inv assms(2,3) by (intro complete_load_spec) (auto dest: block_refs_pos)
  with modify_loop [OF inv assms(2), of decr_ref] counted_dropped [OF assms(1) _ assms(3)]
  show ?thesis by simp
qed

interpretation cpu_refs: reference_counts counted_inv block_refs retain release
proof
  fix m ks rs m'
  assume a: "counted_inv m" "retain ks m = (rs, m')" "\<forall>k \<in> set ks. block_refs m k < 2 ^ 31 - 1"
  then have "mgr_inv m" by (simp add: counted_inv_def)
  from retain_spec [OF this a(2)] a(3) counted_taken [OF a(1), of m' rs]
  show "counted_inv m' \<and> distinct rs \<and> set rs \<subseteq> set ks
    \<and> (\<forall>k. block_refs m' k = block_refs m k + (if k \<in> set rs then 1 else 0))"
    by auto
qed (rule counted_release)

text \<open>Loads of keys without repetitions follow the same contract.\<close>

lemma load_holder:
  assumes "accounted counted_inv block_refs m hs" "prepare_load ks m = Inr (ids, m')"
    and "distinct ks" "size hs < 2 ^ 31 - 2"
  shows "accounted counted_inv block_refs m' (add_mset ks hs)"
proof -
  have inv: "counted_inv m" "mgr_inv m" using assms(1) by (auto simp: accounted_def counted_inv_def)
  have l: "\<forall>k \<in> set ks. loadable m k"
    using prepare_load_unready [OF inv(2) assms(3)] assms(2) by auto
  with prepare_load_spec [OF inv(2) assms(3)] assms(2) have "mgr_inv m'"
    "\<forall>k. mget m' k = (if k \<in> set ks then map_option incr_ref (mget m k) else mget m k)"
    by auto
  moreover have "block_refs m k < 2 ^ 31 - 1" for k
    using accounted_le_size [OF assms(1), of k] assms(4) by simp
  ultimately show ?thesis using counted_taken [OF inv(1), of m' ks] l assms(1,3)
    by (auto simp: accounted_def)
qed

lemma loaded_holder:
  assumes "accounted counted_inv block_refs m (add_mset ks hs)"
  shows "\<exists>m'. complete_load ks m = Inr m' \<and> accounted counted_inv block_refs m' hs"
proof -
  have "\<forall>k \<in> set ks. block_refs m k > 0" using accounted_pos [OF assms] by blast
  with assms counted_complete_load [of m ks] obtain m' where
    "complete_load ks m = Inr m'" "counted_inv m'"
    "\<And>k. block_refs m' k = block_refs m k - (if k \<in> set ks then 1 else 0)"
    by (auto simp: accounted_def)
  with assms show ?thesis by (auto simp: accounted_def)
qed

text \<open>The other operations leave every count as it is.\<close>

lemma accounted_mget_cong:
  assumes "accounted counted_inv block_refs m hs" "mgr_inv m'" "mget m' = mget m"
  shows "accounted counted_inv block_refs m' hs"
  using assms by (auto simp: accounted_def counted_inv_def block_refs_def)

lemma accounted_prepare_store:
  assumes "accounted counted_inv block_refs m hs" "distinct ks"
  shows "\<exists>out m'. prepare_store ks m = Inr (out, m') \<and> accounted counted_inv block_refs m' hs"
proof -
  have inv: "counted_inv m" "mgr_inv m" using assms(1) by (auto simp: accounted_def counted_inv_def)
  from prepare_store_spec [OF inv(2) assms(2)] obtain out m' where
    p: "prepare_store ks m = Inr (out, m')" "mgr_inv m'" by blast
  have none: "m' = m" if "out = None"
    using prepare_store_spec [OF inv(2) assms(2)] p(1) that by simp
  have some: "keys_to_store s = filter (\<lambda>k. mget m k = None) (admitted_keys ks m)"
    "\<forall>k \<in> set (evicted_keys s). \<exists>b. mget m k = Some b \<and> ref_cnt b = 0"
    "\<forall>k. mget m' k = installed (keys_to_store s) (store_spec s)
       (\<lambda>k. if k \<in> set (evicted_keys s) then None else mget m k) k" if "out = Some s" for s
    using prepare_store_spec [OF inv(2) assms(2)] p(1) that by simp_all
  have "counted_inv m' \<and> (\<forall>k. block_refs m' k = block_refs m k)"
  proof (cases out)
    case None
    with none inv show ?thesis by simp
  next
    case (Some s)
    have i: "(mget m k = None \<or> k \<notin> set (keys_to_store s)) \<and>
       mget m' k = (case map_of (zip (keys_to_store s) (store_spec s)) k of
         None \<Rightarrow> if k \<in> set (evicted_keys s) then None else mget m k
       | Some i \<Rightarrow> Some (pending_block i))" for k
      using some(1,3) [OF Some] by (cases "mget m k") (simp_all add: installed_def)
    note ev = some(2) [OF Some]
    have "block_refs m' k = block_refs m k" for k
    proof (cases "map_of (zip (keys_to_store s) (store_spec s)) k")
      case None
      with i [of k] ev show ?thesis by (auto simp: block_refs_def)
    next
      case (Some j)
      then have "k \<in> set (keys_to_store s)" by (auto dest!: map_of_SomeD set_zip_leftD)
      with i [of k] Some show ?thesis by (simp add: block_refs_def)
    qed
    moreover have "ref_cnt b < 2 ^ 31" if "mget m' k = Some b" for k b
      using that i [of k] inv(1) by (auto simp: counted_inv_def split: option.splits if_splits)
    ultimately show ?thesis using p(2) by (auto simp: counted_inv_def)
  qed
  with p(1) accounted_frame [OF assms(1)] show ?thesis by blast
qed

lemma accounted_complete_store:
  assumes "accounted counted_inv block_refs m hs"
  shows "\<exists>m'. complete_store ks ok m = Inr m' \<and> accounted counted_inv block_refs m' hs"
proof -
  have inv: "counted_inv m" "mgr_inv m" using assms(1) by (auto simp: accounted_def counted_inv_def)
  from complete_store_spec [OF inv(2)] obtain m' where
    m': "complete_store ks ok m = Inr m'" "mgr_inv m'" and
    g: "\<And>k. mget m' k = (if k \<in> set ks \<and> pending m k
           then (if ok then map_option ready_ref (mget m k) else None) else mget m k)"
    by blast
  have "block_refs m' k = block_refs m k" for k
    by (auto simp: block_refs_def g pending_def is_ready_def split: option.splits)
  moreover have "ref_cnt b < 2 ^ 31" if "mget m' k = Some b" for k b
    using that inv(1) by (auto simp: counted_inv_def g split: if_splits)
  ultimately have "counted_inv m' \<and> (\<forall>k. block_refs m' k = block_refs m k)"
    using m'(2) by (auto simp: counted_inv_def)
  with m'(1) accounted_frame [OF assms(1)] show ?thesis by blast
qed

lemma accounted_reset:
  assumes "accounted counted_inv block_refs m hs"
  shows "accounted counted_inv block_refs (reset_cache m) {#}"
  using assms reset_inv [of m] by (simp add: accounted_def counted_inv_def block_refs_def)

end
