(* ===== verification/Events.thy ===== *)
theory Events
  imports Protocol Config
begin

section \<open>Lifecycle events\<close>

text \<open>
  The HTTP event models of \<^verbatim>\<open>vllm/tokencake/events.py\<close>, the messages sent to the engine core and the
  route of \<^verbatim>\<open>vllm/tokencake/api_router.py\<close>. The engine client, a remote call, is the parameter
  \<open>client\<close>: it maps a message to how the call ended.
\<close>

datatype event_name = Stall_started | Stall_finished

datatype disposition = Applied | Duplicate | Late_finish | Unknown | Conflict | Unavailable

record lifecycle_event =
  le_event :: event_name
  le_lifecycle_id :: string
  le_kind :: string
  le_estimated_duration_s :: "pyfloat option"

record lifecycle_event_result =
  ler_lifecycle_id :: string
  ler_event :: event_name
  ler_state :: string
  ler_disposition :: disposition
  ler_status_code :: int

text \<open>A field of the request body: left out, \<open>null\<close>, or a typed value.\<close>

datatype 'a field = Absent | Null | Given 'a

datatype http_event =
    StallStarted string string "pyfloat option"
  | StallFinished string

definition reject_null_estimate :: "pyfloat field \<Rightarrow> pyfloat option res" where
  "reject_null_estimate value =
     (case value of
        Absent \<Rightarrow> Inr None
      | Null \<Rightarrow> Inl (ValueError ''estimated_duration_s must be a positive number'')
      | Given x \<Rightarrow> if x > 0 then Inr (Some x) else Inl (ValueError ''greater than 0''))"

definition validate_kind :: "string field \<Rightarrow> string res" where
  "validate_kind kind =
     (case kind of
        Absent \<Rightarrow> Inr ''stall''
      | Null \<Rightarrow> Inl (ValueError ''valid string'')
      | Given k \<Rightarrow> if length k \<ge> 1 then Inr k else Inl (ValueError ''at least 1 character''))"

definition stall_started_body :: "string \<Rightarrow> string field \<Rightarrow> pyfloat field \<Rightarrow> http_event res" where
  "stall_started_body i kind estimate =
     rbind (validate_lifecycle_id i) (\<lambda>i.
       rbind (validate_kind kind) (\<lambda>k.
         rbind (reject_null_estimate estimate) (\<lambda>e. Inr (StallStarted i k e))))"

definition stall_finished_body :: "string \<Rightarrow> http_event res" where
  "stall_finished_body i = rbind (validate_lifecycle_id i) (\<lambda>i. Inr (StallFinished i))"

fun event_message :: "http_event \<Rightarrow> lifecycle_event" where
  "event_message (StallStarted i k e) =
     \<lparr>le_event = Stall_started, le_lifecycle_id = i, le_kind = k, le_estimated_duration_s = e\<rparr>"
| "event_message (StallFinished i) =
     \<lparr>le_event = Stall_finished, le_lifecycle_id = i, le_kind = ''stall'',
      le_estimated_duration_s = None\<rparr>"

text \<open>How the awaited call ends: a result, one of the exceptions that mean the engine is not
  reachable (dead, timed out after 30 seconds, not implemented), or any other exception.\<close>

datatype call_outcome = Returned lifecycle_event_result | Unreachable | Raised

datatype http_response =
    HTTPException int string
  | JSONResponse int string event_name string disposition

definition tokencake_event ::
  "(tokencake_config option \<times> (lifecycle_event \<Rightarrow> call_outcome)) option \<Rightarrow> http_event
     \<Rightarrow> http_response" where
  "tokencake_event client event =
     (case client of
        None \<Rightarrow> HTTPException 503 ''TokenCake offload is unavailable''
      | Some (None, _) \<Rightarrow> HTTPException 503 ''TokenCake offload is unavailable''
      | Some (Some settings, call) \<Rightarrow>
          if \<not> offload_enabled (offload settings) then
            HTTPException 503 ''TokenCake offload is unavailable''
          else (case call (event_message event) of
                  Unreachable \<Rightarrow> HTTPException 503 ''TokenCake offload is unavailable''
                | Raised \<Rightarrow> HTTPException 500 ''TokenCake event execution failed''
                | Returned r \<Rightarrow>
                    JSONResponse (ler_status_code r) (ler_lifecycle_id r) (ler_event r)
                      (ler_state r) (ler_disposition r)))"

text \<open>The messages that the route can send: canonical identifier, nonempty kind, positive estimate.\<close>

definition wf_event :: "lifecycle_event \<Rightarrow> bool" where
  "wf_event e \<longleftrightarrow>
     validate_lifecycle_id (le_lifecycle_id e) = Inr (le_lifecycle_id e) \<and> le_kind e \<noteq> []
     \<and> (case le_estimated_duration_s e of None \<Rightarrow> True | Some x \<Rightarrow> x > 0)"

lemma validate_lifecycle_id_idem: "validate_lifecycle_id i = Inr j \<Longrightarrow> j = i"
  by (auto simp: validate_lifecycle_id_def split: if_splits option.splits)

lemma validate_lifecycle_id_stable:
  "validate_lifecycle_id i = Inr j \<Longrightarrow> validate_lifecycle_id j = Inr j"
  using validate_lifecycle_id_idem by blast

lemma stall_started_wf:
  "stall_started_body i kind est = Inr ev \<Longrightarrow> wf_event (event_message ev)"
  by (auto simp: stall_started_body_def validate_kind_def reject_null_estimate_def wf_event_def
      rbind_eq_Inr intro: validate_lifecycle_id_stable split: field.splits if_splits)

lemma stall_finished_wf: "stall_finished_body i = Inr ev \<Longrightarrow> wf_event (event_message ev)"
  by (auto simp: stall_finished_body_def wf_event_def rbind_eq_Inr intro: validate_lifecycle_id_stable)

end
