(* ===== verification/Lifecycle.thy ===== *)
theory Lifecycle
  imports Events Metrics References
begin

section \<open>The lifecycle registry\<close>

text \<open>
  \<^verbatim>\<open>vllm/tokencake/lifecycle.py\<close>: the records of agent lifecycles, from the association with a
  generation over a tool stall to a terminal cause and the removal of the tombstone, and the
  registry that owns them together with the CPU manager.

  A method that changes a record object returns the changed record with the changed registry, and
  its caller writes the record back under its identifier. A reading of \<open>self.clock()\<close> is an
  argument (\<open>c0\<close>, \<open>c1\<close>, \<open>c2\<close> for successive readings of one call). Deadlines that start as
  infinity are of type \<open>deadline\<close>. A Python set of keys is a list without repetitions.
\<close>

datatype terminal_cause =
  C_completed | C_finished | C_aborted | C_error | C_expired | C_reset

fun cause_name :: "terminal_cause \<Rightarrow> string" where
  "cause_name C_completed = ''completed''"
| "cause_name C_finished = ''finished''"
| "cause_name C_aborted = ''aborted''"
| "cause_name C_error = ''error''"
| "cause_name C_expired = ''expired''"
| "cause_name C_reset = ''reset''"

fun cause_metric :: "terminal_cause \<Rightarrow> metric" where
  "cause_metric C_completed = M_COMPLETED"
| "cause_metric C_finished = M_FINISHED"
| "cause_metric C_aborted = M_ABORTED"
| "cause_metric C_error = M_ERROR"
| "cause_metric C_expired = M_EXPIRED"
| "cause_metric C_reset = M_RESET"

fun disposition_metric :: "disposition \<Rightarrow> metric option" where
  "disposition_metric Duplicate = Some M_DUPLICATE"
| "disposition_metric Late_finish = Some M_LATE_FINISH"
| "disposition_metric Unknown = Some M_UNKNOWN"
| "disposition_metric Conflict = Some M_CONFLICT"
| "disposition_metric _ = None"

datatype deadline = Never | At pyfloat

fun reached :: "pyfloat \<Rightarrow> deadline \<Rightarrow> bool" where
  "reached now Never = False"
| "reached now (At t) = (now \<ge> t)"

type_synonym block_hash = bytes

record snapshot_group =
  sg_keys :: "offload_key list"
  sg_block_ids :: "nat list list"
  sg_gpu_hashes :: "block_hash option list list"

record req_context =
  req_id :: string
  kv_transfer_params :: "json option"

record prefix_snapshot =
  ps_groups :: "snapshot_group list"
  ps_req_context :: req_context

record lifecycle =
  lc_metadata :: metadata
  completed_at :: "pyfloat option"
  lc_snapshot :: "prefix_snapshot option"
  lc_start :: "lifecycle_event option"
  started_at :: "pyfloat option"
  predicted_duration :: pyfloat
  safety_deadline :: deadline
  release_deadline :: deadline
  ownership_released :: bool
  retained :: "offload_key list"
  pending_retention :: "offload_key list"
  pending_evaluation :: bool
  next_evaluation_step :: int
  backoff_signature :: "int list option"
  last_store_step :: int
  terminal_cause :: "terminal_cause option"
  terminal_at :: "pyfloat option"
  finish_accepted :: bool
  anonymous_sample :: "pyfloat option"

definition new_lifecycle :: "metadata \<Rightarrow> lifecycle" where
  "new_lifecycle d =
     \<lparr>lc_metadata = d, completed_at = None, lc_snapshot = None, lc_start = None, started_at = None,
      predicted_duration = 0, safety_deadline = Never, release_deadline = Never,
      ownership_released = False, retained = [], pending_retention = [],
      pending_evaluation = False, next_evaluation_step = 0, backoff_signature = None,
      last_store_step = -5, terminal_cause = None, terminal_at = None, finish_accepted = False,
      anonymous_sample = None\<rparr>"

definition lc_state :: "lifecycle \<Rightarrow> string" where
  "lc_state l =
     (case terminal_cause l of
        Some c \<Rightarrow> cause_name c
      | None \<Rightarrow>
          if lc_start l \<noteq> None then (if ownership_released l then ''released'' else ''active'')
          else if completed_at l = None then ''generating'' else ''awaiting_start'')"

definition owns_preservation :: "lifecycle \<Rightarrow> bool" where
  "owns_preservation l \<longleftrightarrow>
     lc_start l \<noteq> None \<and> terminal_at l = None \<and> \<not> ownership_released l"

type_synonym history_key = "string \<times> string \<times> string"

record registry =
  settings :: offload_config
  manager :: "cpu_manager option"
  records :: "(string, lifecycle) odict"
  generations :: "(string, string) odict"
  history :: "(history_key, pyfloat) odict"
  metrics :: tc_metrics

definition registry_init :: "offload_config \<Rightarrow> cpu_manager option \<Rightarrow> registry" where
  "registry_init c m =
     \<lparr>settings = c, manager = m, records = [], generations = [], history = [],
      metrics = metrics_init\<rparr>"

definition reg_count :: "metric \<Rightarrow> registry \<Rightarrow> registry" where
  "reg_count x r = r\<lparr>metrics := count1 x (metrics r)\<rparr>"

definition set_record :: "string \<Rightarrow> lifecycle \<times> registry \<Rightarrow> registry" where
  "set_record i lr = (snd lr)\<lparr>records := AList.update i (fst lr) (records (snd lr))\<rparr>"

subsection \<open>Release and termination\<close>

definition release_record :: "lifecycle \<Rightarrow> registry \<Rightarrow> (lifecycle \<times> registry) res" where
  "release_record l r =
     (let keys = retained l;
          l' = l\<lparr>retained := [], pending_retention := [], ownership_released := True\<rparr>
      in if keys = [] then Inr (l', r)
         else case manager r of
                None \<Rightarrow> Inl AssertionError
              | Some m \<Rightarrow> rbind (release keys m) (\<lambda>m'. Inr (l', r\<lparr>manager := Some m'\<rparr>)))"

definition terminalize ::
  "lifecycle \<Rightarrow> terminal_cause \<Rightarrow> pyfloat \<Rightarrow> registry \<Rightarrow> (lifecycle \<times> registry) res" where
  "terminalize l cause now r =
     (if terminal_at l \<noteq> None then Inr (l, r)
      else rbind (release_record l r) (\<lambda>(l', r').
        Inr (l'\<lparr>lc_snapshot := None, pending_evaluation := False, next_evaluation_step := 0,
                backoff_signature := None, terminal_cause := Some cause,
                terminal_at := Some now\<rparr>,
             reg_count (cause_metric cause) r')))"

definition attach_seconds :: pyfloat where "attach_seconds = 60"

definition tombstone_seconds :: pyfloat where "tombstone_seconds = 60"

definition history_limit :: nat where "history_limit = 4096"

definition expire1 :: "pyfloat \<Rightarrow> string \<times> lifecycle \<Rightarrow> registry \<Rightarrow> registry res" where
  "expire1 now il r = (case il of (i, l) \<Rightarrow>
     (case terminal_at l of
        Some t \<Rightarrow>
          Inr (if now \<ge> t + tombstone_seconds then r\<lparr>records := AList.delete i (records r)\<rparr> else r)
      | None \<Rightarrow>
          if started_at l \<noteq> None then
            (if reached now (safety_deadline l) then
               rbind (terminalize l C_expired now r) (\<lambda>lr. Inr (set_record i lr))
             else if reached now (release_deadline l) then
               rbind (release_record l r) (\<lambda>lr. Inr (set_record i lr))
             else Inr r)
          else
            (case completed_at l of
               None \<Rightarrow> Inr r
             | Some c \<Rightarrow>
                 if now \<ge> c + attach_seconds then
                   rbind (terminalize l C_expired now r) (\<lambda>lr. Inr (set_record i lr))
                 else Inr r)))"

definition expire :: "pyfloat \<Rightarrow> registry \<Rightarrow> registry res" where
  "expire now r = rfold (expire1 now) (records r) r"

subsection \<open>Generations\<close>

text \<open>The registry after a failed association is kept: the conflict was counted before the raise.\<close>

definition associate ::
  "string \<Rightarrow> metadata \<Rightarrow> pyfloat \<Rightarrow> registry \<Rightarrow> (registry \<times> py_error option) res" where
  "associate request_id d c0 r0 =
     rbind (expire c0 r0) (\<lambda>r.
       let identifier = lifecycle_id d in
       if has_key identifier (records r) \<or> has_key identifier (generations r) then
         Inr (reg_count M_CONFLICT r,
              Some (ValueError ''TokenCake lifecycle already belongs to a generation''))
       else
         Inr (reg_count M_ASSOCIATED
                (r\<lparr>generations := AList.update identifier request_id (generations r),
                   records := AList.update identifier (new_lifecycle d) (records r)\<rparr>), None))"

definition generation_finished ::
  "string \<Rightarrow> terminal_cause \<Rightarrow> prefix_snapshot option \<Rightarrow> pyfloat \<Rightarrow> pyfloat \<Rightarrow> registry
     \<Rightarrow> registry res" where
  "generation_finished identifier cause snap c0 now r0 =
     rbind (expire c0 r0) (\<lambda>r1.
       let r = r1\<lparr>generations := AList.delete identifier (generations r1)\<rparr> in
       case map_of (records r) identifier of
         None \<Rightarrow> Inr r
       | Some l \<Rightarrow>
           if terminal_at l \<noteq> None then Inr r
           else if cause \<noteq> C_completed \<or> \<not> offload_enabled (settings r) then
             rbind (terminalize l cause now r) (\<lambda>lr. Inr (set_record identifier lr))
           else
             Inr (set_record identifier
               (l\<lparr>completed_at := Some now, lc_snapshot := snap,
                  pending_evaluation := lc_start l \<noteq> None\<rparr>,
                reg_count M_COMPLETED r)))"

subsection \<open>Prediction of stall durations\<close>

definition lc_history_key :: "lifecycle \<Rightarrow> string \<Rightarrow> history_key option" where
  "lc_history_key l kind =
     (if agent_type (lc_metadata l) \<noteq> '''' then Some (''type'', agent_type (lc_metadata l), kind)
      else if agent_name (lc_metadata l) \<noteq> '''' then
        Some (''name'', agent_name (lc_metadata l), kind)
      else None)"

definition predict :: "lifecycle \<Rightarrow> lifecycle_event \<Rightarrow> registry \<Rightarrow> pyfloat \<times> registry" where
  "predict l event r =
     (let past = (case lc_history_key l (le_kind event) of
                    None \<Rightarrow> None | Some key \<Rightarrow> map_of (history r) key);
          r' = (case lc_history_key l (le_kind event) of
                  None \<Rightarrow> r
                | Some key \<Rightarrow>
                    if past = None then r else r\<lparr>history := move_to_end key (history r)\<rparr>)
      in ((case le_estimated_duration_s event of
             None \<Rightarrow> (case past of None \<Rightarrow> default_stall_s (settings r) | Some h \<Rightarrow> h)
           | Some estimate \<Rightarrow>
               (case past of None \<Rightarrow> estimate | Some h \<Rightarrow> 5 / 10 * (estimate + h))), r'))"

definition learn :: "lifecycle \<Rightarrow> pyfloat \<Rightarrow> registry \<Rightarrow> (lifecycle \<times> registry) res" where
  "learn l now r =
     (case (lc_start l, started_at l) of
        (Some ev, Some t) \<Rightarrow>
          (let sample = max 0 (now - t) in
           case lc_history_key l (le_kind ev) of
             None \<Rightarrow> Inr (l\<lparr>anonymous_sample := Some sample\<rparr>, r)
           | Some key \<Rightarrow>
               (case map_of (history r) key of
                  Some previous \<Rightarrow>
                    (let alpha = ewma_alpha (settings r)
                     in Inr (l, r\<lparr>history := AList.update key
                               (alpha * sample + (1 - alpha) * previous)
                               (AList.delete key (history r))\<rparr>))
                | None \<Rightarrow>
                    Inr (l, r\<lparr>history := AList.update key sample
                              (if length (history r) \<ge> history_limit then tl (history r)
                               else history r)\<rparr>)))
      | _ \<Rightarrow> Inl AssertionError)"

subsection \<open>Events\<close>

definition set_h2d_estimate ::
  "lifecycle \<Rightarrow> pyfloat \<Rightarrow> pyfloat \<Rightarrow> registry \<Rightarrow> (lifecycle \<times> registry) res" where
  "set_h2d_estimate l seconds t r =
     (case started_at l of
        None \<Rightarrow> Inl AssertionError
      | Some s \<Rightarrow>
          (let d = s + predicted_duration l - max (release_lead_s (settings r)) (125 / 100 * seconds);
               l' = l\<lparr>release_deadline := At d\<rparr>
           in if t \<ge> d then release_record l' r else Inr (l', r)))"

definition start_stall ::
  "lifecycle_event \<Rightarrow> lifecycle \<Rightarrow> pyfloat \<Rightarrow> pyfloat \<Rightarrow> registry \<Rightarrow> (lifecycle \<times> registry) res" where
  "start_stall event l now c2 r =
     (let l1 = l\<lparr>lc_start := Some event, started_at := Some now\<rparr>;
          (duration, r1) = predict l1 event r;
          l2 = l1\<lparr>predicted_duration := duration,
                 safety_deadline := At (now + min 3600 (max 60 (4 * duration)))\<rparr>
      in rbind (set_h2d_estimate l2 0 c2 r1) (\<lambda>(l3, r2).
           Inr (l3\<lparr>pending_evaluation := completed_at l3 \<noteq> None\<rparr>, reg_count M_STARTED r2)))"

definition finish_stall ::
  "lifecycle \<Rightarrow> pyfloat \<Rightarrow> registry \<Rightarrow> (lifecycle \<times> registry) res" where
  "finish_stall l now r =
     rbind (learn l now r) (\<lambda>(l', r'). terminalize (l'\<lparr>finish_accepted := True\<rparr>) C_finished now r')"

text \<open>How an event meets a record, and the answer for it.\<close>

definition classify :: "lifecycle_event \<Rightarrow> lifecycle \<Rightarrow> disposition \<times> int" where
  "classify event l =
     (if le_event event = Stall_started then
        (if lc_start l = Some event then (Duplicate, 200)
         else if lc_start l \<noteq> None \<or> terminal_at l \<noteq> None then (Conflict, 409)
         else (Applied, 200))
      else if terminal_at l \<noteq> None then
        ((if finish_accepted l then Duplicate else Late_finish), 200)
      else if lc_start l = None then (Conflict, 409)
      else (Applied, 200))"

definition apply_event ::
  "lifecycle_event \<Rightarrow> pyfloat \<Rightarrow> pyfloat \<Rightarrow> pyfloat \<Rightarrow> registry
     \<Rightarrow> (lifecycle_event_result \<times> registry) res" where
  "apply_event event c0 now c2 r0 =
     rbind (expire c0 r0) (\<lambda>r.
       let i = le_lifecycle_id event;
           answer = (\<lambda>state d status.
             \<lparr>ler_lifecycle_id = i, ler_event = le_event event, ler_state = state,
              ler_disposition = d, ler_status_code = status\<rparr>)
       in case map_of (records r) i of
            None \<Rightarrow> Inr (answer ''unknown'' Unknown 404, reg_count M_UNKNOWN r)
          | Some l \<Rightarrow>
              (case classify event l of
                 (Applied, status) \<Rightarrow>
                   rbind (if le_event event = Stall_started then start_stall event l now c2 r
                          else finish_stall l now r) (\<lambda>(l', r').
                     Inr (answer (lc_state l') Applied status, set_record i (l', r')))
               | (d, status) \<Rightarrow>
                   Inr (answer (lc_state l) d status,
                        case disposition_metric d of None \<Rightarrow> r | Some x \<Rightarrow> reg_count x r)))"

subsection \<open>Retention and reset\<close>

definition retain_ready ::
  "string \<Rightarrow> offload_key list \<Rightarrow> pyfloat \<Rightarrow> registry \<Rightarrow> (offload_key list \<times> registry) res" where
  "retain_ready i keys c0 r0 =
     rbind (expire c0 r0) (\<lambda>r.
       case map_of (records r) i of
         None \<Rightarrow> Inr ([], r)
       | Some l \<Rightarrow>
           if \<not> owns_preservation l then Inr ([], r)
           else case manager r of
                  None \<Rightarrow> Inl AssertionError
                | Some m \<Rightarrow>
                    (let (taken, m') = retain (filter (\<lambda>k. k \<notin> set (retained l)) keys) m
                     in Inr (taken, set_record i
                          (l\<lparr>retained := retained l @ taken\<rparr>, r\<lparr>manager := Some m'\<rparr>))))"

definition invalidate_snapshots :: "registry \<Rightarrow> registry" where
  "invalidate_snapshots r =
     r\<lparr>records := map (\<lambda>(i, l). (i, l\<lparr>lc_snapshot := None, pending_evaluation := False\<rparr>)) (records r)\<rparr>"

definition reset1 :: "pyfloat \<Rightarrow> string \<times> lifecycle \<Rightarrow> registry \<Rightarrow> registry res" where
  "reset1 now il r = (case il of (i, l) \<Rightarrow>
     rbind (terminalize (l\<lparr>retained := []\<rparr>) C_reset now r) (\<lambda>lr. Inr (set_record i lr)))"

definition external_reset_succeeded :: "pyfloat \<Rightarrow> registry \<Rightarrow> registry res" where
  "external_reset_succeeded now r = rfold (reset1 now) (records r) r"

definition has_pending_evaluation :: "registry \<Rightarrow> bool" where
  "has_pending_evaluation r \<longleftrightarrow> list_ex (\<lambda>(i, l). pending_evaluation l) (records r)"

definition active_lifecycles :: "registry \<Rightarrow> int" where
  "active_lifecycles r = int (length (filter (\<lambda>(i, l). terminal_at l = None) (records r)))"

definition stats :: "registry \<Rightarrow> (string, int) odict" where
  "stats r = snapshot (active_lifecycles r) (metrics r)"

subsection \<open>Abstract records\<close>

text \<open>
  What the methods do to one record, without the manager: the record after a release, after a
  termination, and after an \<open>expire\<close> at a given time (\<open>None\<close> when the tombstone is removed).
\<close>

definition released :: "lifecycle \<Rightarrow> lifecycle" where
  "released l = l\<lparr>retained := [], pending_retention := [], ownership_released := True\<rparr>"

definition closed :: "terminal_cause \<Rightarrow> pyfloat \<Rightarrow> lifecycle \<Rightarrow> lifecycle" where
  "closed c now l =
     (if terminal_at l \<noteq> None then l
      else (released l)\<lparr>lc_snapshot := None, pending_evaluation := False,
             next_evaluation_step := 0, backoff_signature := None, terminal_cause := Some c,
             terminal_at := Some now\<rparr>)"

definition expired :: "pyfloat \<Rightarrow> lifecycle \<Rightarrow> lifecycle option" where
  "expired now l =
     (case terminal_at l of
        Some t \<Rightarrow> if now \<ge> t + tombstone_seconds then None else Some l
      | None \<Rightarrow>
          if started_at l \<noteq> None then
            Some (if reached now (safety_deadline l) then closed C_expired now l
                  else if reached now (release_deadline l) then released l else l)
          else
            (case completed_at l of
               None \<Rightarrow> Some l
             | Some c \<Rightarrow> Some (if now \<ge> c + attach_seconds then closed C_expired now l else l)))"

text \<open>The invariant of a record.\<close>

definition wf_lc :: "lifecycle \<Rightarrow> bool" where
  "wf_lc l \<longleftrightarrow>
     (terminal_at l = None \<longleftrightarrow> terminal_cause l = None)
     \<and> (\<not> owns_preservation l \<longrightarrow> retained l = [] \<and> pending_retention l = [])
     \<and> (lc_start l = None \<longleftrightarrow> started_at l = None)
     \<and> (\<forall>s. started_at l = Some s \<longrightarrow>
          (\<exists>d. safety_deadline l = At d \<and> s + 60 \<le> d \<and> d \<le> s + 3600))
     \<and> (terminal_at l \<noteq> None \<longrightarrow> lc_snapshot l = None \<and> \<not> pending_evaluation l)
     \<and> (pending_evaluation l \<longrightarrow> completed_at l \<noteq> None \<and> lc_start l \<noteq> None)
     \<and> (finish_accepted l \<longrightarrow> terminal_cause l = Some C_finished)"

lemma released_simps [simp]:
  "retained (released l) = []" "pending_retention (released l) = []"
  "ownership_released (released l)" "terminal_at (released l) = terminal_at l"
  "terminal_cause (released l) = terminal_cause l" "started_at (released l) = started_at l"
  "lc_start (released l) = lc_start l" "completed_at (released l) = completed_at l"
  "lc_metadata (released l) = lc_metadata l" "lc_snapshot (released l) = lc_snapshot l"
  "safety_deadline (released l) = safety_deadline l"
  "pending_evaluation (released l) = pending_evaluation l"
  "finish_accepted (released l) = finish_accepted l"
  by (simp_all add: released_def)

lemma not_owns_released [simp]: "\<not> owns_preservation (released l)"
  by (simp add: owns_preservation_def)

lemma new_lifecycle_simps [simp]:
  "retained (new_lifecycle d) = []" "lc_metadata (new_lifecycle d) = d"
  "terminal_at (new_lifecycle d) = None" "completed_at (new_lifecycle d) = None"
  by (simp_all add: new_lifecycle_def)

lemma wf_lc_new [simp]: "wf_lc (new_lifecycle d)"
  by (simp add: wf_lc_def new_lifecycle_def owns_preservation_def)

lemma wf_lc_released: "wf_lc l \<Longrightarrow> wf_lc (released l)"
  by (auto simp: wf_lc_def)

lemma wf_lc_release_deadline: "wf_lc l \<Longrightarrow> wf_lc (l\<lparr>release_deadline := q\<rparr>)"
  by (auto simp: wf_lc_def owns_preservation_def)

lemma closed_simps [simp]:
  "terminal_at (closed c now l) \<noteq> None" "lc_metadata (closed c now l) = lc_metadata l"
  "started_at (closed c now l) = started_at l" "lc_start (closed c now l) = lc_start l"
  "completed_at (closed c now l) = completed_at l"
  "finish_accepted (closed c now l) = finish_accepted l"
  by (auto simp: closed_def)

lemma closed_eq: "terminal_at l \<noteq> None \<Longrightarrow> closed c now l = l"
  by (simp add: closed_def)

lemma wf_lc_terminal: "wf_lc l \<Longrightarrow> terminal_at l \<noteq> None \<Longrightarrow> retained l = [] \<and> pending_retention l = []"
  by (simp add: wf_lc_def owns_preservation_def)

lemma wf_lc_closed:
  assumes "wf_lc (l\<lparr>finish_accepted := f\<rparr>)" "finish_accepted l \<longrightarrow> c = C_finished"
    "terminal_at l = None"
  shows "wf_lc (closed c now l) \<and> retained (closed c now l) = []"
  using assms by (auto simp: closed_def wf_lc_def owns_preservation_def released_def)

lemma wf_lc_closed':
  assumes "wf_lc l"
  shows "wf_lc (closed c now l) \<and> retained (closed c now l) = []"
proof (cases "terminal_at l = None")
  case True
  with assms wf_lc_closed [where l = l and f = "finish_accepted l"] show ?thesis by (auto simp: wf_lc_def)
next
  case False
  with assms wf_lc_terminal [OF assms] show ?thesis by (simp add: closed_eq)
qed

lemma wf_lc_expired: "wf_lc l \<Longrightarrow> expired now l = Some l' \<Longrightarrow> wf_lc l'"
  by (auto simp: expired_def wf_lc_closed' wf_lc_released split: option.splits if_splits)

lemma expired_metadata: "expired now l = Some l' \<Longrightarrow> lc_metadata l' = lc_metadata l"
  by (auto simp: expired_def split: option.splits if_splits)

subsection \<open>The registry invariant\<close>

text \<open>
  \<open>reg_inv\<close>: the records are well formed and stored under their identifiers, a record that is
  still generating belongs to a generation, the learned history is bounded, and the references
  of the manager are exactly those of the records and of the loads in flight.
\<close>

definition holders :: "(string, lifecycle) odict \<Rightarrow> offload_key list multiset" where
  "holders d = mset (map (retained \<circ> snd) d)"

definition macct :: "registry \<Rightarrow> offload_key list multiset \<Rightarrow> bool" where
  "macct r hs =
     (case manager r of
        None \<Rightarrow> (\<forall>h \<in># hs. h = [])
      | Some m \<Rightarrow> accounted counted_inv block_refs m hs)"

definition rec_inv :: "registry \<Rightarrow> string \<Rightarrow> lifecycle \<Rightarrow> bool" where
  "rec_inv r i l \<longleftrightarrow>
     wf_lc l \<and> lifecycle_id (lc_metadata l) = i
     \<and> (terminal_at l = None \<and> completed_at l = None \<longrightarrow> has_key i (generations r))"

definition reg_inv :: "offload_key list multiset \<Rightarrow> registry \<Rightarrow> bool" where
  "reg_inv loads r \<longleftrightarrow>
     wf_od (records r) \<and> wf_od (history r) \<and> length (history r) \<le> history_limit
     \<and> (\<forall>i l. map_of (records r) i = Some l \<longrightarrow> rec_inv r i l)
     \<and> macct r (holders (records r) + loads)"

lemma delete_update_same [simp]: "AList.delete k (AList.update k v d) = AList.delete k d"
  by (induction d) auto

lemma holders_split:
  "wf_od d \<Longrightarrow> map_of d i = Some l \<Longrightarrow>
   holders d = add_mset (retained l) (holders (AList.delete i d))"
  using mset_delete_key [of d i l] by (simp add: holders_def)

lemma holders_update:
  "wf_od d \<Longrightarrow> holders (AList.update i l d) = add_mset (retained l) (holders (AList.delete i d))"
  using holders_split [of "AList.update i l d" i l] by simp

lemma reg_inv_focus:
  assumes "reg_inv loads r" "map_of (records r) i = Some l"
  shows "macct r (add_mset (retained l) (holders (AList.delete i (records r)) + loads))"
    and "rec_inv r i l"
  using assms by (auto simp: reg_inv_def holders_split)

lemma reg_inv_write:
  assumes "reg_inv loads r" "rec_inv r' i l'"
    and "records r' = records r" "\<And>j. j \<noteq> i \<Longrightarrow> has_key j (generations r') = has_key j (generations r)"
    and "wf_od (history r')" "length (history r') \<le> history_limit"
    and "macct r' (add_mset (retained l') (holders (AList.delete i (records r)) + loads))"
  shows "reg_inv loads (set_record i (l', r'))"
  using assms by (auto simp: reg_inv_def set_record_def holders_update rec_inv_def macct_def)

lemma reg_count_simps [simp]:
  "records (reg_count x r) = records r" "generations (reg_count x r) = generations r"
  "history (reg_count x r) = history r" "manager (reg_count x r) = manager r"
  "settings (reg_count x r) = settings r"
  by (simp_all add: reg_count_def)

lemma macct_cong: "manager r' = manager r \<Longrightarrow> macct r' hs = macct r hs"
  by (simp add: macct_def)

lemma reg_inv_count [simp]: "reg_inv loads (reg_count x r) = reg_inv loads r"
  by (simp add: reg_inv_def rec_inv_def macct_def)

lemma set_record_simps [simp]:
  "records (set_record i lr) = AList.update i (fst lr) (records (snd lr))"
  "generations (set_record i lr) = generations (snd lr)"
  "history (set_record i lr) = history (snd lr)" "manager (set_record i lr) = manager (snd lr)"
  "settings (set_record i lr) = settings (snd lr)" "metrics (set_record i lr) = metrics (snd lr)"
  by (simp_all add: set_record_def)

subsection \<open>Release, termination and expiry\<close>

lemma release_record_spec:
  assumes "macct r (add_mset (retained l) hs)"
  shows "\<exists>m. release_record l r = Inr (released l, r\<lparr>manager := m\<rparr>) \<and> macct (r\<lparr>manager := m\<rparr>) hs"
proof (cases "retained l = []")
  case True
  with assms show ?thesis
    by (intro exI [of _ "manager r"])
      (auto simp: release_record_def released_def macct_def split: option.splits)
next
  case False
  with assms obtain m where m: "manager r = Some m"
    "accounted counted_inv block_refs m (add_mset (retained l) hs)"
    by (auto simp: macct_def split: option.splits)
  from cpu_refs.drop_holder [OF m(2)] obtain m' where "release (retained l) m = Inr m'"
    "accounted counted_inv block_refs m' hs" by blast
  with m False show ?thesis
    by (intro exI [of _ "Some m'"]) (simp add: release_record_def released_def macct_def)
qed

lemma terminalize_spec:
  assumes "macct r (add_mset (retained l) hs)" "wf_lc l \<or> terminal_at l = None"
  shows "\<exists>r'. terminalize l c now r = Inr (closed c now l, r') \<and> macct r' hs
    \<and> records r' = records r \<and> generations r' = generations r \<and> history r' = history r
    \<and> settings r' = settings r"
proof (cases "terminal_at l = None")
  case True
  from release_record_spec [OF assms(1)] obtain m where
    "release_record l r = Inr (released l, r\<lparr>manager := m\<rparr>)" "macct (r\<lparr>manager := m\<rparr>) hs" by blast
  with True show ?thesis by (auto simp: terminalize_def closed_def macct_def)
next
  case False
  with assms have "retained l = []" using wf_lc_terminal by blast
  with False assms(1) show ?thesis
    by (auto simp: terminalize_def closed_def macct_def split: option.splits)
qed

text \<open>Two registries that differ only in the manager, the records and the counters.\<close>

definition same_frame :: "registry \<Rightarrow> registry \<Rightarrow> bool" where
  "same_frame r r' \<longleftrightarrow>
     settings r' = settings r \<and> generations r' = generations r \<and> history r' = history r"

lemma same_frame_refl [simp]: "same_frame r r"
  by (simp add: same_frame_def)

lemma same_frame_trans: "same_frame a b \<Longrightarrow> same_frame b c \<Longrightarrow> same_frame a c"
  by (simp add: same_frame_def)

lemma rec_inv_closed: "rec_inv r i l \<Longrightarrow> rec_inv r' i (closed c now l)"
  by (auto simp: rec_inv_def wf_lc_closed' dest: closed_simps(1) [THEN notE])

lemma reg_inv_closed:
  assumes "reg_inv loads r" "map_of (records r) i = Some l"
  shows "\<exists>r'. terminalize l c now r = Inr (closed c now l, r')
    \<and> reg_inv loads (set_record i (closed c now l, r'))
    \<and> records r' = records r \<and> same_frame r r'"
proof -
  note f = reg_inv_focus [OF assms]
  then have wf: "wf_lc l" by (simp add: rec_inv_def)
  from terminalize_spec [OF f(1), of c now] wf obtain r' where
    t: "terminalize l c now r = Inr (closed c now l, r')" and
    m: "macct r' (holders (AList.delete i (records r)) + loads)" and
    s: "records r' = records r" "generations r' = generations r" "history r' = history r"
      "settings r' = settings r" by blast
  have "reg_inv loads (set_record i (closed c now l, r'))"
    using assms(1) f(2) m s wf_lc_closed' [OF wf, of c now]
    by (intro reg_inv_write [OF assms(1)])
      (auto simp: rec_inv_closed reg_inv_def macct_def split: option.splits)
  with t s show ?thesis by (auto simp: same_frame_def)
qed

lemma reg_inv_released:
  assumes "reg_inv loads r" "map_of (records r) i = Some l"
  shows "\<exists>r'. release_record l r = Inr (released l, r')
    \<and> reg_inv loads (set_record i (released l, r'))
    \<and> records r' = records r \<and> same_frame r r'"
proof -
  note f = reg_inv_focus [OF assms]
  then have wf: "wf_lc l" by (simp add: rec_inv_def)
  from release_record_spec [OF f(1)] obtain m where
    t: "release_record l r = Inr (released l, r\<lparr>manager := m\<rparr>)" and
    m: "macct (r\<lparr>manager := m\<rparr>) (holders (AList.delete i (records r)) + loads)" by blast
  have "reg_inv loads (set_record i (released l, r\<lparr>manager := m\<rparr>))"
    using assms(1) f(2) m wf_lc_released [OF wf]
    by (intro reg_inv_write [OF assms(1)])
      (auto simp: rec_inv_def reg_inv_def macct_def split: option.splits)
  with t show ?thesis by (auto simp: same_frame_def)
qed

lemma reg_inv_delete:
  assumes "reg_inv loads r" "map_of (records r) i = Some l" "terminal_at l \<noteq> None"
  shows "reg_inv loads (r\<lparr>records := AList.delete i (records r)\<rparr>)"
proof -
  note f = reg_inv_focus [OF assms(1,2)]
  with assms(3) have "retained l = []" by (simp add: rec_inv_def wf_lc_terminal)
  with f(1) assms(1) show ?thesis
    by (auto simp: reg_inv_def macct_def rec_inv_def split: option.splits)
qed

lemma expire1_spec:
  assumes "reg_inv loads r" "map_of (records r) i = Some l"
  shows "\<exists>r'. expire1 now (i, l) r = Inr r' \<and> reg_inv loads r' \<and> same_frame r r'
    \<and> map_of (records r') = (map_of (records r))(i := expired now l)"
proof -
  have upd: "(map_of (records r))(i \<mapsto> l) = map_of (records r)" using assms(2) by auto
  have close: ?thesis if "terminal_at l = None"
    and "expire1 now (i, l) r = rbind (terminalize l C_expired now r) (\<lambda>lr. Inr (set_record i lr))"
    and "expired now l = Some (closed C_expired now l)"
    using reg_inv_closed [OF assms, of C_expired now] that by (auto simp: same_frame_def)
  show ?thesis
  proof (cases "terminal_at l")
    case (Some t)
    with assms reg_inv_delete [OF assms] upd show ?thesis
      by (auto simp: expire1_def expired_def same_frame_def)
  next
    case None
    show ?thesis
    proof (cases "started_at l")
      case None
      with \<open>terminal_at l = None\<close> assms close upd show ?thesis
        by (cases "completed_at l") (auto simp: expire1_def expired_def)
    next
      case (Some s)
      with \<open>terminal_at l = None\<close> assms close upd reg_inv_released [OF assms] show ?thesis
        by (cases "reached now (safety_deadline l)")
          (auto simp: expire1_def expired_def same_frame_def)
    qed
  qed
qed

lemma expire_loop:
  assumes "reg_inv loads r" "wf_od xs" "\<forall>i l. map_of xs i = Some l \<longrightarrow> map_of (records r) i = Some l"
  shows "\<exists>r'. rfold (expire1 now) xs r = Inr r' \<and> reg_inv loads r' \<and> same_frame r r'
    \<and> (\<forall>i. map_of (records r') i =
          (case map_of xs i of None \<Rightarrow> map_of (records r) i | Some l \<Rightarrow> expired now l))"
  using assms
proof (induction xs arbitrary: r)
  case Nil
  then show ?case by simp
next
  case (Cons x xs)
  obtain i l where x: "x = (i, l)" by force
  have i: "map_of (records r) i = Some l" "i \<notin> fst ` set xs" using Cons.prems(2,3) by (auto simp: x)
  from expire1_spec [OF Cons.prems(1) i(1)] obtain r1 where
    r1: "expire1 now (i, l) r = Inr r1" "reg_inv loads r1" "same_frame r r1"
      "map_of (records r1) = (map_of (records r))(i := expired now l)" by blast
  have "\<forall>j m. map_of xs j = Some m \<longrightarrow> map_of (records r1) j = Some m"
  proof (intro allI impI)
    fix j m assume j: "map_of xs j = Some m"
    with i(2) have "j \<noteq> i" by (metis map_of_eq_None_iff option.discI)
    with j Cons.prems(3) show "map_of (records r1) j = Some m" by (simp add: r1(4) x)
  qed
  with Cons.IH [OF r1(2)] Cons.prems(2) x obtain r' where
    r': "rfold (expire1 now) xs r1 = Inr r'" "reg_inv loads r'" "same_frame r1 r'"
      "\<forall>j. map_of (records r') j =
          (case map_of xs j of None \<Rightarrow> map_of (records r1) j | Some l \<Rightarrow> expired now l)"
    by auto
  have "map_of xs i = None" using i(2) by (simp add: map_of_eq_None_iff)
  with r1 r' x same_frame_trans [OF r1(3) r'(3)] show ?case
    by (auto split: option.split)
qed

text \<open>\<open>expire\<close> never raises, keeps the invariant and acts on every record as \<open>expired\<close>.\<close>

lemma expire_spec:
  assumes "reg_inv loads r"
  shows "\<exists>r'. expire now r = Inr r' \<and> reg_inv loads r' \<and> same_frame r r'
    \<and> (\<forall>i. map_of (records r') i = Option.bind (map_of (records r) i) (expired now))"
proof -
  have wf: "wf_od (records r)" using assms by (simp add: reg_inv_def)
  from expire_loop [OF assms wf, of now] obtain r' where
    "rfold (expire1 now) (records r) r = Inr r'" "reg_inv loads r'" "same_frame r r'"
    "\<forall>i. map_of (records r') i =
        (case map_of (records r) i of None \<Rightarrow> map_of (records r) i | Some l \<Rightarrow> expired now l)"
    by auto
  then show ?thesis by (auto simp: expire_def split: option.splits)
qed

subsection \<open>The operations keep the invariant\<close>

lemma reg_inv_fresh:
  assumes "reg_inv loads r" "\<not> has_key (lifecycle_id d) (records r)"
  shows "reg_inv loads (r\<lparr>generations := AList.update (lifecycle_id d) q (generations r),
    records := AList.update (lifecycle_id d) (new_lifecycle d) (records r)\<rparr>)"
proof -
  have "AList.delete (lifecycle_id d) (records r) = records r"
    using assms(2) by (simp add: has_key_def delete_absent)
  with assms(1) show ?thesis
    by (auto simp: reg_inv_def rec_inv_def has_key_def holders_update macct_def
        split: option.splits)
qed

lemma associate_spec:
  assumes "reg_inv loads r"
  shows "\<exists>r' e. associate q d c0 r = Inr (r', e) \<and> reg_inv loads r'
    \<and> (e = None \<longrightarrow> map_of (records r') (lifecycle_id d) = Some (new_lifecycle d)
        \<and> map_of (generations r') (lifecycle_id d) = Some q)"
proof -
  from expire_spec [OF assms, of c0] obtain r1 where
    "expire c0 r = Inr r1" "reg_inv loads r1" by blast
  with reg_inv_fresh [of loads r1 d q] show ?thesis by (auto simp: associate_def Let_def)
qed

lemma reg_inv_other_generation:
  assumes "reg_inv loads r"
    and "\<And>l. map_of (records r) i = Some l \<Longrightarrow> terminal_at l = None \<Longrightarrow> completed_at l \<noteq> None"
  shows "reg_inv loads (r\<lparr>generations := AList.delete i (generations r)\<rparr>)"
proof -
  have "rec_inv (r\<lparr>generations := AList.delete i (generations r)\<rparr>) j l"
    if "map_of (records r) j = Some l" for j l
    using assms that by (cases "j = i") (fastforce simp: reg_inv_def rec_inv_def has_key_def)+
  with assms(1) show ?thesis by (simp add: reg_inv_def macct_def)
qed

lemma reg_inv_modify:
  assumes "reg_inv loads r" "map_of (records r) i = Some l"
    and "wf_lc l'" "lc_metadata l' = lc_metadata l" "retained l' = retained l"
    and "terminal_at l' = None \<and> completed_at l' = None \<longrightarrow> has_key i (generations r')"
    and "records r' = records r" "\<And>j. j \<noteq> i \<Longrightarrow> has_key j (generations r') = has_key j (generations r)"
    and "wf_od (history r')" "length (history r') \<le> history_limit" "manager r' = manager r"
  shows "reg_inv loads (set_record i (l', r'))"
  using assms reg_inv_focus [OF assms(1,2)]
  by (intro reg_inv_write [OF assms(1)]) (auto simp: rec_inv_def macct_def)

lemma wf_lc_completed:
  "wf_lc l \<Longrightarrow> terminal_at l = None \<Longrightarrow>
   wf_lc (l\<lparr>completed_at := Some now, lc_snapshot := snap, pending_evaluation := lc_start l \<noteq> None\<rparr>)"
  by (auto simp: wf_lc_def owns_preservation_def)

text \<open>The record after \<open>generation_finished\<close>.\<close>

definition generated ::
  "bool \<Rightarrow> terminal_cause \<Rightarrow> prefix_snapshot option \<Rightarrow> pyfloat \<Rightarrow> lifecycle \<Rightarrow> lifecycle" where
  "generated enabled cause snap now l =
     (if terminal_at l \<noteq> None then l
      else if cause \<noteq> C_completed \<or> \<not> enabled then closed cause now l
      else l\<lparr>completed_at := Some now, lc_snapshot := snap, pending_evaluation := lc_start l \<noteq> None\<rparr>)"

lemma generation_finished_spec:
  assumes "reg_inv loads r"
  shows "\<exists>r'. generation_finished i cause snap c0 now r = Inr r' \<and> reg_inv loads r'
    \<and> map_of (generations r') i = None
    \<and> (\<forall>j. map_of (records r') j =
          (if j = i then
             map_option (generated (offload_enabled (settings r)) cause snap now)
               (Option.bind (map_of (records r) j) (expired c0))
           else Option.bind (map_of (records r) j) (expired c0)))"
proof -
  from expire_spec [OF assms, of c0] obtain r1 where
    e: "expire c0 r = Inr r1" and inv: "reg_inv loads r1" and s: "settings r1 = settings r"
    and recs: "\<And>j. map_of (records r1) j = Option.bind (map_of (records r) j) (expired c0)"
    by (auto simp: same_frame_def)
  let ?r = "r1\<lparr>generations := AList.delete i (generations r1)\<rparr>"
  have "\<exists>r'. generation_finished i cause snap c0 now r = Inr r' \<and> reg_inv loads r'
    \<and> map_of (generations r') i = None
    \<and> map_of (records r') = (map_of (records r1))(i :=
          map_option (generated (offload_enabled (settings r)) cause snap now) (map_of (records r1) i))"
  proof (cases "map_of (records r1) i")
    case None
    with e reg_inv_other_generation [OF inv, of i] show ?thesis
      by (auto simp: generation_finished_def)
  next
    case (Some l)
    then have wf: "wf_lc l" using reg_inv_focus(2) [OF inv] by (simp add: rec_inv_def)
    consider (dead) "terminal_at l \<noteq> None"
      | (stop) "terminal_at l = None" "cause \<noteq> C_completed \<or> \<not> offload_enabled (settings r)"
      | (go) "terminal_at l = None" "cause = C_completed" "offload_enabled (settings r)" by blast
    then show ?thesis
    proof cases
      case dead
      with e Some s reg_inv_other_generation [OF inv, of i] show ?thesis
        by (auto simp: generation_finished_def generated_def)
    next
      case stop
      from reg_inv_focus [OF inv Some] terminalize_spec [of ?r l _ cause now] wf obtain r' where
        t: "terminalize l cause now ?r = Inr (closed cause now l, r')"
          "macct r' (holders (AList.delete i (records r1)) + loads)" "records r' = records r1"
          "generations r' = AList.delete i (generations r1)" "history r' = history r1"
        by (fastforce simp: macct_def)
      have "reg_inv loads (set_record i (closed cause now l, r'))"
        using inv t reg_inv_focus(2) [OF inv Some] wf_lc_closed' [OF wf, of cause now]
        by (intro reg_inv_write [OF inv])
          (auto simp: rec_inv_closed reg_inv_def macct_def has_key_def split: option.splits)
      with stop e Some s t show ?thesis by (auto simp: generation_finished_def generated_def)
    next
      case go
      have "reg_inv loads (set_record i
         (l\<lparr>completed_at := Some now, lc_snapshot := snap, pending_evaluation := lc_start l \<noteq> None\<rparr>,
          reg_count M_COMPLETED ?r))"
        using inv wf_lc_completed [OF wf go(1)]
        by (intro reg_inv_modify [OF inv Some]) (auto simp: reg_inv_def has_key_def)
      with go e Some s show ?thesis by (auto simp: generation_finished_def generated_def)
    qed
  qed
  then show ?thesis by (auto simp: recs)
qed

subsection \<open>Events keep the invariant\<close>

definition hist_ok :: "registry \<Rightarrow> bool" where
  "hist_ok r \<longleftrightarrow> wf_od (history r) \<and> length (history r) \<le> history_limit"

lemma predict_spec:
  assumes "predict l event r = (d, r')" "hist_ok r"
  shows "\<exists>h. r' = r\<lparr>history := h\<rparr> \<and> hist_ok r' \<and> map_of h = map_of (history r)"
proof -
  have "r' = r\<lparr>history := history r'\<rparr> \<and> hist_ok r' \<and> map_of (history r') = map_of (history r)"
    using assms by (auto simp: predict_def hist_ok_def Let_def split: option.splits if_splits)
  then show ?thesis by blast
qed

lemma wf_od_tl: "wf_od d \<Longrightarrow> wf_od (tl d)"
  by (cases d) auto

lemma learn_spec:
  assumes "lc_start l = Some ev" "started_at l = Some s" "hist_ok r"
  shows "\<exists>a h. learn l now r = Inr (l\<lparr>anonymous_sample := a\<rparr>, r\<lparr>history := h\<rparr>)
    \<and> hist_ok (r\<lparr>history := h\<rparr>)"
proof -
  consider (anon) "lc_history_key l (le_kind ev) = None"
    | (old) k p where "lc_history_key l (le_kind ev) = Some k" "map_of (history r) k = Some p"
    | (new) k where "lc_history_key l (le_kind ev) = Some k" "map_of (history r) k = None" by fastforce
  then show ?thesis
  proof cases
    case anon
    with assms show ?thesis
      by (intro exI [of _ "Some (max 0 (now - s))"] exI [of _ "history r"]) (simp add: learn_def)
  next
    case (old k p)
    let ?h = "AList.update k (ewma_alpha (settings r) * max 0 (now - s)
      + (1 - ewma_alpha (settings r)) * p) (AList.delete k (history r))"
    have "Suc (length (AList.delete k (history r))) = length (history r)"
      using assms(3) old(2) by (simp add: hist_ok_def length_delete_present)
    then have "length ?h \<le> length (history r)"
      using length_update_le [of k "ewma_alpha (settings r) * max 0 (now - s)
        + (1 - ewma_alpha (settings r)) * p" "AList.delete k (history r)"] by simp
    then have "length ?h \<le> history_limit" using assms(3) by (simp add: hist_ok_def)
    with assms old show ?thesis
      by (intro exI [of _ "anonymous_sample l"] exI [of _ ?h]) (simp add: learn_def hist_ok_def Let_def)
  next
    case (new k)
    let ?d = "if length (history r) \<ge> history_limit then tl (history r) else history r"
    have "length (AList.update k (max 0 (now - s)) ?d) \<le> history_limit" "wf_od ?d"
      using assms(3) length_update_le [of k "max 0 (now - s)" ?d]
      by (auto simp: hist_ok_def history_limit_def wf_od_tl)
    with assms new show ?thesis
      by (intro exI [of _ "anonymous_sample l"] exI [of _ "AList.update k (max 0 (now - s)) ?d"])
        (simp add: learn_def hist_ok_def Let_def)
  qed
qed

lemma set_h2d_estimate_spec:
  assumes "started_at l = Some s" "macct r (add_mset (retained l) hs)"
    and d_def: "d = s + predicted_duration l - max (release_lead_s (settings r)) (125 / 100 * seconds)"
  shows "\<exists>l' m. set_h2d_estimate l seconds t r = Inr (l', r\<lparr>manager := m\<rparr>)
    \<and> macct (r\<lparr>manager := m\<rparr>) (add_mset (retained l') hs)
    \<and> l' = (if t \<ge> d then released (l\<lparr>release_deadline := At d\<rparr>) else l\<lparr>release_deadline := At d\<rparr>)"
proof (cases "t \<ge> d")
  case True
  have "macct r (add_mset (retained (l\<lparr>release_deadline := At d\<rparr>)) hs)" using assms(2) by simp
  from release_record_spec [OF this] obtain m where
    "release_record (l\<lparr>release_deadline := At d\<rparr>) r =
       Inr (released (l\<lparr>release_deadline := At d\<rparr>), r\<lparr>manager := m\<rparr>)" "macct (r\<lparr>manager := m\<rparr>) hs"
    by blast
  moreover have "macct q (add_mset [] hs) = macct q hs" for q
    by (simp add: macct_def split: option.split)
  ultimately show ?thesis using True assms(1) unfolding d_def
    by (intro exI conjI [rotated]) (auto simp: set_h2d_estimate_def Let_def)
next
  case False
  with assms(1,2) show ?thesis unfolding d_def
    by (intro exI [of _ "l\<lparr>release_deadline := At d\<rparr>"] exI [of _ "manager r"])
      (auto simp: set_h2d_estimate_def Let_def d_def)
qed

lemma set_h2d_estimate_frame:
  assumes "started_at l = Some s" "macct r (add_mset (retained l) hs)"
  obtains l' m q where "set_h2d_estimate l seconds t r = Inr (l', r\<lparr>manager := m\<rparr>)"
    "macct (r\<lparr>manager := m\<rparr>) (add_mset (retained l') hs)"
    "l' = l\<lparr>release_deadline := q\<rparr> \<or> l' = released (l\<lparr>release_deadline := q\<rparr>)"
  using set_h2d_estimate_spec [OF assms refl, of seconds t] by (metis (no_types))

lemma start_stall_spec:
  assumes "reg_inv loads r" "map_of (records r) i = Some l"
    and "terminal_at l = None" "lc_start l = None"
  shows "\<exists>l' r'. start_stall event l now c2 r = Inr (l', r')
    \<and> reg_inv loads (set_record i (l', r'))
    \<and> lc_start l' = Some event \<and> started_at l' = Some now \<and> terminal_at l' = None
    \<and> terminal_cause l' = None"
proof -
  note f = reg_inv_focus [OF assms(1,2)]
  have wf: "wf_lc l" using f(2) by (simp add: rec_inv_def)
  then have ret: "retained l = []" "pending_retention l = []" "terminal_cause l = None"
      "\<not> finish_accepted l"
    using assms(3,4) by (auto simp: wf_lc_def owns_preservation_def)
  let ?l1 = "l\<lparr>lc_start := Some event, started_at := Some now\<rparr>"
  obtain d r1 where p: "predict ?l1 event r = (d, r1)" by force
  have "hist_ok r" using assms(1) by (simp add: reg_inv_def hist_ok_def)
  from predict_spec [OF p this] obtain h where r1: "r1 = r\<lparr>history := h\<rparr>" "hist_ok r1" by blast
  let ?l2 = "?l1\<lparr>predicted_duration := d, safety_deadline := At (now + min 3600 (max 60 (4 * d)))\<rparr>"
  have mm: "macct r1 (add_mset (retained ?l2) (holders (AList.delete i (records r)) + loads))"
    using f(1) r1(1) by (simp add: macct_def)
  have st: "started_at ?l2 = Some now" by simp
  obtain l3 m q where
    h: "set_h2d_estimate ?l2 0 c2 r1 = Inr (l3, r1\<lparr>manager := m\<rparr>)"
      "macct (r1\<lparr>manager := m\<rparr>) (add_mset (retained l3) (holders (AList.delete i (records r)) + loads))"
    and l3: "l3 = ?l2\<lparr>release_deadline := q\<rparr> \<or> l3 = released (?l2\<lparr>release_deadline := q\<rparr>)"
    by (rule set_h2d_estimate_frame [OF st mm])
  let ?l4 = "l3\<lparr>pending_evaluation := completed_at l3 \<noteq> None\<rparr>"
  have wf4: "wf_lc ?l4" using l3 wf ret assms(3)
    by (auto simp: wf_lc_def owns_preservation_def min_def max_def released_def)
  have l4: "lc_start ?l4 = Some event" "started_at ?l4 = Some now" "terminal_at ?l4 = None"
      "terminal_cause ?l4 = None" "lc_metadata ?l4 = lc_metadata l" "completed_at ?l4 = completed_at l"
      "retained ?l4 = retained l3"
    using l3 assms(3) ret by auto
  have s: "start_stall event l now c2 r = Inr (?l4, reg_count M_STARTED (r1\<lparr>manager := m\<rparr>))"
    using p h by (simp add: start_stall_def)
  have "reg_inv loads (set_record i (?l4, reg_count M_STARTED (r1\<lparr>manager := m\<rparr>)))"
    using wf4 l4 f(2) h(2) r1 assms(3)
    by (intro reg_inv_write [OF assms(1)])
      (auto simp: rec_inv_def macct_def hist_ok_def split: option.splits)
  with s l4 show ?thesis by blast
qed

lemma predict_frame:
  "predict l event r = (d, r') \<Longrightarrow> records r' = records r \<and> manager r' = manager r"
  by (auto simp: predict_def Let_def split: option.splits if_splits)

lemma release_record_frame:
  "release_record l r = Inr (l', r') \<Longrightarrow>
   records r' = records r \<and> (manager r' = None) = (manager r = None)"
  by (auto simp: release_record_def Let_def rbind_eq_Inr split: if_splits option.splits)

lemma start_stall_frame:
  "start_stall event l now c2 r = Inr (l', r') \<Longrightarrow>
   records r' = records r \<and> (manager r' = None) = (manager r = None)"
  by (auto simp: start_stall_def set_h2d_estimate_def Let_def rbind_eq_Inr
      dest!: release_record_frame predict_frame
      split: prod.splits option.splits if_splits)

lemma finish_stall_spec:
  assumes "reg_inv loads r" "map_of (records r) i = Some l"
    and "terminal_at l = None" "lc_start l \<noteq> None"
  shows "\<exists>l' r'. finish_stall l now r = Inr (l', r') \<and> reg_inv loads (set_record i (l', r'))
    \<and> lc_start l' = lc_start l \<and> terminal_at l' = Some now \<and> terminal_cause l' = Some C_finished
    \<and> finish_accepted l' \<and> retained l' = []"
proof -
  note f = reg_inv_focus [OF assms(1,2)]
  have wf: "wf_lc l" using f(2) by (simp add: rec_inv_def)
  with assms(4) obtain ev s where st: "lc_start l = Some ev" "started_at l = Some s"
    by (auto simp: wf_lc_def)
  have "hist_ok r" using assms(1) by (simp add: reg_inv_def hist_ok_def)
  from learn_spec [OF st this, of now] obtain a h where
    le: "learn l now r = Inr (l\<lparr>anonymous_sample := a\<rparr>, r\<lparr>history := h\<rparr>)" "hist_ok (r\<lparr>history := h\<rparr>)"
    by blast
  let ?l = "l\<lparr>anonymous_sample := a, finish_accepted := True\<rparr>"
  have "macct (r\<lparr>history := h\<rparr>) (add_mset (retained ?l) (holders (AList.delete i (records r)) + loads))"
    using f(1) by (simp add: macct_def)
  from terminalize_spec [OF this, of C_finished now] assms(3) obtain r' where
    t: "terminalize ?l C_finished now (r\<lparr>history := h\<rparr>) = Inr (closed C_finished now ?l, r')"
      "macct r' (holders (AList.delete i (records r)) + loads)"
      "records r' = records r" "generations r' = generations r" "history r' = h"
    by auto
  have wf0: "wf_lc (?l\<lparr>finish_accepted := False\<rparr>)" using wf assms(3)
    by (auto simp: wf_lc_def owns_preservation_def)
  have c: "wf_lc (closed C_finished now ?l)" "retained (closed C_finished now ?l) = []"
    "terminal_at (closed C_finished now ?l) = Some now"
    "terminal_cause (closed C_finished now ?l) = Some C_finished"
    using wf_lc_closed [OF wf0, of C_finished now] assms(3) by (simp_all add: closed_def)
  have "reg_inv loads (set_record i (closed C_finished now ?l, r'))"
    using c t f(2) le(2)
    by (intro reg_inv_write [OF assms(1)])
      (auto simp: rec_inv_def macct_def hist_ok_def split: option.splits)
  with le(1) t c show ?thesis by (simp add: finish_stall_def)
qed

lemma apply_event_spec:
  assumes "reg_inv loads r"
  shows "\<exists>a r'. apply_event event c0 now c2 r = Inr (a, r') \<and> reg_inv loads r'"
proof -
  from expire_spec [OF assms, of c0] obtain r1 where e: "expire c0 r = Inr r1" "reg_inv loads r1"
    by blast
  show ?thesis
  proof (cases "map_of (records r1) (le_lifecycle_id event)")
    case None
    with e show ?thesis by (simp add: apply_event_def)
  next
    case (Some l)
    show ?thesis
    proof (cases "fst (classify event l) = Applied")
      case True
      then have l: "terminal_at l = None" "lc_start l = None \<longleftrightarrow> le_event event = Stall_started"
        by (auto simp: classify_def split: if_splits)
      from True obtain st where c: "classify event l = (Applied, st)" by (metis fst_conv surj_pair)
      from l e start_stall_spec [OF e(2) Some l(1), of event now c2]
        finish_stall_spec [OF e(2) Some l(1), of now] Some c
      show ?thesis by (cases "le_event event = Stall_started") (fastforce simp: apply_event_def Let_def)+
    next
      case False
      with e Some show ?thesis
        by (auto simp: apply_event_def Let_def split: prod.split disposition.splits option.splits)
    qed
  qed
qed

subsection \<open>Retention and reset keep the invariant\<close>

lemma reg_inv_set_h2d:
  assumes "reg_inv loads r" "map_of (records r) i = Some l" "started_at l = Some s"
  shows "\<exists>l' r'. set_h2d_estimate l seconds t r = Inr (l', r')
    \<and> reg_inv loads (set_record i (l', r'))"
proof -
  note f = reg_inv_focus [OF assms(1,2)]
  have wf: "wf_lc l" using f(2) by (simp add: rec_inv_def)
  obtain l' m q where
    h: "set_h2d_estimate l seconds t r = Inr (l', r\<lparr>manager := m\<rparr>)"
      "macct (r\<lparr>manager := m\<rparr>) (add_mset (retained l') (holders (AList.delete i (records r)) + loads))"
    and l': "l' = l\<lparr>release_deadline := q\<rparr> \<or> l' = released (l\<lparr>release_deadline := q\<rparr>)"
    by (rule set_h2d_estimate_frame [OF assms(3) f(1)])
  have "wf_lc l'" using l' wf wf_lc_release_deadline wf_lc_released by blast
  moreover have "lc_metadata l' = lc_metadata l" "terminal_at l' = terminal_at l"
    "completed_at l' = completed_at l" using l' by auto
  ultimately have "reg_inv loads (set_record i (l', r\<lparr>manager := m\<rparr>))"
    using h(2) f(2) assms(1)
    by (intro reg_inv_write [OF assms(1)]) (auto simp: rec_inv_def reg_inv_def)
  with h(1) show ?thesis by blast
qed

lemma terminalize_manager:
  "terminalize l c now r = Inr (l', r') \<Longrightarrow> (manager r' = None) = (manager r = None)"
  by (auto simp: terminalize_def rbind_eq_Inr dest!: release_record_frame split: if_splits)

lemma expire1_manager:
  "expire1 now il r = Inr r' \<Longrightarrow> (manager r' = None) = (manager r = None)"
  by (auto simp: expire1_def rbind_eq_Inr
      dest!: release_record_frame terminalize_manager split: prod.splits option.splits if_splits)

lemma expire_manager: "expire now r = Inr r' \<Longrightarrow> (manager r' = None) = (manager r = None)"
  unfolding expire_def
  by (erule rfold_invariant [where P = "\<lambda>x. (manager x = None) = (manager r = None)"])
    (auto dest: expire1_manager)

lemma wf_od_length: "wf_od d \<Longrightarrow> length d = card (dom (map_of d))"
  by (metis distinct_card dom_map_of_conv_image_fst length_map list.set_map wf_od_def)

lemma expire_length:
  assumes "reg_inv loads r" "expire now r = Inr r'"
  shows "length (records r') \<le> length (records r)"
proof -
  from expire_spec [OF assms(1), of now] assms(2) have inv: "reg_inv loads r'"
    and r': "\<And>i. map_of (records r') i = Option.bind (map_of (records r) i) (expired now)" by auto
  have "dom (map_of (records r')) \<subseteq> dom (map_of (records r))"
    by (auto simp: r' bind_eq_Some_conv)
  then have "card (dom (map_of (records r'))) \<le> card (dom (map_of (records r)))"
    by (simp add: card_mono finite_dom_map_of)
  with inv assms(1) show ?thesis by (simp add: reg_inv_def wf_od_length)
qed

lemma retain_ready_spec:
  assumes "reg_inv loads r" "manager r \<noteq> None" "length (records r) + size loads < 2 ^ 31 - 2"
    and "expire c0 r = Inr r1"
  shows "\<exists>taken r'. retain_ready i keys c0 r = Inr (taken, r') \<and> reg_inv loads r'
    \<and> (\<forall>l. map_of (records r1) i = Some l \<and> owns_preservation l \<longrightarrow>
          map_of (records r') i = Some (l\<lparr>retained := retained l @ taken\<rparr>)
          \<and> set taken = {k \<in> set keys - set (retained l). loadable (the (manager r1)) k})"
proof -
  from expire_spec [OF assms(1), of c0] assms(4) have inv: "reg_inv loads r1" by simp
  show ?thesis
  proof (cases "\<exists>l. map_of (records r1) i = Some l \<and> owns_preservation l")
    case False
    with inv assms(4) show ?thesis by (auto simp: retain_ready_def split: option.split)
  next
    case True
    then obtain l where l: "map_of (records r1) i = Some l" "owns_preservation l" by blast
    note f = reg_inv_focus [OF inv l(1)]
    obtain m where m: "manager r1 = Some m" using expire_manager [OF assms(4)] assms(2) by auto
    let ?ks = "filter (\<lambda>k. k \<notin> set (retained l)) keys"
    let ?hs = "holders (AList.delete i (records r1)) + loads"
    obtain taken m' where t: "retain ?ks m = (taken, m')" by force
    have acc: "accounted counted_inv block_refs m (add_mset (retained l) ?hs)"
      using f(1) m by (simp add: macct_def)
    have "size ?hs < 2 ^ 31 - 2"
      using expire_length [OF assms(1,4)] assms(3) length_delete_le [of i "records r1"]
      by (simp add: holders_def)
    with cpu_refs.extend_holder [OF acc t] have
      acc': "accounted counted_inv block_refs m' (add_mset (retained l @ taken) ?hs)" by auto
    have wf: "wf_lc (l\<lparr>retained := retained l @ taken\<rparr>)"
      using f(2) l(2) by (simp add: rec_inv_def wf_lc_def owns_preservation_def)
    have "reg_inv loads (set_record i (l\<lparr>retained := retained l @ taken\<rparr>, r1\<lparr>manager := Some m'\<rparr>))"
      using wf f(2) acc' inv
      by (intro reg_inv_write [OF inv]) (auto simp: rec_inv_def reg_inv_def macct_def)
    moreover have "mgr_inv m" using acc by (simp add: accounted_def counted_inv_def)
    note retain_spec [OF this t]
    ultimately show ?thesis using l m t assms(4) by (auto simp: retain_ready_def)
  qed
qed

lemma macct_empty:
  assumes "\<forall>h \<in># hs. h = []"
  shows "macct r hs = macct r {#}"
proof -
  have "filter_mset (\<lambda>h. k \<in> set h) hs = filter_mset (\<lambda>h. False) hs" for k
    by (rule filter_mset_cong [OF refl]) (use assms in auto)
  with assms show ?thesis by (auto simp: macct_def accounted_def split: option.splits)
qed

lemma wf_lc_drop_retained: "wf_lc l \<Longrightarrow> wf_lc (l\<lparr>retained := []\<rparr>)"
  by (auto simp: wf_lc_def owns_preservation_def)

definition reset_record :: "pyfloat \<Rightarrow> lifecycle \<Rightarrow> lifecycle" where
  "reset_record now l = closed C_reset now (l\<lparr>retained := []\<rparr>)"

lemma reset1_spec:
  assumes "macct r {#}" "wf_lc l"
  shows "\<exists>r'. reset1 now (i, l) r = Inr r' \<and> macct r' {#} \<and> same_frame r r'
    \<and> records r' = AList.update i (reset_record now l) (records r)"
proof -
  have "macct r (add_mset (retained (l\<lparr>retained := []\<rparr>)) {#})" using assms(1) macct_empty [of "{#[]#}" r] by simp
  from terminalize_spec [OF this, of C_reset now] wf_lc_drop_retained [OF assms(2)] obtain r' where
    "terminalize (l\<lparr>retained := []\<rparr>) C_reset now r = Inr (reset_record now l, r')" "macct r' {#}"
    "records r' = records r" "same_frame r r'"
    unfolding reset_record_def same_frame_def by blast
  then show ?thesis by (simp add: reset1_def same_frame_def macct_def)
qed

lemma reset_loop:
  assumes "macct r {#}" "wf_od xs" "wf_od (records r)" "\<forall>i l. map_of xs i = Some l \<longrightarrow> wf_lc l"
  shows "\<exists>r'. rfold (reset1 now) xs r = Inr r' \<and> macct r' {#} \<and> same_frame r r' \<and> wf_od (records r')
    \<and> (\<forall>i. map_of (records r') i =
          (case map_of xs i of None \<Rightarrow> map_of (records r) i | Some l \<Rightarrow> Some (reset_record now l)))"
  using assms
proof (induction xs arbitrary: r)
  case Nil
  then show ?case by simp
next
  case (Cons x xs)
  obtain i l where x: "x = (i, l)" by force
  have l: "wf_lc l" using Cons.prems(4) [rule_format, of i l] by (simp add: x)
  from reset1_spec [OF Cons.prems(1) l, of now i] obtain r1 where
    r1: "reset1 now (i, l) r = Inr r1" "macct r1 {#}" "same_frame r r1"
      "records r1 = AList.update i (reset_record now l) (records r)" by blast
  have i: "map_of xs i = None" using Cons.prems(2) by (simp add: x map_of_eq_None_iff)
  have "map_of (x # xs) j = Some m" if "map_of xs j = Some m" for j m
    using that i by (auto simp: x)
  then have "\<forall>j m. map_of xs j = Some m \<longrightarrow> wf_lc m" using Cons.prems(4) by blast
  with Cons.IH [OF r1(2)] Cons.prems(2,3) r1(4) x obtain r' where
    r': "rfold (reset1 now) xs r1 = Inr r'" "macct r' {#}" "same_frame r1 r'" "wf_od (records r')"
      "\<forall>j. map_of (records r') j =
          (case map_of xs j of None \<Rightarrow> map_of (records r1) j | Some l \<Rightarrow> Some (reset_record now l))"
    by auto
  with r1 i x same_frame_trans [OF r1(3) r'(3)] show ?case by (auto split: option.split)
qed

text \<open>A native reset clears the manager before the registry is told.\<close>

lemma external_reset_spec:
  assumes "reg_inv loads r"
  shows "\<exists>r'. external_reset_succeeded now (r\<lparr>manager := map_option reset_cache (manager r)\<rparr>) = Inr r'
    \<and> reg_inv {#} r'
    \<and> (\<forall>i. map_of (records r') i = map_option (reset_record now) (map_of (records r) i))"
proof -
  let ?r = "r\<lparr>manager := map_option reset_cache (manager r)\<rparr>"
  have inv: "wf_od (records r)" "\<And>i l. map_of (records r) i = Some l \<Longrightarrow> rec_inv r i l"
    "macct r (holders (records r) + loads)" "hist_ok r"
    using assms by (auto simp: reg_inv_def hist_ok_def)
  have "macct ?r {#}" using inv(3) accounted_reset by (auto simp: macct_def split: option.splits)
  moreover have "\<forall>i l. map_of (records r) i = Some l \<longrightarrow> wf_lc l"
    using inv(2) by (simp add: rec_inv_def)
  ultimately obtain r' where
    r': "rfold (reset1 now) (records r) ?r = Inr r'" "macct r' {#}" "same_frame ?r r'"
      "wf_od (records r')" and
    upd: "\<And>i. map_of (records r') i = (case map_of (records r) i of
        None \<Rightarrow> map_of (records ?r) i | Some l \<Rightarrow> Some (reset_record now l))"
    using reset_loop [of ?r "records r" now] inv(1) by auto
  have map': "map_of (records r') i = map_option (reset_record now) (map_of (records r) i)" for i
    using upd [of i] by (simp split: option.splits)
  have wf: "wf_lc (reset_record now l) \<and> retained (reset_record now l) = []" if "wf_lc l" for l
    using wf_lc_closed' [OF wf_lc_drop_retained [OF that]] by (simp add: reset_record_def)
  have recs: "rec_inv r' i l \<and> retained l = []" if "map_of (records r') i = Some l" for i l
    using that inv(2) wf by (auto simp: map' rec_inv_def reset_record_def)
  have "h = []" if "h \<in># holders (records r')" for h
  proof -
    from that obtain i l where "(i, l) \<in> set (records r')" "h = retained l" by (auto simp: holders_def)
    with r'(4) recs show ?thesis by (simp add: wf_od_map_of_iff)
  qed
  with r'(2) macct_empty have "macct r' (holders (records r'))" by blast
  with r' recs inv(4) have "reg_inv {#} r'" by (auto simp: reg_inv_def same_frame_def hist_ok_def)
  with r'(1) map' show ?thesis by (simp add: external_reset_succeeded_def)
qed

lemma invalidate_spec: "reg_inv loads r \<Longrightarrow> reg_inv loads (invalidate_snapshots r)"
proof -
  assume inv: "reg_inv loads r"
  let ?f = "\<lambda>l::lifecycle. l\<lparr>lc_snapshot := None, pending_evaluation := False\<rparr>"
  have m: "map_of (records (invalidate_snapshots r)) i = map_option ?f (map_of (records r) i)" for i
    by (simp add: invalidate_snapshots_def map_of_map)
  have "wf_lc l \<Longrightarrow> wf_lc (?f l)" for l by (auto simp: wf_lc_def owns_preservation_def)
  with inv m show ?thesis
    by (auto simp: reg_inv_def rec_inv_def invalidate_snapshots_def macct_def holders_def wf_od_def
        comp_def case_prod_beta split: option.splits)
qed

end
