(* ===== verification/Lifecycle_Machine.thy ===== *)
theory Lifecycle_Machine
  imports Lifecycle
begin

section \<open>The registry as a state machine\<close>

text \<open>
  The interleavings that the scheduler produces: registry operations, the updates of a record by
  the offloading scheduler, and the manager operations of stores and loads on behalf of other
  requests. The second component of a state lists the loads in flight, each with its keys. The
  guards on the number of records and loads exclude the overflow of a 32-bit reference count.
\<close>

type_synonym reg_state = "registry \<times> offload_key list multiset"

definition few_holders :: "registry \<Rightarrow> offload_key list multiset \<Rightarrow> bool" where
  "few_holders r loads \<longleftrightarrow> length (records r) + size loads < 2 ^ 31 - 2"

inductive reg_step :: "reg_state \<Rightarrow> reg_state \<Rightarrow> bool" where
  rs_associate: "associate q d c0 r = Inr (r', e) \<Longrightarrow> reg_step (r, L) (r', L)"
| rs_generation:
    "generation_finished i c snap c0 now r = Inr r' \<Longrightarrow> reg_step (r, L) (r', L)"
| rs_event: "apply_event ev c0 now c2 r = Inr (a, r') \<Longrightarrow> reg_step (r, L) (r', L)"
| rs_expire: "expire now r = Inr r' \<Longrightarrow> reg_step (r, L) (r', L)"
| rs_retain:
    "manager r \<noteq> None \<Longrightarrow> few_holders r L \<Longrightarrow> retain_ready i ks c0 r = Inr (taken, r')
     \<Longrightarrow> reg_step (r, L) (r', L)"
| rs_h2d:
    "map_of (records r) i = Some l \<Longrightarrow> set_h2d_estimate l x t r = Inr lr
     \<Longrightarrow> reg_step (r, L) (set_record i lr, L)"
| rs_invalidate: "reg_step (r, L) (invalidate_snapshots r, L)"
| rs_pending:
    "map_of (records r) i = Some l \<Longrightarrow> owns_preservation l
     \<Longrightarrow> reg_step (r, L) (set_record i (l\<lparr>pending_retention := ks\<rparr>, r), L)"
| rs_evaluated:
    "map_of (records r) i = Some l
     \<Longrightarrow> reg_step (r, L) (set_record i (l\<lparr>pending_evaluation := False, backoff_signature := b,
           next_evaluation_step := n, last_store_step := s\<rparr>, r), L)"
| rs_store:
    "manager r = Some m \<Longrightarrow> distinct ks \<Longrightarrow> prepare_store ks m = Inr (out, m')
     \<Longrightarrow> reg_step (r, L) (r\<lparr>manager := Some m'\<rparr>, L)"
| rs_stored:
    "manager r = Some m \<Longrightarrow> complete_store ks ok m = Inr m'
     \<Longrightarrow> reg_step (r, L) (r\<lparr>manager := Some m'\<rparr>, L)"
| rs_load:
    "manager r = Some m \<Longrightarrow> distinct ks \<Longrightarrow> few_holders r L \<Longrightarrow> prepare_load ks m = Inr (ids, m')
     \<Longrightarrow> reg_step (r, L) (r\<lparr>manager := Some m'\<rparr>, add_mset ks L)"
| rs_loaded:
    "manager r = Some m \<Longrightarrow> ks \<in># L \<Longrightarrow> complete_load ks m = Inr m'
     \<Longrightarrow> reg_step (r, L) (r\<lparr>manager := Some m'\<rparr>, L - {#ks#})"
| rs_lookup:
    "manager r = Some m \<Longrightarrow> lookup k m = Inr (b, m')
     \<Longrightarrow> reg_step (r, L) (r\<lparr>manager := Some m'\<rparr>, L)"
| rs_touch: "manager r = Some m \<Longrightarrow> reg_step (r, L) (r\<lparr>manager := Some (touch ks m)\<rparr>, L)"
| rs_reset:
    "external_reset_succeeded now (r\<lparr>manager := map_option reset_cache (manager r)\<rparr>) = Inr r'
     \<Longrightarrow> reg_step (r, L) (r', {#})"

inductive reg_reachable :: "reg_state \<Rightarrow> bool" where
  reg_start:
    "manager_init n name ee th tr = Inr m \<Longrightarrow> n \<le> 2 ^ 63
     \<Longrightarrow> reg_reachable (registry_init c (Some m), {#})"
| reg_start_bare: "reg_reachable (registry_init c None, {#})"
| reg_next: "reg_reachable s \<Longrightarrow> reg_step s s' \<Longrightarrow> reg_reachable s'"

lemma manager_init_empty: "manager_init n name ee th tr = Inr m \<Longrightarrow> mget m k = None"
  by (auto simp: manager_init_def Let_def lru_init_def lru_get_def arc_init_def arc_get_def
      split: if_splits)

lemma reg_inv_init:
  assumes "manager_init n name ee th tr = Inr m" "n \<le> 2 ^ 63"
  shows "reg_inv {#} (registry_init c (Some m))"
  using manager_init_inv [OF assms(2,1)] manager_init_empty [OF assms(1)]
  by (simp add: reg_inv_def registry_init_def macct_def accounted_def holders_def counted_inv_def
      block_refs_def)

lemma reg_inv_init_bare: "reg_inv {#} (registry_init c None)"
  by (simp add: reg_inv_def registry_init_def macct_def holders_def)

lemma reg_inv_manager:
  "reg_inv L r \<Longrightarrow> accounted counted_inv block_refs m' (holders (records r) + L')
   \<Longrightarrow> reg_inv L' (r\<lparr>manager := Some m'\<rparr>)"
  by (auto simp: reg_inv_def rec_inv_def macct_def)

lemma reg_inv_accounted:
  "reg_inv L r \<Longrightarrow> manager r = Some m \<Longrightarrow>
   accounted counted_inv block_refs m (holders (records r) + L)"
  by (simp add: reg_inv_def macct_def)

lemma accounted_mgr_inv: "accounted counted_inv block_refs m hs \<Longrightarrow> mgr_inv m"
  by (simp add: accounted_def counted_inv_def)

lemma lookup_frame:
  "lookup k m = Inr (b, m') \<Longrightarrow> mgr_inv m \<Longrightarrow> mgr_inv m' \<and> mget m' = mget m"
  by (auto simp: lookup_def res_simps track_inv split: option.splits if_splits)

lemma reg_step_inv: "reg_step (r, L) (r', L') \<Longrightarrow> reg_inv L r \<Longrightarrow> reg_inv L' r'"
proof (induction "(r, L)" "(r', L')" rule: reg_step.induct)
  case (rs_associate q d c0 e)
  then show ?case using associate_spec [of L r q d c0] by auto
next
  case (rs_generation i c snap c0 now)
  then show ?case using generation_finished_spec [of L r i c snap c0 now] by auto
next
  case (rs_event ev c0 now c2 a)
  then show ?case using apply_event_spec [of L r ev c0 now c2] by auto
next
  case (rs_expire now)
  then show ?case using expire_spec [of L r now] by auto
next
  case (rs_retain i ks c0 taken)
  from rs_retain(5) expire_spec [of L r c0] obtain r1 where "expire c0 r = Inr r1" by blast
  with rs_retain retain_ready_spec [of L r c0 r1 i ks] show ?case by (auto simp: few_holders_def)
next
  case (rs_h2d i l x t lr)
  then obtain s where "started_at l = Some s"
    by (auto simp: set_h2d_estimate_def split: option.splits)
  with rs_h2d reg_inv_set_h2d [of L r i l s x t] show ?case by auto
next
  case rs_invalidate
  then show ?case using invalidate_spec by blast
next
  case (rs_pending i l ks)
  then have "wf_lc (l\<lparr>pending_retention := ks\<rparr>)"
    using reg_inv_focus(2) [OF rs_pending.prems rs_pending.hyps(1)]
    by (auto simp: rec_inv_def wf_lc_def owns_preservation_def)
  then have "reg_inv L (set_record i (l\<lparr>pending_retention := ks\<rparr>, r))"
    using rs_pending.prems reg_inv_focus(2) [OF rs_pending.prems rs_pending.hyps(1)]
    by (intro reg_inv_modify [OF rs_pending.prems rs_pending.hyps(1)]) (auto simp: reg_inv_def rec_inv_def)
  with rs_pending.hyps show ?case by simp
next
  case (rs_evaluated i l s n b)
  then have "wf_lc (l\<lparr>pending_evaluation := False, backoff_signature := b,
      next_evaluation_step := n, last_store_step := s\<rparr>)"
    using reg_inv_focus(2) [OF rs_evaluated.prems rs_evaluated.hyps(1)]
    by (auto simp: rec_inv_def wf_lc_def owns_preservation_def)
  then have "reg_inv L (set_record i (l\<lparr>pending_evaluation := False, backoff_signature := b,
      next_evaluation_step := n, last_store_step := s\<rparr>, r))"
    using rs_evaluated.prems reg_inv_focus(2) [OF rs_evaluated.prems rs_evaluated.hyps(1)]
    by (intro reg_inv_modify [OF rs_evaluated.prems rs_evaluated.hyps(1)]) (auto simp: reg_inv_def rec_inv_def)
  with rs_evaluated.hyps show ?case by simp
next
  case (rs_store m ks out m')
  then show ?case
    using accounted_prepare_store [OF reg_inv_accounted, of L r m ks]
    by (auto intro: reg_inv_manager)
next
  case (rs_stored m ks ok m')
  then show ?case
    using accounted_complete_store [OF reg_inv_accounted, of L r m ks ok]
    by (auto intro: reg_inv_manager)
next
  case (rs_load m ks ids m')
  then show ?case
    using load_holder [OF reg_inv_accounted, of L r m ks ids m']
    by (auto intro!: reg_inv_manager simp: few_holders_def holders_def)
next
  case (rs_loaded m ks m')
  from rs_loaded.hyps(2) have
    "holders (records r) + L = add_mset ks (holders (records r) + (L - {#ks#}))" by simp
  with rs_loaded loaded_holder [of m ks "holders (records r) + (L - {#ks#})"]
    reg_inv_accounted [of L r m] show ?case
    by (auto intro!: reg_inv_manager)
next
  case (rs_lookup m k b m')
  note a = reg_inv_accounted [OF rs_lookup.prems rs_lookup.hyps(1)]
  note f = lookup_frame [OF rs_lookup.hyps(2) accounted_mgr_inv [OF a]]
  from f have "accounted counted_inv block_refs m' (holders (records r) + L)"
    by (intro accounted_mget_cong [OF a]) simp_all
  from reg_inv_manager [OF rs_lookup.prems this] rs_lookup.hyps(3,4) show ?case by simp
next
  case (rs_touch m ks)
  note a = reg_inv_accounted [OF rs_touch.prems rs_touch.hyps(1)]
  note f = touch_inv [OF accounted_mgr_inv [OF a], of ks]
  from f have "accounted counted_inv block_refs (touch ks m) (holders (records r) + L)"
    by (intro accounted_mget_cong [OF a]) simp_all
  from reg_inv_manager [OF rs_touch.prems this] rs_touch.hyps(2,3) show ?case by simp
next
  case (rs_reset now)
  then show ?case using external_reset_spec [of L r now] by auto
qed

lemma reg_reachable_inv: "reg_reachable s \<Longrightarrow> reg_inv (snd s) (fst s)"
  by (induction rule: reg_reachable.induct)
    (auto intro: reg_inv_init reg_inv_init_bare, metis prod.collapse reg_step_inv)

subsection \<open>Properties\<close>

lemma holders_of_key:
  "size {# h \<in># holders d. k \<in> set h #} = length (filter (\<lambda>(i, l). k \<in> set (retained l)) d)"
  by (induction d) (auto simp: holders_def)

text \<open>
  \<^bold>\<open>C4\<close>. Reference counts are exact: in every reachable state the reference count of a ready CPU
  block is the number of lifecycle records that retain its key plus the number of loads in flight
  that read it, and a key that is missing or not ready is held by nobody. No reference leaks
  through expiry, events, generation ends, stores or a cache reset.
\<close>

theorem lifecycle_references_exact:
  assumes "reg_reachable (r, L)" "manager r = Some m"
  shows "block_refs m k =
    int (length (filter (\<lambda>(i, l). k \<in> set (retained l)) (records r))
         + size {# h \<in># L. k \<in> set h #})"
proof -
  have "accounted counted_inv block_refs m (holders (records r) + L)"
    using reg_reachable_inv [OF assms(1)] assms(2) by (simp add: reg_inv_accounted)
  then show ?thesis by (simp add: accounted_def holders_of_key)
qed

definition sample_id :: string where
  "sample_id = ''tc-0123456789ab4def8123456789abcdef''"

lemma sample_reachable:
  "\<exists>r m. reg_reachable (r, {#}) \<and> manager r = Some m \<and> few_holders r {#}
     \<and> (\<exists>l. map_of (records r) sample_id = Some l \<and> terminal_at l = None \<and> started_at l = Some 5
          \<and> lc_start l \<noteq> None)"
proof -
  obtain m where m: "manager_init 4 ''lru'' False 1 64000 = Inr m" by (simp add: manager_init_def)
  let ?r0 = "registry_init offload_defaults (Some m)"
  let ?r1 = "reg_count M_ASSOCIATED (?r0\<lparr>generations := [(sample_id, ''q'')],
     records := [(sample_id, new_lifecycle (metadata_defaults sample_id))]\<rparr>)"
  have 0: "reg_reachable (?r0, {#})" using m by (rule reg_start) simp
  have "associate ''q'' (metadata_defaults sample_id) 0 ?r0 = Inr (?r1, None)"
    by (simp add: associate_def expire_def registry_init_def metadata_defaults_def has_key_def)
  from reg_next [OF 0 rs_associate [OF this]] have 1: "reg_reachable (?r1, {#})" .
  let ?ev = "\<lparr>le_event = Stall_started, le_lifecycle_id = sample_id, le_kind = ''tool'',
     le_estimated_duration_s = Some 30\<rparr>"
  have e: "expire 5 ?r1 = Inr ?r1"
    by (simp add: expire_def expire1_def new_lifecycle_def)
  let ?l = "new_lifecycle (metadata_defaults sample_id)"
  have l: "map_of (records ?r1) sample_id = Some ?l" "terminal_at ?l = None" "lc_start ?l = None"
    by (simp_all add: new_lifecycle_def)
  from start_stall_spec [OF reg_reachable_inv [OF 1, unfolded fst_conv snd_conv] l, of ?ev 5 5] obtain l' r' where
    s: "start_stall ?ev ?l 5 5 ?r1 = Inr (l', r')" "lc_start l' = Some ?ev" "started_at l' = Some 5"
      "terminal_at l' = None" by auto
  have "\<exists>a. apply_event ?ev 5 5 5 ?r1 = Inr (a, set_record sample_id (l', r'))"
    using e l s by (simp add: apply_event_def classify_def Let_def)
  then have 2: "reg_reachable (set_record sample_id (l', r'), {#})"
    using reg_next [OF 1] rs_event by blast
  have r': "records r' = records ?r1" "(manager r' = None) = (manager ?r1 = None)"
    using s(1) by (auto simp: start_stall_frame)
  then obtain m' where "manager r' = Some m'" by (auto simp: registry_init_def)
  with 2 s r' show ?thesis
    by (intro exI [of _ "set_record sample_id (l', r')"]) (auto simp: few_holders_def)
qed

theorem lifecycle_references_exact_witness:
  "\<exists>r m. reg_reachable (r, {#}) \<and> manager r = Some m
     \<and> block_refs m [7] =
         int (length (filter (\<lambda>(i, l). [7] \<in> set (retained l)) (records r)))"
proof -
  obtain r m where "reg_reachable (r, {#})" "manager r = Some m" using sample_reachable by blast
  with lifecycle_references_exact [OF this, of "[7]"] show ?thesis by auto
qed



lemma expired_terminal:
  assumes "terminal_at l = Some t"
  shows "expired now l = (if now \<ge> t + 60 then None else Some l)"
  using assms by (simp add: expired_def tombstone_seconds_def)

lemma expired_overdue:
  assumes "wf_lc l" "terminal_at l = None"
    and "case started_at l of Some s \<Rightarrow> s + 3600 \<le> now
         | None \<Rightarrow> \<exists>c. completed_at l = Some c \<and> c + 60 \<le> now"
  shows "expired now l = Some (closed C_expired now l)"
  using assms
  by (auto simp: expired_def wf_lc_def attach_seconds_def split: option.splits)

text \<open>
  \<^bold>\<open>C6\<close>. Every lifecycle ends: a record whose stall started an hour ago, or whose generation
  completed a minute ago without a stall, is terminal and holds no CPU blocks after the next
  \<open>expire\<close>, and another \<open>expire\<close> a minute later removes it from the registry.
\<close>

theorem overdue_lifecycle_removed:
  assumes "reg_reachable (r, L)" "map_of (records r) i = Some l"
    and "case started_at l of Some s \<Rightarrow> s + 3600 \<le> now
         | None \<Rightarrow> \<exists>c. completed_at l = Some c \<and> c + 60 \<le> now"
    and "\<forall>t. terminal_at l = Some t \<longrightarrow> t \<le> now"
  shows "\<exists>r1 r2. expire now r = Inr r1 \<and> expire (now + 60) r1 = Inr r2
    \<and> (\<forall>l'. map_of (records r1) i = Some l' \<longrightarrow> terminal_at l' \<noteq> None \<and> retained l' = [])
    \<and> map_of (records r2) i = None"
proof -
  have inv: "reg_inv L r" using reg_reachable_inv [OF assms(1)] by simp
  have wf: "wf_lc l" using reg_inv_focus(2) [OF inv assms(2)] by (simp add: rec_inv_def)
  from expire_spec [OF inv, of now] obtain r1 where
    r1: "expire now r = Inr r1" "reg_inv L r1" "map_of (records r1) i = expired now l"
    using assms(2) by auto
  from expire_spec [OF r1(2), of "now + 60"] obtain r2 where
    r2: "expire (now + 60) r1 = Inr r2"
      "map_of (records r2) i = Option.bind (map_of (records r1) i) (expired (now + 60))" by blast
  have "(\<forall>l'. expired now l = Some l' \<longrightarrow> terminal_at l' \<noteq> None \<and> retained l' = [])
    \<and> Option.bind (expired now l) (expired (now + 60)) = None"
  proof (cases "terminal_at l")
    case None
    have "terminal_at (closed C_expired now l) = Some now" using None by (simp add: closed_def)
    with expired_overdue [OF wf None assms(3)] wf_lc_closed' [OF wf, of C_expired now]
    show ?thesis by (simp add: expired_terminal)
  next
    case (Some t)
    with assms(4) wf_lc_terminal [OF wf] show ?thesis by (auto simp: expired_terminal)
  qed
  with r1 r2 show ?thesis by auto
qed

theorem overdue_lifecycle_removed_witness:
  "\<exists>r r1 r2. reg_reachable (r, {#}) \<and> map_of (records r) sample_id \<noteq> None
     \<and> expire 3605 r = Inr r1 \<and> expire (3605 + 60) r1 = Inr r2
     \<and> map_of (records r2) sample_id = None"
proof -
  obtain r l where r: "reg_reachable (r, {#})" "map_of (records r) sample_id = Some l"
    "terminal_at l = None" "started_at l = Some 5" using sample_reachable by blast
  from r(3,4) overdue_lifecycle_removed [OF r(1,2), of 3605] obtain r1 r2 where
    "expire 3605 r = Inr r1" "expire (3605 + 60) r1 = Inr r2" "map_of (records r2) sample_id = None"
    by auto
  with r show ?thesis by blast
qed

subsubsection \<open>Events\<close>

lemma apply_event_cases:
  assumes "expire c0 r = Inr r1" "apply_event event c0 now c2 r = Inr (a, r')"
  obtains
    (unknown) "map_of (records r1) (le_lifecycle_id event) = None" "ler_disposition a = Unknown"
      "ler_status_code a = 404" "r' = reg_count M_UNKNOWN r1"
  | (refused) l d st x where "map_of (records r1) (le_lifecycle_id event) = Some l"
      "classify event l = (d, st)" "d \<noteq> Applied" "disposition_metric d = Some x"
      "ler_disposition a = d" "ler_status_code a = st" "ler_state a = lc_state l"
      "r' = reg_count x r1"
  | (started) l l' r2 where "map_of (records r1) (le_lifecycle_id event) = Some l"
      "le_event event = Stall_started" "lc_start l = None" "terminal_at l = None"
      "start_stall event l now c2 r1 = Inr (l', r2)" "r' = set_record (le_lifecycle_id event) (l', r2)"
      "ler_disposition a = Applied" "ler_status_code a = 200"
  | (finished) l l' r2 where "map_of (records r1) (le_lifecycle_id event) = Some l"
      "le_event event = Stall_finished" "lc_start l \<noteq> None" "terminal_at l = None"
      "finish_stall l now r1 = Inr (l', r2)" "r' = set_record (le_lifecycle_id event) (l', r2)"
      "ler_disposition a = Applied" "ler_status_code a = 200"
proof (cases "map_of (records r1) (le_lifecycle_id event)")
  case None
  with assms unknown show ?thesis by (auto simp: apply_event_def)
next
  case (Some l)
  obtain d st where c: "classify event l = (d, st)" by force
  then have d: "d \<noteq> Unknown" "d \<noteq> Unavailable" by (auto simp: classify_def split: if_splits)
  show ?thesis
  proof (cases "d = Applied")
    case False
    with d obtain x where x: "disposition_metric d = Some x" by (cases d) auto
    with assms Some c False have "ler_disposition a = d" "ler_status_code a = st"
      "ler_state a = lc_state l" "r' = reg_count x r1"
      by (auto simp: apply_event_def Let_def split: disposition.splits)
    with Some c False x show ?thesis by (rule refused)
  next
    case True
    then have st: "st = 200" "terminal_at l = None"
        "lc_start l = None \<longleftrightarrow> le_event event = Stall_started"
      using c by (auto simp: classify_def split: if_splits)
    show ?thesis
    proof (cases "le_event event")
      case Stall_started
      with assms Some c True st obtain l' r2 where
        "start_stall event l now c2 r1 = Inr (l', r2)" "r' = set_record (le_lifecycle_id event) (l', r2)"
        "ler_disposition a = Applied" "ler_status_code a = 200"
        by (auto simp: apply_event_def Let_def rbind_eq_Inr)
      with Some Stall_started st show ?thesis by (intro started) auto
    next
      case Stall_finished
      with assms Some c True st obtain l' r2 where
        "finish_stall l now r1 = Inr (l', r2)" "r' = set_record (le_lifecycle_id event) (l', r2)"
        "ler_disposition a = Applied" "ler_status_code a = 200"
        by (auto simp: apply_event_def Let_def rbind_eq_Inr)
      with Some Stall_finished st show ?thesis by (intro finished) auto
    qed
  qed
qed

lemma classify_redelivered:
  "lc_start l = Some event \<Longrightarrow> le_event event = Stall_started \<Longrightarrow> classify event l = (Duplicate, 200)"
  by (simp add: classify_def)

text \<open>
  Events are idempotent: delivering an applied event again within a minute is answered
  as a duplicate with status 200, and a delivery that is not applied (duplicate, late, conflicting
  or unknown) changes no record, reference or history, only one counter.
\<close>

lemma event_redelivery:
  assumes "reg_reachable (r, L)" "apply_event event c0 now c2 r = Inr (a, r')"
  shows "(ler_disposition a = Applied \<and> d0 < now + 60 \<longrightarrow>
      (\<exists>a' r''. apply_event event d0 now' d2 r' = Inr (a', r'')
         \<and> ler_disposition a' = Duplicate \<and> ler_status_code a' = 200))
    \<and> (ler_disposition a \<noteq> Applied \<longrightarrow>
        (\<exists>r1 x. expire c0 r = Inr r1 \<and> r' = reg_count x r1))"
proof -
  have inv: "reg_inv L r" using reg_reachable_inv [OF assms(1)] by simp
  from expire_spec [OF inv, of c0] obtain r1 where e: "expire c0 r = Inr r1" "reg_inv L r1" by blast
  have inv': "reg_inv L r'" using apply_event_spec [OF inv, of event c0 now c2] assms(2) by simp
  from expire_spec [OF inv', of d0] obtain r2 where e': "expire d0 r' = Inr r2"
    "map_of (records r2) (le_lifecycle_id event) =
       Option.bind (map_of (records r') (le_lifecycle_id event)) (expired d0)" by blast
  have again: "\<exists>a' r''. apply_event event d0 now' d2 r' = Inr (a', r'')
      \<and> ler_disposition a' = Duplicate \<and> ler_status_code a' = 200"
    if "map_of (records r2) (le_lifecycle_id event) = Some l" "classify event l = (Duplicate, 200)"
    for l using that e'(1) by (simp add: apply_event_def Let_def)
  from e(1) assms(2) show ?thesis
  proof (cases rule: apply_event_cases)
    case (started l l' r3)
    with start_stall_spec [OF e(2) started(1,4,3), of event now c2] have
      l': "lc_start l' = Some event" "terminal_at l' = None"
        "map_of (records r') (le_lifecycle_id event) = Some l'" by auto
    from l'(2) obtain l'' where "expired d0 l' = Some l''" "lc_start l'' = Some event"
      using l'(1) by (cases "expired d0 l'") (auto simp: expired_def split: option.splits if_splits)
    with l' e' started again [of l''] show ?thesis by (simp add: classify_redelivered)
  next
    case (finished l l' r3)
    with finish_stall_spec [OF e(2) finished(1,4,3), of now] have
      l': "terminal_at l' = Some now" "finish_accepted l'"
        "map_of (records r') (le_lifecycle_id event) = Some l'" by auto
    then have "map_of (records r2) (le_lifecycle_id event) = Some l'" if "d0 < now + 60"
      using e'(2) that by (simp add: expired_terminal)
    moreover have "classify event l' = (Duplicate, 200)"
      using l' finished(2) by (simp add: classify_def)
    ultimately show ?thesis using again finished(7) by simp
  qed (use e(1) in auto)
qed

subsubsection \<open>Terminal records\<close>

definition same_end :: "lifecycle \<Rightarrow> lifecycle \<Rightarrow> bool" where
  "same_end l l' \<longleftrightarrow> terminal_at l' = terminal_at l \<and> terminal_cause l' = terminal_cause l"

definition keeps_end :: "registry \<Rightarrow> registry \<Rightarrow> bool" where
  "keeps_end r r' \<longleftrightarrow>
     (\<forall>i l l'. map_of (records r) i = Some l \<longrightarrow> terminal_at l \<noteq> None \<longrightarrow>
        map_of (records r') i = Some l' \<longrightarrow> same_end l l' \<or> l' = new_lifecycle (lc_metadata l'))"

lemma keeps_end_expire:
  assumes "reg_inv L r" "expire now r = Inr r'"
  shows "\<forall>i l l'. map_of (records r) i = Some l \<longrightarrow> terminal_at l \<noteq> None \<longrightarrow>
    map_of (records r') i = Some l' \<longrightarrow> l' = l"
  using expire_spec [OF assms(1), of now] assms(2) expired_terminal by (auto split: if_splits)

lemma keeps_end_after_expire:
  assumes "reg_inv L r" "expire c0 r = Inr r1"
    and "\<And>i l. map_of (records r1) i = Some l \<Longrightarrow> terminal_at l \<noteq> None \<Longrightarrow> map_of (records r') i = Some l"
    and "\<And>i l'. map_of (records r1) i = None \<Longrightarrow> map_of (records r') i = Some l' \<Longrightarrow>
           l' = new_lifecycle (lc_metadata l')"
  shows "keeps_end r r'"
  unfolding keeps_end_def
proof (intro allI impI)
  fix i l l'
  assume l: "map_of (records r) i = Some l" "terminal_at l \<noteq> None" "map_of (records r') i = Some l'"
  show "same_end l l' \<or> l' = new_lifecycle (lc_metadata l')"
  proof (cases "map_of (records r1) i")
    case None
    with assms(4) l(3) show ?thesis by blast
  next
    case (Some l1)
    then have "l1 = l" using keeps_end_expire [OF assms(1,2)] l by blast
    with assms(3) Some l show ?thesis by (simp add: same_end_def)
  qed
qed

lemma keeps_end_write:
  "map_of (records r) i = Some l \<Longrightarrow> records r' = records r \<Longrightarrow> same_end l l' \<Longrightarrow>
   keeps_end r (set_record i (l', r'))"
  by (auto simp: keeps_end_def same_end_def)

lemma keeps_end_same: "records r' = records r \<Longrightarrow> keeps_end r r'"
  by (simp add: keeps_end_def same_end_def)

lemma set_h2d_estimate_end:
  "set_h2d_estimate l x t r = Inr (l', r') \<Longrightarrow> same_end l l' \<and> records r' = records r"
  by (auto simp: set_h2d_estimate_def release_record_def Let_def rbind_eq_Inr same_end_def
      split: option.splits if_splits)

lemma start_stall_records: "start_stall ev l now c2 r = Inr (l', r') \<Longrightarrow> records r' = records r"
  using start_stall_frame by blast

lemma finish_stall_records: "finish_stall l now r = Inr (l', r') \<Longrightarrow> records r' = records r"
  by (auto simp: finish_stall_def learn_def terminalize_def Let_def rbind_eq_Inr
      dest!: release_record_frame split: option.splits if_splits)

lemma keeps_end_event:
  assumes "reg_inv L r" "apply_event ev c0 now c2 r = Inr (a, r')"
  shows "keeps_end r r'"
proof -
  from expire_spec [OF assms(1), of c0] obtain r1 where e: "expire c0 r = Inr r1" by blast
  from e assms(2) show ?thesis
  proof (cases rule: apply_event_cases)
    case (started l l' r2)
    with start_stall_records [OF started(5)] show ?thesis
      by (intro keeps_end_after_expire [OF assms(1) e]) (auto split: if_splits)
  next
    case (finished l l' r2)
    with finish_stall_records [OF finished(5)] show ?thesis
      by (intro keeps_end_after_expire [OF assms(1) e]) (auto split: if_splits)
  qed (auto intro!: keeps_end_after_expire [OF assms(1) e])
qed

lemma keeps_end_generation:
  assumes "reg_inv L r" "generation_finished i c snap c0 now r = Inr r'"
  shows "keeps_end r r'"
proof -
  from expire_spec [OF assms(1), of c0] obtain r1 where e: "expire c0 r = Inr r1"
    "\<And>i. map_of (records r1) i = Option.bind (map_of (records r) i) (expired c0)" by blast
  from generation_finished_spec [OF assms(1), of i c snap c0 now] assms(2) have
    g: "\<And>j. map_of (records r') j = (if j = i then
       map_option (generated (offload_enabled (settings r)) c snap now) (map_of (records r1) j)
       else map_of (records r1) j)" by (auto simp: e(2))
  show ?thesis
    by (rule keeps_end_after_expire [OF assms(1) e(1)]) (auto simp: g generated_def split: if_splits)
qed

lemma keeps_end_retain:
  assumes "reg_inv L r" "retain_ready i ks c0 r = Inr (taken, r')"
  shows "keeps_end r r'"
proof -
  from expire_spec [OF assms(1), of c0] obtain r1 where e: "expire c0 r = Inr r1" by blast
  show ?thesis
    using assms(2) e
    by (intro keeps_end_after_expire [OF assms(1) e])
      (auto simp: retain_ready_def owns_preservation_def split: option.splits if_splits prod.splits)
qed

lemma keeps_end_associate:
  assumes "reg_inv L r" "associate q d c0 r = Inr (r', e)"
  shows "keeps_end r r'"
proof -
  from expire_spec [OF assms(1), of c0] obtain r1 where x: "expire c0 r = Inr r1" by blast
  show ?thesis
    using assms(2) x
    by (intro keeps_end_after_expire [OF assms(1) x])
      (auto simp: associate_def Let_def has_key_def split: if_splits)
qed

lemma reg_step_keeps_end: "reg_step (r, L) (r', L') \<Longrightarrow> reg_inv L r \<Longrightarrow> keeps_end r r'"
proof (induction "(r, L)" "(r', L')" rule: reg_step.induct)
  case (rs_expire now)
  then show ?case using keeps_end_expire [of L r now r'] by (fastforce simp: keeps_end_def same_end_def)
next
  case (rs_h2d i l x t lr)
  then show ?case using set_h2d_estimate_end keeps_end_write by (metis prod.collapse)
next
  case (rs_pending i l ks)
  then show ?case using keeps_end_write [of r i l r] by (auto simp: same_end_def)
next
  case (rs_evaluated i l s n b)
  then show ?case using keeps_end_write [of r i l r] by (auto simp: same_end_def)
next
  case rs_invalidate
  then show ?case by (auto simp: keeps_end_def same_end_def invalidate_snapshots_def map_of_map)
next
  case (rs_reset now)
  then show ?case using external_reset_spec [of L r now]
    by (auto simp: keeps_end_def same_end_def reset_record_def closed_def)
qed (auto intro: keeps_end_same keeps_end_associate keeps_end_generation keeps_end_event
      keeps_end_retain)

text \<open>
  \<^bold>\<open>C7\<close>. A terminal lifecycle stays as it ended: after any step a record that was terminal still
  has its cause and time and retains no keys, unless its tombstone was removed, after which the
  identifier can only reappear as a fresh association.
\<close>

theorem terminal_lifecycle_final:
  assumes "reg_reachable (r, L)" "reg_step (r, L) (r', L')"
    and "map_of (records r) i = Some l" "terminal_at l = Some t" "map_of (records r') i = Some l'"
  shows "terminal_at l' = Some t \<and> terminal_cause l' = terminal_cause l \<and> retained l' = []
    \<or> l' = new_lifecycle (lc_metadata l')"
proof -
  have inv: "reg_inv L r" using reg_reachable_inv [OF assms(1)] by simp
  from reg_step_inv [OF assms(2) inv] reg_inv_focus(2) [OF _ assms(5)] have "wf_lc l'"
    by (auto simp: rec_inv_def)
  moreover have "same_end l l' \<or> l' = new_lifecycle (lc_metadata l')"
    using reg_step_keeps_end [OF assms(2) inv] assms(3-5) by (auto simp: keeps_end_def)
  ultimately show ?thesis using assms(4) wf_lc_terminal by (auto simp: same_end_def)
qed

theorem terminal_lifecycle_final_witness:
  "\<exists>r r' l'. reg_reachable (r, {#}) \<and> reg_step (r, {#}) (r', {#})
     \<and> map_of (records r') sample_id = Some l' \<and> terminal_at l' = Some 3605"
proof -
  obtain r l where r: "reg_reachable (r, {#})" "map_of (records r) sample_id = Some l"
    "terminal_at l = None" "started_at l = Some 5" using sample_reachable by blast
  have inv: "reg_inv {#} r" using reg_reachable_inv [OF r(1)] by simp
  have "wf_lc l" using reg_inv_focus(2) [OF inv r(2)] by (simp add: rec_inv_def)
  with r(3,4) have x: "expired 3605 l = Some (closed C_expired 3605 l)"
    by (intro expired_overdue) simp_all
  from expire_spec [OF inv, of 3605] obtain r1 where r1: "expire 3605 r = Inr r1" "reg_inv {#} r1"
    "map_of (records r1) sample_id = Some (closed C_expired 3605 l)" using r(2) x by auto
  have t: "terminal_at (closed C_expired 3605 l) = Some 3605" using r(3) by (simp add: closed_def)
  from expire_spec [OF r1(2), of 3606] obtain r2 where r2: "expire 3606 r1 = Inr r2"
    "map_of (records r2) sample_id = Some (closed C_expired 3605 l)"
    using r1(3) t by (auto simp: expired_terminal)
  have s: "reg_reachable (r1, {#})" "reg_step (r1, {#}) (r2, {#})"
    using reg_next [OF r(1) rs_expire [OF r1(1)]] rs_expire [OF r2(1)] by auto
  from terminal_lifecycle_final [OF s r1(3) t r2(2)] t r2(2) s show ?thesis by blast
qed

subsubsection \<open>Prediction and association\<close>

text \<open>
  The learned stall duration of an agent is a weighted mean: after a finished stall the
  entry of its key lies between the previous entry and the observed duration (it is the observed
  duration when there was none), it becomes the most recent entry, and the history never exceeds
  4096 entries, evicting only the least recently used one.
\<close>

lemma learned_duration_mean:
  assumes "lc_start l = Some ev" "started_at l = Some s" "lc_history_key l (le_kind ev) = Some k"
    and "wf_od (history r)" "length (history r) \<le> history_limit"
    and "0 < ewma_alpha (settings r)" "ewma_alpha (settings r) \<le> 1"
  shows "\<exists>d r'. learn l now r = Inr (l, r') \<and> last (history r') = (k, d)
    \<and> length (history r') \<le> history_limit
    \<and> (case map_of (history r) k of
         None \<Rightarrow> d = max 0 (now - s)
           \<and> butlast (history r') =
               (if length (history r) < history_limit then history r else tl (history r))
       | Some p \<Rightarrow> min p (max 0 (now - s)) \<le> d \<and> d \<le> max p (max 0 (now - s))
           \<and> butlast (history r') = AList.delete k (history r))"
proof (cases "map_of (history r) k")
  case None
  let ?d = "if length (history r) \<ge> history_limit then tl (history r) else history r"
  have k: "k \<notin> fst ` set ?d"
    using None unfolding map_of_eq_None_iff by (cases "history r") auto
  have "AList.update k v ?d = ?d @ [(k, v)]" for v using k by (rule update_fresh)
  with assms None show ?thesis by (auto simp: learn_def Let_def history_limit_def)
next
  case (Some p)
  let ?a = "ewma_alpha (settings r)" and ?x = "max 0 (now - s)"
  have u: "AList.update k v (AList.delete k (history r)) = AList.delete k (history r) @ [(k, v)]" for v
    by (rule update_fresh) simp
  have "Suc (length (AList.delete k (history r))) = length (history r)"
    using assms(4) Some by (rule length_delete_present)
  moreover have "min p ?x \<le> ?a * ?x + (1 - ?a) * p" "?a * ?x + (1 - ?a) * p \<le> max p ?x"
    using assms(6,7) convex_bounds [where a = ?a and x = ?x and p = p] by auto
  ultimately show ?thesis using assms Some by (simp add: learn_def Let_def u)
qed

text \<open>
  A lifecycle identifier belongs to one generation: associating it is refused exactly when
  its record has not been removed by the expiry at that moment or its generation is still running,
  a refusal changes nothing but the conflict counter, and an accepted association creates the
  fresh record and leaves every other record alone.
\<close>

lemma association_unique:
  assumes "reg_reachable (r, L)" "expire c0 r = Inr r1"
  shows "associate q d c0 r =
    (if has_key (lifecycle_id d) (records r1) \<or> has_key (lifecycle_id d) (generations r) then
       Inr (reg_count M_CONFLICT r1,
            Some (ValueError ''TokenCake lifecycle already belongs to a generation''))
     else Inr (reg_count M_ASSOCIATED
       (r1\<lparr>generations := AList.update (lifecycle_id d) q (generations r),
           records := AList.update (lifecycle_id d) (new_lifecycle d) (records r1)\<rparr>), None))"
proof -
  have "reg_inv L r" using reg_reachable_inv [OF assms(1)] by simp
  from expire_spec [OF this, of c0] assms(2) have "generations r1 = generations r"
    by (simp add: same_frame_def)
  with assms(2) show ?thesis by (simp add: associate_def Let_def)
qed

end
