(* ===== verification/Capacity.thy ===== *)
theory Capacity
  imports Protocol "HOL-Library.Product_Lexorder" "HOL-Library.List_Lexorder" "HOL-Library.Char_ord"
begin

section \<open>Agent scores and the partition of KV capacity\<close>

text \<open>
  The pure part of \<^verbatim>\<open>vllm/tokencake/scheduling.py\<close>: the score of a request, the score of an agent
  type from its history, and \<open>partition_capacity\<close>, which divides the reserved blocks among the
  critical agent types by largest remainders. Tuples and strings are compared lexicographically.
\<close>

definition py_sorted :: "('a \<Rightarrow> 'k::linorder) \<Rightarrow> 'a list \<Rightarrow> 'a list" where
  "py_sorted key xs = sort_key key xs"

text \<open>\<open>sorted(..., reverse=True)\<close> keeps the order of equal elements.\<close>

definition py_sorted_desc :: "('a \<Rightarrow> 'k::linorder) \<Rightarrow> 'a list \<Rightarrow> 'a list" where
  "py_sorted_desc key xs = rev (sort_key key (rev xs))"

text \<open>\<open>xs[:n]\<close>: a negative bound counts from the end.\<close>

definition py_upto :: "int \<Rightarrow> 'a list \<Rightarrow> 'a list" where
  "py_upto n xs = (if n \<ge> 0 then take (nat n) xs else take (nat (int (length xs) + n)) xs)"

definition py_bool :: "bool \<Rightarrow> pyfloat" where
  "py_bool b = (if b then 1 else 0)"

subsection \<open>Scores\<close>

definition request_score :: "metadata \<Rightarrow> pyfloat \<Rightarrow> pyfloat \<Rightarrow> int" where
  "request_score m arrival_time now =
     (let max_depth = max (max (depth m) (application_max_depth m)) 1;
          remaining = remaining_depth m;
          remaining_ratio = min 1 (of_int remaining / of_int max_depth);
          progress = min 1 (of_int (depth m) / of_int max_depth);
          elapsed = (if application_started_at_s m > 0
                     then max (application_elapsed_s m) (now - application_started_at_s m)
                     else application_elapsed_s m);
          wait = max 0 (now - arrival_time);
          parallel_width = (if 0 < similarity m \<and> similarity m < 1 then 1 / similarity m else 1);
          age = min elapsed 300 * (1 + 75 / 100 * remaining_ratio);
          queue = min wait 180 * (1 + 5 / 10 * remaining_ratio);
          completion = min elapsed 240 * progress
      in py_int
          (100 * importance m + 15 * of_int (depth m) + 45 * of_int (out_degree m)
           + 10 * of_int (in_degree m) + 20 * similarity m + 20 * of_int remaining
           + 120 * (parallel_width - 1) + 6 * min (application_start_offset_s m) 60
           + 5 * age + 8 * queue + 5 * completion + 180 * py_bool (critical_path m)
           + 90 * py_bool (near_completion m) + 20 * py_bool (join_group m \<noteq> '''')
           + 4 * of_int (if dependency_depth m \<noteq> 0 then dependency_depth m else depth m)
           + 12 * of_int (max (fanout_width m - 1) 0) - 8 * max (memory_weight m - 1) 0))"

record agent_history =
  ah_importance :: pyfloat
  ah_deferrals :: int
  ah_preemptions :: int
  ah_samples :: int
  ah_input_tokens :: int
  ah_output_tokens :: int
  ah_completed :: int
  ah_duration :: pyfloat
  ah_depth :: int
  ah_out_degree :: int
  ah_in_degree :: int
  ah_elapsed :: pyfloat
  ah_remaining :: int

definition new_history :: agent_history where
  "new_history =
     \<lparr>ah_importance = 0, ah_deferrals = 0, ah_preemptions = 0, ah_samples = 0,
      ah_input_tokens = 0, ah_output_tokens = 0, ah_completed = 0, ah_duration = 0, ah_depth = 0,
      ah_out_degree = 0, ah_in_degree = 0, ah_elapsed = 0, ah_remaining = 0\<rparr>"

definition log1p :: "pyfloat \<Rightarrow> pyfloat" where
  "log1p x = ln (1 + x)"

definition history_score :: "agent_history \<Rightarrow> pyfloat \<Rightarrow> int \<Rightarrow> pyfloat \<Rightarrow> pyfloat" where
  "history_score h imp waiting average_wait =
     (let urgency = log1p average_wait + log1p (of_int waiting) + log1p (of_int (ah_deferrals h))
            + 15 / 10 * log1p (of_int (ah_preemptions h));
          tokens = of_int (ah_input_tokens h + ah_output_tokens h) / of_int (max 1 (ah_samples h));
          duration = ah_duration h / of_int (max 1 (ah_completed h));
          cost = (if duration > 0 \<and> tokens > 0
                  then log1p tokens + (log1p duration + log1p (tokens / duration))
                  else log1p tokens);
          n = of_int (max 1 (ah_samples h));
          graph = 7 / 10 * of_int (ah_depth h) / n + 5 / 10 * of_int (ah_out_degree h) / n
            + 25 / 100 * of_int (ah_in_degree h) / n + 20 / 100 * of_int (ah_remaining h) / n
            + 10 / 100 * min (ah_elapsed h / n) 180
      in max 1 (2 * imp + urgency + 5 / 10 * cost + graph))"

subsection \<open>Capacity plans\<close>

record capacity_plan =
  critical :: "string list"
  plan_scores :: "(string, pyfloat) odict"
  reserved :: "(string, int) odict"
  shared :: int

definition empty_plan :: capacity_plan where
  "empty_plan = \<lparr>critical = [], plan_scores = [], reserved = [], shared = 0\<rparr>"

abbreviation lookup_or :: "'v \<Rightarrow> ('k, 'v) odict \<Rightarrow> 'k \<Rightarrow> 'v" where
  "lookup_or z d k \<equiv> get_default z k d"

definition capacity_weight :: "pyfloat \<Rightarrow> pyfloat \<Rightarrow> int \<Rightarrow> int \<Rightarrow> pyfloat" where
  "capacity_weight score score_sum used_here used_sum =
     (let score_share = score / score_sum;
          memory_share = (if used_sum \<noteq> 0 then of_int used_here / of_int used_sum else 0)
      in max (max score_share ((memory_share + score_share) / 2)) (1 / 1000000))"

text \<open>The division of \<open>n\<close> whole blocks in proportion to the weights.\<close>

definition exact_shares :: "int \<Rightarrow> (string, pyfloat) odict \<Rightarrow> (string, pyfloat) odict" where
  "exact_shares n weights =
     map (\<lambda>(k, w). (k, of_int n * w / sum_list (map snd weights))) weights"

definition apportion :: "int \<Rightarrow> (string, pyfloat) odict \<Rightarrow> (string, int) odict" where
  "apportion n weights =
     (let exact = exact_shares n weights;
          counts = map (\<lambda>(k, v). (k, py_int v)) exact;
          remainder = n - sum_list (map snd counts);
          raised = py_upto remainder
            (py_sorted_desc (\<lambda>(k, v). (v - of_int (py_int v), k)) exact)
      in fold (\<lambda>(k, v) d. AList.map_entry k (\<lambda>c. c + 1) d) raised counts)"

definition partition_capacity ::
  "(string, pyfloat) odict \<Rightarrow> (string, pyfloat) odict \<Rightarrow> (string, int) odict \<Rightarrow> int \<Rightarrow> pyfloat
     \<Rightarrow> pyfloat \<Rightarrow> capacity_plan res" where
  "partition_capacity scores imp used total_blocks reserve_ratio critical_share =
     (if \<not> list_all (\<lambda>(k, v). has_key k imp) scores then Inl KeyError
      else
        let ordered = map fst (py_sorted_desc (\<lambda>(k, v). (v, lookup_or 0 imp k, k)) scores);
            crit = take (nat (max 1 (py_int (real (length ordered) * critical_share)))) ordered;
            n = (if crit \<noteq> [] then py_int (of_int total_blocks * reserve_ratio) else 0);
            score_sum = sum_list (map (lookup_or 0 scores) crit);
            used_sum = sum_list (map snd used);
            weights = map (\<lambda>k. (k, capacity_weight (lookup_or 0 scores k) score_sum
                              (lookup_or 0 used k) used_sum)) (py_sorted (\<lambda>k. k) crit)
        in if crit \<noteq> [] \<and> score_sum = 0 then Inl ZeroDivisionError
           else Inr \<lparr>critical = crit, plan_scores = scores, reserved = apportion n weights,
                     shared = total_blocks - n\<rparr>)"

subsection \<open>Apportionment\<close>

lemma set_py_sorted_desc [simp]: "set (py_sorted_desc key xs) = set xs"
  by (simp add: py_sorted_desc_def)

lemma mset_py_sorted_desc [simp]: "mset (py_sorted_desc key xs) = mset xs"
  by (simp add: py_sorted_desc_def)

lemma length_py_sorted_desc [simp]: "length (py_sorted_desc key xs) = length xs"
  by (simp add: py_sorted_desc_def)

lemma py_sorted_desc_Nil [simp]: "py_sorted_desc key xs = [] \<longleftrightarrow> xs = []"
  by (metis length_0_conv length_py_sorted_desc)

lemma wf_od_py_sorted_desc [simp]: "wf_od (py_sorted_desc key xs) = wf_od xs"
  by (rule wf_od_mset_cong) simp

lemma wf_od_card: "wf_od d \<Longrightarrow> card (fst ` set d) = length d"
  using distinct_card [of "map fst d"] by (simp add: wf_od_def)

lemma py_sorted_simps [simp]:
  "set (py_sorted key xs) = set xs" "distinct (py_sorted key xs) = distinct xs"
  "py_sorted key xs = [] \<longleftrightarrow> xs = []"
  unfolding py_sorted_def by (simp_all, metis length_0_conv length_sort)

lemma wf_od_graph: "wf_od (map (\<lambda>k. (k, g k)) ks) = distinct ks"
  by (simp add: wf_od_def comp_def)

lemma capacity_weight_pos: "0 < capacity_weight a b c d"
  by (simp add: capacity_weight_def Let_def less_max_iff_disj)

lemma wf_od_take: "wf_od xs \<Longrightarrow> wf_od (take n xs)"
  by (simp add: wf_od_def take_map [symmetric] distinct_take)

text \<open>Raising each key of a list once.\<close>

lemma fold_raise:
  assumes "wf_od ys" "wf_od d"
  shows "fold (\<lambda>(k, v) d. AList.map_entry k (\<lambda>c. c + 1) d) ys d =
    map (\<lambda>(k, c). (k, c + (if k \<in> fst ` set ys then 1 else 0))) (d :: (string, int) odict)"
  using assms
proof (induction ys arbitrary: d)
  case Nil
  then show ?case by simp
next
  case (Cons y ys)
  obtain k v where y: "y = (k, v)" by force
  have "AList.map_entry k (\<lambda>c. c + 1) d = map (change_key k (\<lambda>c. c + 1)) d"
    using Cons.prems(2) by (simp add: map_entry_change_key)
  moreover have "k \<notin> fst ` set ys" "wf_od ys" using Cons.prems(1) by (simp_all add: y)
  moreover have "wf_od (map (change_key k (\<lambda>c. c + 1)) d)" using Cons.prems(2) by simp
  ultimately show ?case using Cons.IH [of "map (change_key k (\<lambda>c. c + 1)) d"]
    by (auto simp: y change_key_def intro!: map_cong)
qed

lemma sum_indicator:
  assumes "wf_od d" "A \<subseteq> fst ` set d"
  shows "(\<Sum>kc \<leftarrow> d. if fst kc \<in> A then 1 else 0) = int (card A)"
proof -
  have "(\<Sum>kc \<leftarrow> d. if fst kc \<in> A then 1 else 0) = (\<Sum>k \<leftarrow> map fst d. if k \<in> A then 1 else (0::int))"
    by (simp add: comp_def)
  also have "\<dots> = (\<Sum>k \<in> fst ` set d. if k \<in> A then 1 else 0)"
    using assms(1) unfolding wf_od_def by (subst sum_list_distinct_conv_sum_set) auto
  also have "\<dots> = int (card A)"
    using assms(2) by (simp add: sum.If_cases Int_absorb1)
  finally show ?thesis .
qed

lemma sum_list_raised:
  "sum_list (map snd (map (\<lambda>(k, c). (k, c + f k)) d)) = sum_list (map snd d) + (\<Sum>kc \<leftarrow> d. f (fst kc))"
  for d :: "(string, int) odict"
  by (induction d) auto

lemma sum_list_positive: "xs \<noteq> [] \<Longrightarrow> \<forall>x \<in> set xs. 0 < x \<Longrightarrow> 0 < sum_list (xs :: real list)"
  by (induction xs rule: list_nonempty_induct) auto

lemma sum_exact_shares:
  assumes "sum_list (map snd weights) \<noteq> 0"
  shows "sum_list (map snd (exact_shares n weights)) = of_int n"
proof -
  let ?s = "sum_list (map snd weights)"
  have "(\<Sum>x \<leftarrow> ws. of_int n * snd x / ?s) = of_int n * sum_list (map snd ws) / ?s"
    for ws :: "(string, pyfloat) odict"
    by (induction ws) (auto simp: algebra_simps add_divide_distrib)
  from this [of weights] assms show ?thesis
    by (simp add: exact_shares_def comp_def case_prod_beta)
qed

lemma sum_fractions:
  fixes xs :: "(string, pyfloat) odict"
  assumes "\<forall>(k, e) \<in> set xs. 0 \<le> e"
  shows "0 \<le> sum_list (map snd xs) - of_int (sum_list (map (\<lambda>x. py_int (snd x)) xs))"
    and "xs \<noteq> [] \<Longrightarrow>
      sum_list (map snd xs) - of_int (sum_list (map (\<lambda>x. py_int (snd x)) xs)) < real (length xs)"
proof -
  show "0 \<le> sum_list (map snd xs) - of_int (sum_list (map (\<lambda>x. py_int (snd x)) xs))"
    using assms
  proof (induction xs)
    case (Cons x xs)
    then show ?case using py_int_le [of "snd x"] by (auto simp: case_prod_beta)
  qed simp
  show "sum_list (map snd xs) - of_int (sum_list (map (\<lambda>x. py_int (snd x)) xs)) < real (length xs)"
    if "xs \<noteq> []"
    using that assms
  proof (induction xs rule: list_nonempty_induct)
    case (single x)
    then show ?case using py_int_gt [of "snd x"] by (auto simp: case_prod_beta)
  next
    case (cons x xs)
    then show ?case using py_int_gt [of "snd x"] by (auto simp: case_prod_beta)
  qed
qed

lemma apportion_spec:
  assumes "0 \<le> n" "weights \<noteq> []" "wf_od weights" "\<forall>(k, w) \<in> set weights. 0 < w"
  shows "map fst (apportion n weights) = map fst weights"
    and "sum_list (map snd (apportion n weights)) = n"
    and "\<forall>(k, e) \<in> set (exact_shares n weights).
      \<exists>c. (k, c) \<in> set (apportion n weights) \<and> \<lfloor>e\<rfloor> \<le> c \<and> c \<le> \<lfloor>e\<rfloor> + 1"
    and "\<forall>(k, c) \<in> set (apportion n weights). 0 \<le> c"
proof -
  let ?xs = "exact_shares n weights"
  let ?counts = "map (\<lambda>(k, v). (k, py_int v)) ?xs"
  let ?r = "n - sum_list (map snd ?counts)"
  let ?raised = "py_upto ?r (py_sorted_desc (\<lambda>(k, v). (v - of_int (py_int v), k)) ?xs)"
  have pos: "0 < sum_list (map snd weights)"
    using assms(2,4) by (intro sum_list_positive) auto
  have nn: "\<forall>(k, e) \<in> set ?xs. 0 \<le> e"
    using assms(1,4) pos by (auto simp: exact_shares_def intro!: divide_nonneg_pos mult_nonneg_nonneg)
  have fst_xs: "map fst ?xs = map fst weights"
    by (simp add: exact_shares_def comp_def case_prod_beta)
  have wf: "wf_od ?xs" "wf_od ?counts"
    using assms(3) fst_xs by (simp_all add: wf_od_def comp_def case_prod_beta)
  have cnt: "sum_list (map snd ?counts) = sum_list (map (\<lambda>x. py_int (snd x)) ?xs)"
    by (simp add: comp_def case_prod_beta)
  have "of_int ?r = sum_list (map snd ?xs) - of_int (sum_list (map (\<lambda>x. py_int (snd x)) ?xs))"
    using sum_exact_shares [of weights n] pos unfolding cnt by simp
  with sum_fractions [OF nn] assms(2) have "0 \<le> ?r \<and> ?r < int (length ?xs)"
    by (auto simp: exact_shares_def)
  then have r: "0 \<le> ?r" "?r < int (length ?xs)" by auto
  have raised: "wf_od ?raised" "length ?raised = nat ?r" "set ?raised \<subseteq> set ?xs"
    using r wf(1) by (auto simp: py_upto_def wf_od_take dest: in_set_takeD)
  define A where "A = fst ` set ?raised"
  have eq: "apportion n weights = map (\<lambda>(k, c). (k, c + (if k \<in> A then 1 else 0))) ?counts"
    unfolding apportion_def Let_def A_def using fold_raise [OF raised(1) wf(2)] by simp
  show "map fst (apportion n weights) = map fst weights"
    unfolding eq by (simp add: comp_def case_prod_beta fst_xs [unfolded comp_def])
  have "card A = length ?raised" unfolding A_def using raised(1) by (rule wf_od_card)
  moreover have "A \<subseteq> fst ` set ?counts" unfolding A_def using raised(3) by force
  ultimately show "sum_list (map snd (apportion n weights)) = n"
    unfolding eq sum_list_raised using sum_indicator [OF wf(2), of A] raised(2) r(1)
    by linarith
  show "\<forall>(k, e) \<in> set ?xs. \<exists>c. (k, c) \<in> set (apportion n weights) \<and> \<lfloor>e\<rfloor> \<le> c \<and> c \<le> \<lfloor>e\<rfloor> + 1"
  proof (clarify)
    fix k e assume e: "(k, e) \<in> set ?xs"
    then have "py_int e = \<lfloor>e\<rfloor>" using nn by (auto simp: py_int_def)
    moreover have "(k, py_int e + (if k \<in> A then 1 else 0)) \<in> set (apportion n weights)"
      unfolding eq using e by (auto intro: rev_image_eqI)
    ultimately show "\<exists>c. (k, c) \<in> set (apportion n weights) \<and> \<lfloor>e\<rfloor> \<le> c \<and> c \<le> \<lfloor>e\<rfloor> + 1"
      by (auto split: if_splits)
  qed
  have "0 \<le> py_int e" if "(k, e) \<in> set ?xs" for k e using nn that by (auto intro: py_int_nonneg)
  then show "\<forall>(k, c) \<in> set (apportion n weights). 0 \<le> c" unfolding eq by auto
qed

subsection \<open>Properties\<close>

lemma sorted_py_sorted_desc:
  "sorted_wrt (\<lambda>a b. key b \<le> key a) (py_sorted_desc key xs)"
  using sorted_sort_key [of key "rev xs"] unfolding py_sorted_desc_def sorted_wrt_rev sorted_map .

lemma in_take_or_drop: "x \<in> set xs \<Longrightarrow> x \<in> set (take n xs) \<or> x \<in> set (drop n xs)"
  by (metis Un_iff append_take_drop_id set_append)

lemma take_sorted_desc:
  assumes "a \<in> set (take n (py_sorted_desc key xs))" "b \<in> set (drop n (py_sorted_desc key xs))"
  shows "key b \<le> key a"
proof -
  have "sorted_wrt (\<lambda>a b. key b \<le> key a)
      (take n (py_sorted_desc key xs) @ drop n (py_sorted_desc key xs))"
    by (simp add: sorted_py_sorted_desc)
  with assms show ?thesis unfolding sorted_wrt_append by blast
qed

text \<open>The rank by which agent types become critical.\<close>

definition agent_rank ::
  "(string, pyfloat) odict \<Rightarrow> (string, pyfloat) odict \<Rightarrow> string \<Rightarrow> pyfloat \<times> pyfloat \<times> string" where
  "agent_rank scores imp k = (lookup_or 0 scores k, lookup_or 0 imp k, k)"



end
