(* ===== verification/Free_Queue.thy ===== *)
theory Free_Queue
  imports Prelude
begin

section \<open>The free block queue\<close>

text \<open>
  The class \<open>FreeKVCacheBlockQueue\<close> of \<^verbatim>\<open>vllm/v1/core/kv_cache_utils.py\<close>: the free GPU blocks as a
  doubly linked list threaded through the block objects, with a fake head and a fake tail. A node
  is the head, the tail or a block number; the attributes \<open>next_free_block\<close> and
  \<open>prev_free_block\<close> are two maps over nodes, and every assignment of the source is one update.
  The relation \<open>queue_of\<close> says which list of blocks the links represent; the locale
  \<open>free_list\<close> states what the block pool needs of a free queue and is interpreted on the links.
\<close>

datatype node = Head | Tail | Blk nat

record free_queue =
  nxt :: "node \<Rightarrow> node option"
  prv :: "node \<Rightarrow> node option"
  num_free_blocks :: int

abbreviation set_nxt :: "node \<Rightarrow> node option \<Rightarrow> free_queue \<Rightarrow> free_queue" where
  "set_nxt a b q \<equiv> q\<lparr>nxt := (nxt q)(a := b)\<rparr>"

abbreviation set_prv :: "node \<Rightarrow> node option \<Rightarrow> free_queue \<Rightarrow> free_queue" where
  "set_prv a b q \<equiv> q\<lparr>prv := (prv q)(a := b)\<rparr>"

subsection \<open>Operations\<close>

text \<open>The constructor, for the blocks \<open>0, \<dots>, n - 1\<close> of a pool.\<close>

definition link_blocks :: "nat \<Rightarrow> nat \<Rightarrow> free_queue \<Rightarrow> free_queue" where
  "link_blocks n i q =
     (let q1 = (if i > 0 then set_prv (Blk i) (Some (Blk (i - 1))) q else q)
      in if i + 1 < n then set_nxt (Blk i) (Some (Blk (i + 1))) q1 else q1)"

definition queue_init :: "nat \<Rightarrow> free_queue" where
  "queue_init n =
     (let q0 = \<lparr>nxt = (\<lambda>_. None), prv = (\<lambda>_. None), num_free_blocks = int n\<rparr>;
          q1 = fold (link_blocks n) [0..<n] q0
      in if n > 0 then
           set_nxt (Blk (n - 1)) (Some Tail) (set_prv Tail (Some (Blk (n - 1)))
             (set_prv (Blk 0) (Some Head) (set_nxt Head (Some (Blk 0)) q1)))
         else set_prv Tail (Some Head) (set_nxt Head (Some Tail) q1))"

definition popleft :: "free_queue \<Rightarrow> (node \<times> free_queue) res" where
  "popleft q =
     (case nxt q Head of
        None \<Rightarrow> py_assert (num_free_blocks q = 0) (Inl (ValueError ''No free blocks available''))
      | Some first \<Rightarrow>
          if first = Tail then
            py_assert (num_free_blocks q = 0) (Inl (ValueError ''No free blocks available''))
          else (case nxt q first of
                  None \<Rightarrow> Inl (RuntimeError ''Invalid block found in popleft()'')
                | Some second \<Rightarrow>
                    (let q1 = set_prv second (Some Head) (set_nxt Head (Some second) q);
                         q2 = set_nxt first None (set_prv first None q1)
                     in Inr (first, q2\<lparr>num_free_blocks := num_free_blocks q2 - 1\<rparr>))))"

fun pop_loop ::
  "nat \<Rightarrow> node option \<Rightarrow> free_queue \<Rightarrow> (node list \<times> node option \<times> free_queue) res" where
  "pop_loop 0 cur q = Inr ([], cur, q)"
| "pop_loop (Suc n) None q = Inl AssertionError"
| "pop_loop (Suc n) (Some c) q =
     rbind (pop_loop n (nxt q c) (set_nxt c None (set_prv c None q)))
       (\<lambda>(ret, cur, q'). Inr (c # ret, cur, q'))"

definition popleft_n :: "nat \<Rightarrow> free_queue \<Rightarrow> (node list \<times> free_queue) res" where
  "popleft_n n q =
     (if n = 0 then Inr ([], q)
      else py_assert (num_free_blocks q \<ge> int n)
        (rbind (pop_loop n (nxt q Head) (q\<lparr>num_free_blocks := num_free_blocks q - int n\<rparr>))
          (\<lambda>(ret, cur, q').
             Inr (ret, case cur of
                         None \<Rightarrow> q'
                       | Some c \<Rightarrow> set_prv c (Some Head) (set_nxt Head (Some c) q')))))"

definition queue_remove :: "node \<Rightarrow> free_queue \<Rightarrow> free_queue res" where
  "queue_remove b q =
     (case (prv q b, nxt q b) of
        (Some p, Some n) \<Rightarrow>
          (let q1 = set_prv n (Some p) (set_nxt p (Some n) q);
               q2 = set_nxt b None (set_prv b None q1)
           in Inr (q2\<lparr>num_free_blocks := num_free_blocks q2 - 1\<rparr>))
      | _ \<Rightarrow> Inl (RuntimeError ''remove() called on an invalid block''))"

definition queue_append :: "node \<Rightarrow> free_queue \<Rightarrow> free_queue res" where
  "queue_append b q =
     (case prv q Tail of
        None \<Rightarrow> Inl (RuntimeError ''prev_free_block of fake_free_list_tail should always exist'')
      | Some l \<Rightarrow>
          (let q1 = set_prv b (Some l) (set_nxt l (Some b) q);
               q2 = set_prv Tail (Some b) (set_nxt b (Some Tail) q1)
           in Inr (q2\<lparr>num_free_blocks := num_free_blocks q2 + 1\<rparr>)))"

fun append_loop :: "node list \<Rightarrow> node \<Rightarrow> free_queue \<Rightarrow> node \<times> free_queue" where
  "append_loop [] l q = (l, q)"
| "append_loop (b # bs) l q = append_loop bs b (set_nxt l (Some b) (set_prv b (Some l) q))"

definition append_n :: "node list \<Rightarrow> free_queue \<Rightarrow> free_queue res" where
  "append_n bs q =
     (if bs = [] then Inr q
      else case prv q Tail of
             None \<Rightarrow> Inl AssertionError
           | Some l0 \<Rightarrow>
               (let (l, q1) = append_loop bs l0 q;
                    q2 = set_prv Tail (Some l) (set_nxt l (Some Tail) q1)
                in Inr (q2\<lparr>num_free_blocks := num_free_blocks q2 + int (length bs)\<rparr>)))"

text \<open>The loop of \<open>get_all_free_blocks\<close> follows the links until a node without successor; on a
  cyclic list it would not end, which is the value \<open>None\<close>.\<close>

partial_function (option) collect_free :: "free_queue \<Rightarrow> node \<Rightarrow> node list option" where
  [code]: "collect_free q cur =
     (case nxt q cur of
        None \<Rightarrow> Some []
      | Some n \<Rightarrow> Option.bind (collect_free q n) (\<lambda>ns. Some (cur # ns)))"

definition get_all_free_blocks :: "free_queue \<Rightarrow> node list option res" where
  "get_all_free_blocks q =
     (case nxt q Head of
        None \<Rightarrow> Inl (RuntimeError ''next_free_block of fake_free_list_head should always exist'')
      | Some c \<Rightarrow> Inr (collect_free q c))"

subsection \<open>The list represented by the links\<close>

fun chain :: "(node \<Rightarrow> node option) \<Rightarrow> (node \<Rightarrow> node option) \<Rightarrow> node list \<Rightarrow> bool" where
  "chain n p (a # b # ns) \<longleftrightarrow> n a = Some b \<and> p b = Some a \<and> chain n p (b # ns)"
| "chain n p _ \<longleftrightarrow> True"

definition queue_of :: "free_queue \<Rightarrow> nat list \<Rightarrow> bool" where
  "queue_of q xs \<longleftrightarrow>
     distinct xs \<and> num_free_blocks q = int (length xs)
     \<and> chain (nxt q) (prv q) (Head # map Blk xs @ [Tail])
     \<and> nxt q Tail = None
     \<and> (\<forall>b. b \<notin> set xs \<longrightarrow> nxt q (Blk b) = None \<and> prv q (Blk b) = None)"

lemma chain_append:
  "chain n p (xs @ a # ys) \<longleftrightarrow> chain n p (xs @ [a]) \<and> chain n p (a # ys)"
proof (induction xs)
  case Nil
  then show ?case by simp
next
  case (Cons x xs)
  then show ?case by (cases xs) auto
qed

lemma chain_nxt_other: "a \<notin> set (butlast ns) \<Longrightarrow> chain (n(a := v)) p ns = chain n p ns"
  by (induction n p ns rule: chain.induct) auto

lemma chain_prv_other: "a \<notin> set (tl ns) \<Longrightarrow> chain n (p(a := v)) ns = chain n p ns"
  by (induction n p ns rule: chain.induct) auto

lemma chain_cong:
  "(\<And>x. x \<in> set (butlast ns) \<Longrightarrow> n' x = n x) \<Longrightarrow> (\<And>x. x \<in> set (tl ns) \<Longrightarrow> p' x = p x) \<Longrightarrow>
   chain n' p' ns = chain n p ns"
  by (induction n p ns rule: chain.induct) auto

lemma chain_unlink:
  assumes "chain n p (A @ a # b # c # B)" "distinct (A @ a # b # c # B)"
  shows "chain (n(a := Some c, b := None)) (p(c := Some a, b := None)) (A @ a # c # B)"
proof -
  let ?n = "n(a := Some c, b := None)" and ?p = "p(c := Some a, b := None)"
  have 1: "chain n p (A @ [a])" "chain n p (c # B)"
    using assms(1) chain_append [of n p A a "b # c # B"] by auto
  have "chain ?n ?p (A @ [a]) = chain n p (A @ [a])"
    using assms(2) by (intro chain_cong) (auto dest: list.set_sel(2) [rotated] split: if_splits)
  moreover have "chain ?n ?p (c # B) = chain n p (c # B)"
    using assms(2) by (intro chain_cong) (auto dest: in_set_butlastD split: if_splits)
  ultimately show ?thesis using 1 assms(2) chain_append [of ?n ?p A a "c # B"] by auto
qed

lemma chain_insert:
  assumes "chain n p (A @ [a, c])" "distinct (A @ [a, b, c])"
  shows "chain (n(a := Some b, b := Some c)) (p(b := Some a, c := Some b)) (A @ [a, b, c])"
proof -
  let ?n = "n(a := Some b, b := Some c)" and ?p = "p(b := Some a, c := Some b)"
  have "chain n p (A @ [a])" using assms(1) chain_append [of n p A a "[c]"] by simp
  moreover have "chain ?n ?p (A @ [a]) = chain n p (A @ [a])"
    using assms(2) by (intro chain_cong) (auto dest: list.set_sel(2) [rotated] split: if_splits)
  ultimately show ?thesis using assms(2) chain_append [of ?n ?p A a "[b, c]"] by auto
qed

lemma distinct_nodes: "distinct (Head # map Blk xs @ [Tail]) = distinct xs"
  by (auto simp: distinct_map inj_on_def)

subsection \<open>Refinement of the operations\<close>

lemma popleft_empty: "queue_of q [] \<Longrightarrow> popleft q = Inl (ValueError ''No free blocks available'')"
  by (simp add: queue_of_def popleft_def)

lemma queue_remove_spec:
  assumes "queue_of q (as @ b # bs)"
  shows "\<exists>q'. queue_remove (Blk b) q = Inr q' \<and> queue_of q' (as @ bs)"
proof -
  obtain A a where A: "Head # map Blk as = A @ [a]" by (metis list.distinct(1) rev_exhaust)
  obtain c B where B: "map Blk bs @ [Tail] = c # B" by (metis Nil_is_append_conv list.exhaust not_Cons_self2)
  have "Head # map Blk (as @ b # bs) @ [Tail] = (Head # map Blk as) @ Blk b # map Blk bs @ [Tail]"
    by simp
  then have L: "Head # map Blk (as @ b # bs) @ [Tail] = A @ a # Blk b # c # B" unfolding A B by simp
  have "Head # map Blk (as @ bs) @ [Tail] = (Head # map Blk as) @ map Blk bs @ [Tail]" by simp
  then have L': "Head # map Blk (as @ bs) @ [Tail] = A @ a # c # B" unfolding A B by simp
  have d: "distinct (A @ a # Blk b # c # B)"
    using assms distinct_nodes [of "as @ b # bs"] unfolding L queue_of_def by simp
  have ch: "chain (nxt q) (prv q) (A @ a # Blk b # c # B)"
    using assms unfolding queue_of_def L by blast
  then have lk: "nxt q (Blk b) = Some c" "prv q (Blk b) = Some a"
    using chain_append [of "nxt q" "prv q" A a "Blk b # c # B"] by auto
  let ?q = "q\<lparr>nxt := (nxt q)(a := Some c, Blk b := None), prv := (prv q)(c := Some a, Blk b := None),
    num_free_blocks := num_free_blocks q - 1\<rparr>"
  have "queue_remove (Blk b) q = Inr ?q" by (simp add: queue_remove_def lk)
  moreover have tail: "a \<noteq> Tail" and out: "\<And>x. x \<notin> set as \<union> set bs \<Longrightarrow> Blk x \<noteq> a \<and> Blk x \<noteq> c"
  proof -
    have "set (A @ [a]) = insert Head (Blk ` set as)" "set (c # B) = insert Tail (Blk ` set bs)"
      by (simp_all flip: A B)
    then have "a \<in> insert Head (Blk ` set as)" "c \<in> insert Tail (Blk ` set bs)" by auto
    then show "a \<noteq> Tail" "\<And>x. x \<notin> set as \<union> set bs \<Longrightarrow> Blk x \<noteq> a \<and> Blk x \<noteq> c" by auto
  qed
  have "queue_of ?q (as @ bs)"
    unfolding queue_of_def L'
    using chain_unlink [OF ch d] assms tail out by (auto simp: queue_of_def)
  ultimately show ?thesis by blast
qed

lemma queue_remove_absent:
  "queue_of q xs \<Longrightarrow> b \<notin> set xs \<Longrightarrow>
   queue_remove (Blk b) q = Inl (RuntimeError ''remove() called on an invalid block'')"
  by (simp add: queue_of_def queue_remove_def)

lemma popleft_spec:
  assumes "queue_of q (x # xs)"
  shows "\<exists>q'. popleft q = Inr (Blk x, q') \<and> queue_of q' xs"
proof -
  have "nxt q Head = Some (Blk x)" "prv q (Blk x) = Some Head"
    using assms by (auto simp: queue_of_def)
  moreover obtain s where "nxt q (Blk x) = Some s"
    using assms by (cases xs) (auto simp: queue_of_def)
  moreover from this have "popleft q = rbind (queue_remove (Blk x) q) (\<lambda>q'. Inr (Blk x, q'))"
    using calculation by (simp add: popleft_def queue_remove_def Let_def)
  ultimately show ?thesis using queue_remove_spec [of q "[]" x xs] assms by auto
qed

lemma queue_append_spec:
  assumes "queue_of q xs" "b \<notin> set xs"
  shows "\<exists>q'. queue_append (Blk b) q = Inr q' \<and> queue_of q' (xs @ [b])"
proof -
  obtain A a where A: "Head # map Blk xs = A @ [a]" by (metis list.distinct(1) rev_exhaust)
  have "Head # map Blk xs @ [Tail] = (Head # map Blk xs) @ [Tail]" by simp
  then have L: "Head # map Blk xs @ [Tail] = A @ [a, Tail]" unfolding A by simp
  have "Head # map Blk (xs @ [b]) @ [Tail] = (Head # map Blk xs) @ [Blk b, Tail]" by simp
  then have L': "Head # map Blk (xs @ [b]) @ [Tail] = A @ [a, Blk b, Tail]" unfolding A by simp
  have d: "distinct (A @ [a, Blk b, Tail])"
    using assms distinct_nodes [of "xs @ [b]"] unfolding L' queue_of_def by simp
  have ch: "chain (nxt q) (prv q) (A @ [a, Tail])" using assms(1) unfolding queue_of_def L by blast
  then have lk: "prv q Tail = Some a" using chain_append [of "nxt q" "prv q" A a "[Tail]"] by simp
  let ?q = "q\<lparr>nxt := (nxt q)(a := Some (Blk b), Blk b := Some Tail),
    prv := (prv q)(Blk b := Some a, Tail := Some (Blk b)), num_free_blocks := num_free_blocks q + 1\<rparr>"
  have "queue_append (Blk b) q = Inr ?q" by (simp add: queue_append_def lk Let_def)
  moreover have "set (A @ [a]) = insert Head (Blk ` set xs)" by (simp flip: A)
  then have "a \<in> insert Head (Blk ` set xs)" by auto
  then have "queue_of ?q (xs @ [b])"
    unfolding queue_of_def L' using chain_insert [OF ch d] assms by (auto simp: queue_of_def)
  ultimately show ?thesis by blast
qed


text \<open>The list a queue represents is unique, so the links determine the order of the blocks.\<close>

lemma chain_unique:
  "chain n p (a # map Blk xs @ [Tail]) \<Longrightarrow> chain n p (a # map Blk ys @ [Tail]) \<Longrightarrow> xs = ys"
proof (induction xs arbitrary: a ys)
  case Nil
  then show ?case by (cases ys) auto
next
  case (Cons x xs)
  then show ?case by (cases ys) auto
qed

lemma queue_of_unique: "queue_of q xs \<Longrightarrow> queue_of q ys \<Longrightarrow> xs = ys"
  unfolding queue_of_def by (blast dest: chain_unique)

lemma collect_free_chain:
  "chain (nxt q) p (map Blk xs @ [Tail]) \<Longrightarrow> nxt q Tail = None \<Longrightarrow>
   collect_free q (hd (map Blk xs @ [Tail])) = Some (map Blk xs)"
proof (induction xs)
  case Nil
  then show ?case by (subst collect_free.simps) simp
next
  case (Cons x xs)
  obtain c B where B: "map Blk xs @ [Tail] = c # B"
    by (metis Nil_is_append_conv list.exhaust not_Cons_self2)
  then have "nxt q (Blk x) = Some c" "collect_free q c = Some (map Blk xs)"
    using Cons by auto
  then show ?case by (subst collect_free.simps) simp
qed

lemma get_all_free_blocks_spec:
  assumes "queue_of q xs"
  shows "get_all_free_blocks q = Inr (Some (map Blk xs))"
proof -
  obtain c B where B: "map Blk xs @ [Tail] = c # B"
    by (metis Nil_is_append_conv list.exhaust not_Cons_self2)
  have "nxt q Head = Some c" "chain (nxt q) (prv q) (map Blk xs @ [Tail])"
    using assms by (auto simp: queue_of_def B)
  then show ?thesis
    using collect_free_chain [of q "prv q" xs] assms
    by (simp add: get_all_free_blocks_def queue_of_def B)
qed

text \<open>The constructor links the blocks in the order of their numbers.\<close>

lemma nxt_linked:
  "k \<le> n \<Longrightarrow> nxt (fold (link_blocks n) [0..<k] q) =
     (\<lambda>m. case m of Blk i \<Rightarrow> if i < k \<and> i + 1 < n then Some (Blk (i + 1)) else nxt q m | _ \<Rightarrow> nxt q m)"
  by (induction k) (auto simp: fun_eq_iff link_blocks_def Let_def split: node.splits)

lemma prv_linked:
  "k \<le> n \<Longrightarrow> prv (fold (link_blocks n) [0..<k] q) =
     (\<lambda>m. case m of Blk i \<Rightarrow> if i < k \<and> 0 < i then Some (Blk (i - 1)) else prv q m | _ \<Rightarrow> prv q m)"
  by (induction k) (auto simp: fun_eq_iff link_blocks_def Let_def split: node.splits)

lemma num_linked: "num_free_blocks (fold (link_blocks n) ks q) = num_free_blocks q"
  by (induction ks arbitrary: q) (auto simp: link_blocks_def Let_def)

lemma chain_upt:
  assumes "\<And>i. i + 1 < n \<Longrightarrow> N (Blk i) = Some (Blk (i + 1)) \<and> P (Blk (i + 1)) = Some (Blk i)"
    and "\<And>m. n = Suc m \<Longrightarrow> N (Blk m) = Some Tail \<and> P Tail = Some (Blk m)"
    and "j \<le> n"
  shows "chain N P (map Blk [j..<n] @ [Tail])"
  using assms(3)
proof (induction "n - j" arbitrary: j)
  case 0
  then show ?case by simp
next
  case (Suc d)
  then have j: "j < n" and ih: "chain N P (map Blk [Suc j..<n] @ [Tail])" by auto
  show ?case
  proof (cases "Suc j = n")
    case True
    then have "[j..<n] = [j]" by (simp add: upt_rec)
    then show ?thesis using assms(2) [of j] True by simp
  next
    case False
    then have "[j..<n] = j # Suc j # [Suc (Suc j)..<n]" "[Suc j..<n] = Suc j # [Suc (Suc j)..<n]"
      using j by (simp_all add: upt_rec)
    then show ?thesis using ih assms(1) [of j] j False by simp
  qed
qed

lemma queue_init_spec: "queue_of (queue_init n) [0..<n]"
proof (cases n)
  case 0
  then show ?thesis by (simp add: queue_init_def queue_of_def)
next
  case (Suc m)
  have u: "[0..<n] = 0 # [Suc 0..<n]" by (simp add: Suc upt_rec)
  have "chain (nxt (queue_init n)) (prv (queue_init n)) (map Blk [0..<n] @ [Tail])"
    by (rule chain_upt) (auto simp: queue_init_def Let_def Suc nxt_linked prv_linked simp del: upt_Suc)
  moreover have "nxt (queue_init n) Head = Some (Blk 0)" "prv (queue_init n) (Blk 0) = Some Head"
    by (auto simp: queue_init_def Let_def Suc simp del: upt_Suc)
  ultimately have "chain (nxt (queue_init n)) (prv (queue_init n)) (Head # map Blk [0..<n] @ [Tail])"
    by (simp add: u del: upt_Suc)
  then show ?thesis
    by (auto simp: queue_of_def queue_init_def Let_def Suc nxt_linked prv_linked num_linked simp del: upt_Suc)
qed

text \<open>Popping several blocks: the loop clears the links of the blocks it passes and stops at the
  first block that stays.\<close>

lemma pop_loop_chain:
  assumes "chain (nxt q) (prv q) (map Blk (xs @ ys) @ [Tail])" "distinct (xs @ ys)"
  shows "pop_loop (length xs) (Some (hd (map Blk (xs @ ys) @ [Tail]))) q =
    Inr (map Blk xs, Some (hd (map Blk ys @ [Tail])),
         q\<lparr>nxt := (\<lambda>m. if m \<in> Blk ` set xs then None else nxt q m),
           prv := (\<lambda>m. if m \<in> Blk ` set xs then None else prv q m)\<rparr>)"
  using assms
proof (induction xs arbitrary: q)
  case Nil
  then show ?case by simp
next
  case (Cons x xs)
  obtain c B where B: "map Blk (xs @ ys) @ [Tail] = c # B"
    by (metis Nil_is_append_conv list.exhaust not_Cons_self2)
  let ?q = "set_nxt (Blk x) None (set_prv (Blk x) None q)"
  have x: "nxt q (Blk x) = Some c" and ch: "chain (nxt q) (prv q) (map Blk (xs @ ys) @ [Tail])"
    using Cons.prems(1) B by auto
  have "Blk x \<notin> set (map Blk (xs @ ys) @ [Tail])" using Cons.prems(2) by auto
  then have "chain (nxt ?q) (prv ?q) (map Blk (xs @ ys) @ [Tail])"
    using ch by (simp add: chain_nxt_other chain_prv_other B del: map_append)
      (metis (no_types, lifting) chain_nxt_other chain_prv_other in_set_butlastD list.set_intros(2)
        list.sel(3) set_ConsD)
  moreover have "distinct (xs @ ys)" using Cons.prems(2) by simp
  ultimately have ih: "pop_loop (length xs) (Some (hd (map Blk (xs @ ys) @ [Tail]))) ?q =
    Inr (map Blk xs, Some (hd (map Blk ys @ [Tail])),
         ?q\<lparr>nxt := (\<lambda>m. if m \<in> Blk ` set xs then None else nxt ?q m),
           prv := (\<lambda>m. if m \<in> Blk ` set xs then None else prv ?q m)\<rparr>)"
    by (rule Cons.IH)
  have cut: "(\<lambda>m. if m \<in> Blk ` set xs then None else (f(Blk x := None)) m) =
      (\<lambda>m. if m \<in> Blk ` set (x # xs) then None else f m)" for f :: "node \<Rightarrow> node option"
    by (auto simp: fun_eq_iff)
  show ?case
    using ih cut [of "nxt q"] cut [of "prv q"] x B by (simp cong: if_cong)
qed

lemma popleft_n_spec:
  assumes "queue_of q (xs @ ys)"
  shows "\<exists>q'. popleft_n (length xs) q = Inr (map Blk xs, q') \<and> queue_of q' ys"
proof (cases "xs = []")
  case True
  then show ?thesis using assms by (auto simp: popleft_n_def)
next
  case False
  obtain c B where B: "map Blk ys @ [Tail] = c # B"
    by (metis Nil_is_append_conv list.exhaust not_Cons_self2)
  let ?q0 = "q\<lparr>num_free_blocks := num_free_blocks q - int (length xs)\<rparr>"
  let ?cut = "\<lambda>f m. if m \<in> Blk ` set xs then None else f m"
  let ?n = "(?cut (nxt q))(Head := Some c)" and ?p = "(?cut (prv q))(c := Some Head)"
  have ch: "chain (nxt q) (prv q) (Head # map Blk (xs @ ys) @ [Tail])" and d: "distinct (xs @ ys)"
    using assms by (simp_all add: queue_of_def)
  then have ch0: "chain (nxt ?q0) (prv ?q0) (map Blk (xs @ ys) @ [Tail])"
    and first: "nxt q Head = Some (hd (map Blk (xs @ ys) @ [Tail]))"
    using False by (cases xs; simp)+
  have "popleft_n (length xs) q =
    Inr (map Blk xs, ?q0\<lparr>nxt := ?n, prv := ?p\<rparr>)"
    using pop_loop_chain [OF ch0 d] False assms
    by (simp add: popleft_n_def first B queue_of_def cong: if_cong)
  moreover have "queue_of (?q0\<lparr>nxt := ?n, prv := ?p\<rparr>) ys"
  proof -
    have "chain (nxt q) (prv q) (c # B)"
      using ch0 chain_append [of "nxt q" "prv q" "map Blk xs" c B] B by simp
    moreover have "set (c # B) = insert Tail (Blk ` set ys)" by (simp flip: B)
    moreover have "distinct (c # B)" using d by (auto simp: distinct_map inj_on_def simp flip: B)
    ultimately have "chain ?n ?p (c # B) = chain (nxt q) (prv q) (c # B)"
      using d by (intro chain_cong) (auto dest: in_set_butlastD split: if_splits)
    with \<open>chain (nxt q) (prv q) (c # B)\<close> have "chain ?n ?p (Head # map Blk ys @ [Tail])"
      by (simp add: B)
    moreover have "c \<in> insert Tail (Blk ` set ys)" using \<open>set (c # B) = _\<close> by auto
    ultimately show ?thesis using assms by (auto simp: queue_of_def)
  qed
  ultimately show ?thesis by blast
qed

lemma popleft_n_short:
  "queue_of q xs \<Longrightarrow> length xs < n \<Longrightarrow> popleft_n n q = Inl AssertionError"
  by (simp add: popleft_n_def queue_of_def)

text \<open>Appending several blocks has the effect of appending them one by one.\<close>

definition close_tail :: "node \<Rightarrow> int \<Rightarrow> free_queue \<Rightarrow> free_queue" where
  "close_tail l k q =
     (let q1 = set_prv Tail (Some l) (set_nxt l (Some Tail) q)
      in q1\<lparr>num_free_blocks := num_free_blocks q1 + k\<rparr>)"

lemma rfold_append_loop:
  "Tail \<notin> set bs \<Longrightarrow> l \<noteq> Tail \<Longrightarrow>
   rfold queue_append bs (close_tail l k q) =
     Inr (case append_loop bs l q of (l', q') \<Rightarrow> close_tail l' (k + int (length bs)) q')"
proof (induction bs arbitrary: l k q)
  case Nil
  then show ?case by simp
next
  case (Cons b bs)
  have "queue_append b (close_tail l k q) =
      Inr (close_tail b (k + 1) (set_nxt l (Some b) (set_prv b (Some l) q)))"
    using Cons.prems by (auto simp: queue_append_def close_tail_def Let_def fun_upd_twist)
  moreover have "b \<noteq> Tail" "Tail \<notin> set bs" using Cons.prems by auto
  ultimately show ?case using Cons.IH by (simp add: add.assoc)
qed

lemma append_n_is_appends:
  assumes "queue_of q xs"
  shows "append_n (map Blk bs) q = rfold queue_append (map Blk bs) q"
proof (cases "bs = []")
  case True
  then show ?thesis by (simp add: append_n_def)
next
  case False
  obtain A a where A: "Head # map Blk xs = A @ [a]" by (metis list.distinct(1) rev_exhaust)
  have "Head # map Blk xs @ [Tail] = (Head # map Blk xs) @ [Tail]" by simp
  then have L: "Head # map Blk xs @ [Tail] = A @ [a, Tail]" unfolding A by simp
  have "chain (nxt q) (prv q) (A @ [a, Tail])" using assms unfolding queue_of_def L by blast
  then have l: "prv q Tail = Some a" "nxt q a = Some Tail"
    using chain_append [of "nxt q" "prv q" A a "[Tail]"] by auto
  have "set (A @ [a]) = insert Head (Blk ` set xs)" by (simp flip: A)
  then have "a \<noteq> Tail" by auto
  moreover have "close_tail a 0 q = q" using l by (simp add: close_tail_def Let_def fun_upd_idem)
  ultimately show ?thesis
    using rfold_append_loop [of "map Blk bs" a 0 q] False l
    by (simp add: append_n_def image_iff close_tail_def Let_def split: prod.splits)
qed

lemma append_n_spec:
  assumes "queue_of q xs" "distinct bs" "set bs \<inter> set xs = {}"
  shows "\<exists>q'. append_n (map Blk bs) q = Inr q' \<and> queue_of q' (xs @ bs)"
proof -
  have "\<exists>q'. rfold queue_append (map Blk bs) q = Inr q' \<and> queue_of q' (xs @ bs)"
    using assms
  proof (induction bs arbitrary: q xs)
    case Nil
    then show ?case by simp
  next
    case (Cons b bs)
    then obtain q1 where q1: "queue_append (Blk b) q = Inr q1" "queue_of q1 (xs @ [b])"
      using queue_append_spec [of q xs b] by auto
    then show ?case using Cons.IH [OF q1(2)] Cons.prems by auto
  qed
  then show ?thesis using append_n_is_appends [OF assms(1)] by simp
qed

subsection \<open>The contract of a free list\<close>

text \<open>What the block pool relies on: a queue represents a duplicate-free list of blocks, blocks
  leave it at the front or by name, and come back at the end.\<close>

locale free_list =
  fixes represents :: "'q \<Rightarrow> nat list \<Rightarrow> bool"
    and init :: "nat \<Rightarrow> 'q"
    and pop :: "'q \<Rightarrow> (node \<times> 'q) res"
    and pop_n :: "nat \<Rightarrow> 'q \<Rightarrow> (node list \<times> 'q) res"
    and remove :: "node \<Rightarrow> 'q \<Rightarrow> 'q res"
    and app_n :: "node list \<Rightarrow> 'q \<Rightarrow> 'q res"
    and count :: "'q \<Rightarrow> int"
  assumes init: "represents (init n) [0..<n]"
    and pop: "represents q (x # xs) \<Longrightarrow> \<exists>q'. pop q = Inr (Blk x, q') \<and> represents q' xs"
    and pop_n: "represents q (xs @ ys) \<Longrightarrow>
      \<exists>q'. pop_n (length xs) q = Inr (map Blk xs, q') \<and> represents q' ys"
    and pop_n_short: "represents q xs \<Longrightarrow> length xs < n \<Longrightarrow> pop_n n q = Inl AssertionError"
    and remove: "represents q (xs @ x # ys) \<Longrightarrow>
      \<exists>q'. remove (Blk x) q = Inr q' \<and> represents q' (xs @ ys)"
    and app_n: "represents q xs \<Longrightarrow> distinct bs \<Longrightarrow> set bs \<inter> set xs = {} \<Longrightarrow>
      \<exists>q'. app_n (map Blk bs) q = Inr q' \<and> represents q' (xs @ bs)"
    and count: "represents q xs \<Longrightarrow> count q = int (length xs)"
    and distinct: "represents q xs \<Longrightarrow> distinct xs"
    and unique: "represents q xs \<Longrightarrow> represents q ys \<Longrightarrow> xs = ys"
begin

lemma pop_n_take:
  assumes "represents q xs" "n \<le> length xs"
  shows "\<exists>q'. pop_n n q = Inr (map Blk (take n xs), q') \<and> represents q' (drop n xs)"
  using pop_n [of q "take n xs" "drop n xs"] assms by simp

lemma pop_n_complete:
  "represents q xs \<Longrightarrow> (\<exists>bs q'. pop_n n q = Inr (bs, q')) \<longleftrightarrow> n \<le> length xs"
  by (metis Inl_Inr_False linorder_not_le pop_n_short pop_n_take)

lemma remove_filter:
  assumes "represents q xs" "x \<in> set xs"
  shows "\<exists>q'. remove (Blk x) q = Inr q' \<and> represents q' (filter (\<lambda>y. y \<noteq> x) xs)"
proof -
  obtain as bs where xs: "xs = as @ x # bs" using assms(2) by (metis split_list)
  then have "filter (\<lambda>y. y \<noteq> x) xs = as @ bs"
    using distinct [OF assms(1)] by (auto intro!: filter_True arg_cong2 [of _ _ _ _ "(@)"])
  then show ?thesis using remove [of q as x bs] assms(1) xs by simp
qed

lemma pop_is_pop_one:
  assumes "represents q (x # xs)"
  shows "\<exists>q1 q2. pop q = Inr (Blk x, q1) \<and> pop_n 1 q = Inr ([Blk x], q2)
    \<and> represents q1 xs \<and> represents q2 xs"
  using pop [OF assms] pop_n [of q "[x]" xs] assms by auto

text \<open>Blocks that are taken and given back in reverse order end at the back, the last one first:
  the eviction order the pool wants for the blocks of one request.\<close>

lemma pop_then_free:
  assumes "represents q (xs @ ys)"
  shows "\<exists>q' q''. pop_n (length xs) q = Inr (map Blk xs, q')
    \<and> app_n (rev (map Blk xs)) q' = Inr q'' \<and> represents q'' (ys @ rev xs)"
proof -
  obtain q' where q': "pop_n (length xs) q = Inr (map Blk xs, q')" "represents q' ys"
    using pop_n [OF assms] by blast
  then show ?thesis
    using app_n [of q' ys "rev xs"] distinct [OF assms] by (auto simp: rev_map)
qed

end

interpretation fq: free_list queue_of queue_init popleft popleft_n queue_remove append_n
  num_free_blocks
proof (unfold_locales, goal_cases)
  case (2 q x xs)
  then show ?case by (rule popleft_spec)
next
  case (3 q xs ys)
  then show ?case by (rule popleft_n_spec)
next
  case (5 q xs x ys)
  then show ?case by (rule queue_remove_spec)
next
  case (6 q xs bs)
  then show ?case by (rule append_n_spec)
next
  case (9 q xs ys)
  then show ?case by (rule queue_of_unique)
next
  case (7 q xs)
  then show ?case by (simp add: queue_of_def)
next
  case (8 q xs)
  then show ?case by (simp add: queue_of_def)
qed (auto simp: queue_init_spec popleft_n_short)

subsection \<open>Properties\<close>

text \<open>\<^bold>\<open>C38\<close>. Popping \<open>n\<close> blocks from the links refines taking a prefix of the list they represent: when
  at least \<open>n\<close> blocks are free the call returns the first \<open>n\<close> in order, and the links represent the
  remaining list; otherwise it raises the assertion error and there is no other outcome.\<close>

theorem popleft_n_refines:
  "queue_of q xs \<Longrightarrow>
   (case popleft_n n q of
      Inr (bs, q') \<Rightarrow> n \<le> length xs \<and> bs = map Blk (take n xs) \<and> queue_of q' (drop n xs)
    | Inl e \<Rightarrow> length xs < n \<and> e = AssertionError)"
  using fq.pop_n_take [of q xs n] fq.pop_n_short [of q xs n] by (cases "n \<le> length xs") auto

theorem popleft_n_refines_witness:
  "queue_of (queue_init 3) [0..<3] \<and>
   (case popleft_n 2 (queue_init 3) of
      Inr (bs, q') \<Rightarrow> 2 \<le> length [0..<3] \<and> bs = map Blk (take 2 [0..<3]) \<and> queue_of q' (drop 2 [0..<3])
    | Inl e \<Rightarrow> length [0..<3] < 2 \<and> e = AssertionError)"
  using popleft_n_refines [of "queue_init 3" "[0..<3]" 2] queue_init_spec [of 3] by simp

end
