(* ===== verification/Block_Hash.thy ===== *)
theory Block_Hash
  imports Prelude
begin

section \<open>Block hashes\<close>

text \<open>
  The hashing part of \<^verbatim>\<open>vllm/v1/core/kv_cache_utils.py\<close>: keys that pack a block hash with the number
  of its cache group, the extra keys of multi-modal, adapter, salt and embedding inputs, the chained
  hash of the full blocks of a request, and the view of hashes at a larger block size. The hash
  function, its seed \<open>NONE_HASH\<close> and the digest of a slice of the prompt
  embeddings are parameters.
\<close>

subsection \<open>Hash keys with a group number\<close>

definition to_bytes4 :: "nat \<Rightarrow> bytes res" where
  "to_bytes4 g =
     (if g < 2 ^ 32
      then Inr [of_nat (g div 2 ^ 24), of_nat (g div 2 ^ 16), of_nat (g div 2 ^ 8), of_nat g]
      else Inl OverflowError)"

definition from_bytes :: "bytes \<Rightarrow> nat" where
  "from_bytes bs = fold (\<lambda>b acc. acc * 256 + unat b) bs 0"

definition make_block_hash_with_group_id :: "bytes \<Rightarrow> nat \<Rightarrow> bytes res" where
  "make_block_hash_with_group_id block_hash group_id =
     rbind (to_bytes4 group_id) (\<lambda>g. Inr (block_hash @ g))"

definition get_block_hash :: "bytes \<Rightarrow> bytes" where
  "get_block_hash key = take (length key - 4) key"

definition get_group_id :: "bytes \<Rightarrow> nat" where
  "get_group_id key = from_bytes (drop (length key - 4) key)"

datatype external_block_hash = HashBytes bytes | HashInt nat

definition maybe_convert_block_hash :: "bool \<Rightarrow> bytes \<Rightarrow> external_block_hash" where
  "maybe_convert_block_hash use_int h =
     (if \<not> use_int then HashBytes h else HashInt (from_bytes h mod 2 ^ 64))"

subsection \<open>Extra keys of a block\<close>

record mm_feature =
  mm_identifier :: "string option"
  mm_offset :: nat
  mm_length :: nat

record hash_request =
  mm_features :: "mm_feature list"
  lora_request :: "(string \<times> int) option"
  cache_salt :: "string option"
  prompt_embeds :: "(nat \<Rightarrow> nat \<Rightarrow> bytes) option"
  prompt_embeds_per_block_hashes :: "((nat \<times> nat) \<times> bytes) list"
  all_token_ids :: "int list"
  block_hashes :: "bytes list"

text \<open>The values of the tuple of extra keys: a pair of an identifier and a relative offset, a
  string (adapter name or salt) or a digest.\<close>

datatype extra_key = KeyPair string int | KeyStr string | KeyBytes bytes

definition need_extra_keys :: "hash_request \<Rightarrow> bool" where
  "need_extra_keys r \<longleftrightarrow> mm_features r \<noteq> [] \<or> lora_request r \<noteq> None \<or> cache_salt r \<noteq> None"

function mm_loop :: "mm_feature list \<Rightarrow> nat \<Rightarrow> nat \<Rightarrow> nat \<Rightarrow> (extra_key list \<times> nat) res" where
  "mm_loop fs s e curr_mm_idx =
     (if curr_mm_idx < length fs then
        (let f = fs ! curr_mm_idx; off = mm_offset f; len = mm_length f
         in case mm_identifier f of
              None \<Rightarrow> Inl AssertionError
            | Some i \<Rightarrow>
                if e > off then
                  if s \<ge> off + len then mm_loop fs s e (curr_mm_idx + 1)
                  else if e \<ge> off + len then
                    rbind (mm_loop fs s e (curr_mm_idx + 1))
                      (\<lambda>(ks, c). Inr (KeyPair i (int off - int s) # ks, c))
                  else Inr ([KeyPair i (int off - int s)], curr_mm_idx)
                else Inr ([], curr_mm_idx))
      else Inr ([], curr_mm_idx))"
  by pat_completeness auto
termination by (relation "measure (\<lambda>(fs, s, e, c). length fs - c)") auto

declare mm_loop.simps [simp del]

definition gen_mm_extra_hash_keys ::
  "hash_request \<Rightarrow> nat \<Rightarrow> nat \<Rightarrow> int \<Rightarrow> (extra_key list \<times> int) res" where
  "gen_mm_extra_hash_keys r s e start_mm_idx =
     (let fs = mm_features r in
      if fs = [] then Inr ([], start_mm_idx)
      else if mm_offset (last fs) + mm_length (last fs) \<le> s then Inr ([], start_mm_idx)
      else
        py_assert (start_mm_idx < 0 \<longrightarrow> - start_mm_idx \<le> int (length fs))
          (let c = (if start_mm_idx < 0 then int (length fs) + start_mm_idx else start_mm_idx)
           in rbind (mm_loop fs s e (nat c)) (\<lambda>(ks, c'). Inr (ks, int c'))))"

definition gen_lora_extra_hash_keys :: "hash_request \<Rightarrow> extra_key list" where
  "gen_lora_extra_hash_keys r =
     (case lora_request r of None \<Rightarrow> [] | Some (name, _) \<Rightarrow> [KeyStr name])"

definition gen_prompt_embeds_extra_hash_keys ::
  "hash_request \<Rightarrow> nat \<Rightarrow> nat \<Rightarrow> extra_key list \<times> hash_request" where
  "gen_prompt_embeds_extra_hash_keys r s e =
     (case prompt_embeds r of
        None \<Rightarrow> ([], r)
      | Some digest \<Rightarrow>
          (case map_of (prompt_embeds_per_block_hashes r) (s, e) of
             Some h \<Rightarrow> ([KeyBytes h], r)
           | None \<Rightarrow>
               (let h = digest s e
                in ([KeyBytes h],
                    r\<lparr>prompt_embeds_per_block_hashes :=
                        AList.update (s, e) h (prompt_embeds_per_block_hashes r)\<rparr>))))"

definition salt_keys :: "hash_request \<Rightarrow> nat \<Rightarrow> extra_key list" where
  "salt_keys r s =
     (case cache_salt r of
        Some salt \<Rightarrow> if s = 0 \<and> salt \<noteq> [] then [KeyStr salt] else []
      | None \<Rightarrow> [])"

definition generate_block_hash_extra_keys ::
  "hash_request \<Rightarrow> nat \<Rightarrow> nat \<Rightarrow> int \<Rightarrow> ((extra_key list option \<times> int) \<times> hash_request) res" where
  "generate_block_hash_extra_keys r s e start_mm_idx =
     rbind (gen_mm_extra_hash_keys r s e start_mm_idx)
       (\<lambda>(mm_keys, idx).
          let (embeds_keys, r') = gen_prompt_embeds_extra_hash_keys r s e;
              keys = gen_lora_extra_hash_keys r @ mm_keys @ salt_keys r s @ embeds_keys
          in Inr ((if keys = [] then None else Some keys, idx), r'))"

subsection \<open>The chained hash of a request\<close>

type_synonym hash_function = "bytes \<times> int list \<times> extra_key list option \<Rightarrow> bytes"

definition hash_block_tokens ::
  "bytes \<Rightarrow> hash_function \<Rightarrow> bytes option \<Rightarrow> int list \<Rightarrow> extra_key list option \<Rightarrow> bytes" where
  "hash_block_tokens NONE_HASH hash_fn parent tokens extra =
     (let p = (case parent of None \<Rightarrow> NONE_HASH | Some h \<Rightarrow> if h = [] then NONE_HASH else h)
      in hash_fn (p, tokens, extra))"

text \<open>The \<open>while True\<close> loop of the hasher; with a block size of zero it would not end, which is the
  value \<open>None\<close>.\<close>

partial_function (option) hash_loop ::
  "bytes \<Rightarrow> hash_function \<Rightarrow> nat \<Rightarrow> nat \<Rightarrow> int \<Rightarrow> bytes option \<Rightarrow> hash_request \<Rightarrow>
   (bytes list \<times> hash_request) res option" where
  [code]: "hash_loop NONE_HASH hash_fn block_size s mm_idx prev r =
     (let e = s + block_size in
      if e > length (all_token_ids r) then Some (Inr ([], r))
      else case generate_block_hash_extra_keys r s e mm_idx of
             Inl err \<Rightarrow> Some (Inl err)
           | Inr ((extra, mm_idx'), r') \<Rightarrow>
               (let h = hash_block_tokens NONE_HASH hash_fn prev
                          (take block_size (drop s (all_token_ids r))) extra
                in Option.bind (hash_loop NONE_HASH hash_fn block_size e mm_idx' (Some h) r')
                     (\<lambda>res. Some (rbind res (\<lambda>(hs, r''). Inr (h # hs, r''))))))"

definition request_block_hasher ::
  "bytes \<Rightarrow> hash_function \<Rightarrow> nat \<Rightarrow> hash_request \<Rightarrow> (bytes list \<times> hash_request) res option" where
  "request_block_hasher NONE_HASH hash_fn block_size r =
     (let s = length (block_hashes r) * block_size in
      if s + block_size > length (all_token_ids r) then Some (Inr ([], r))
      else hash_loop NONE_HASH hash_fn block_size s (if s > 0 then -1 else 0)
             (if block_hashes r = [] then None else Some (last (block_hashes r))) r)"

definition update_block_hashes ::
  "bytes \<Rightarrow> hash_function \<Rightarrow> nat \<Rightarrow> hash_request \<Rightarrow> hash_request res option" where
  "update_block_hashes NONE_HASH hash_fn block_size r =
     Option.bind (request_block_hasher NONE_HASH hash_fn block_size r)
       (\<lambda>res. Some (rbind res (\<lambda>(hs, r'). Inr (r'\<lparr>block_hashes := block_hashes r' @ hs\<rparr>))))"

definition append_output_token_ids ::
  "bytes \<Rightarrow> hash_function \<Rightarrow> nat \<Rightarrow> int list \<Rightarrow> hash_request \<Rightarrow> hash_request res option" where
  "append_output_token_ids NONE_HASH hash_fn block_size tokens r =
     update_block_hashes NONE_HASH hash_fn block_size (r\<lparr>all_token_ids := all_token_ids r @ tokens\<rparr>)"

subsection \<open>Hashes at a larger block size\<close>

record block_hash_list =
  base_hashes :: "bytes list"
  scale_factor :: nat

definition BlockHashListWithBlockSize :: "bytes list \<Rightarrow> nat \<Rightarrow> nat \<Rightarrow> block_hash_list res" where
  "BlockHashListWithBlockSize hashes hash_block_size target_block_size =
     (if hash_block_size = 0 then Inl ZeroDivisionError
      else py_assert (target_block_size mod hash_block_size = 0)
        (Inr \<lparr>base_hashes = hashes, scale_factor = target_block_size div hash_block_size\<rparr>))"

definition bhl_len :: "block_hash_list \<Rightarrow> nat res" where
  "bhl_len l =
     (if scale_factor l = 0 then Inl ZeroDivisionError
      else Inr (length (base_hashes l) div scale_factor l))"

definition get_value_at :: "block_hash_list \<Rightarrow> nat \<Rightarrow> bytes" where
  "get_value_at l idx =
     (let base = idx * scale_factor l in concat (take (scale_factor l) (drop base (base_hashes l))))"

definition bhl_from :: "block_hash_list \<Rightarrow> nat \<Rightarrow> bytes list res" where
  "bhl_from l start = rbind (bhl_len l) (\<lambda>n. Inr (map (get_value_at l) [start..<n]))"

subsection \<open>Keys: packing and unpacking\<close>

lemma from_bytes4:
  "from_bytes [a, b, c, d] = unat a * 2 ^ 24 + unat b * 2 ^ 16 + unat c * 2 ^ 8 + unat d"
  by (simp add: from_bytes_def)

lemma unat_byte: "unat (of_nat n :: 8 word) = n mod 256"
  by (simp add: unat_of_nat)

lemma from_to_bytes4: "to_bytes4 g = Inr bs \<Longrightarrow> from_bytes bs = g \<and> length bs = 4"
proof -
  assume "to_bytes4 g = Inr bs"
  then have g: "g < 2 ^ 32"
    and bs: "bs = [of_nat (g div 2 ^ 24), of_nat (g div 2 ^ 16), of_nat (g div 2 ^ 8), of_nat g]"
    by (auto simp: to_bytes4_def split: if_splits)
  have "from_bytes bs = (g div 2 ^ 24 mod 256) * 2 ^ 24 + (g div 2 ^ 16 mod 256) * 2 ^ 16
      + (g div 2 ^ 8 mod 256) * 2 ^ 8 + g mod 256"
    unfolding bs from_bytes4 unat_byte by simp
  also have "\<dots> = g"
  proof -
    define a where "a = g div 256"
    define b where "b = a div 256"
    define c where "c = b div 256"
    have "g = a * 256 + g mod 256" "a = b * 256 + a mod 256" "b = c * 256 + b mod 256"
      unfolding a_def b_def c_def by simp_all
    moreover have "c < 256" using g unfolding a_def b_def c_def by simp
    moreover have "g div 2 ^ 8 = a" "g div 2 ^ 16 = b" "g div 2 ^ 24 = c"
      unfolding a_def b_def c_def by (simp_all flip: div_mult2_eq)
    ultimately show ?thesis by simp
  qed
  finally show ?thesis by (simp add: bs)
qed

subsection \<open>Extra keys of multi-modal inputs\<close>

definition mm_end :: "mm_feature \<Rightarrow> nat" where
  "mm_end f = mm_offset f + mm_length f"

definition mm_wf :: "mm_feature list \<Rightarrow> bool" where
  "mm_wf fs \<longleftrightarrow> sorted_wrt (\<lambda>f g. mm_end f \<le> mm_offset g) fs
     \<and> list_all (\<lambda>f. mm_identifier f \<noteq> None \<and> 0 < mm_length f) fs"

definition overlaps :: "nat \<Rightarrow> nat \<Rightarrow> mm_feature \<Rightarrow> bool" where
  "overlaps s e f \<longleftrightarrow> mm_offset f < e \<and> s < mm_end f"

definition mm_key :: "nat \<Rightarrow> mm_feature \<Rightarrow> extra_key" where
  "mm_key s f = KeyPair (the (mm_identifier f)) (int (mm_offset f) - int s)"

lemma mm_wf_later:
  "mm_wf fs \<Longrightarrow> i < j \<Longrightarrow> j < length fs \<Longrightarrow> mm_end (fs ! i) \<le> mm_offset (fs ! j)"
  by (simp add: mm_wf_def sorted_wrt_iff_nth_less)

lemma mm_wf_nth:
  "mm_wf fs \<Longrightarrow> i < length fs \<Longrightarrow> \<exists>x. mm_identifier (fs ! i) = Some x \<and> 0 < mm_length (fs ! i)"
  by (auto simp: mm_wf_def list_all_length)

lemma no_later_overlap:
  assumes "mm_wf fs" "c < length fs" "e \<le> mm_end (fs ! c)"
  shows "filter (overlaps s e) (drop (Suc c) fs) = []"
proof -
  have "\<not> overlaps s e f" if f: "f \<in> set (drop (Suc c) fs)" for f
  proof -
    from f obtain i where "i < length (drop (Suc c) fs)" "f = drop (Suc c) fs ! i"
      by (auto simp: in_set_conv_nth)
    then have "f = fs ! (Suc c + i)" "Suc c + i < length fs" by auto
    then show ?thesis using mm_wf_later [OF assms(1), of c "Suc c + i"] assms(3)
      by (auto simp: overlaps_def)
  qed
  then show ?thesis by (simp add: filter_empty_conv)
qed

lemma mm_loop_spec:
  assumes "mm_wf fs" "s < e" "c \<le> length fs"
  shows "\<exists>c'. mm_loop fs s e c = Inr (map (mm_key s) (filter (overlaps s e) (drop c fs)), c')
    \<and> c \<le> c' \<and> c' \<le> length fs \<and> (\<forall>i. c \<le> i \<and> i < c' \<longrightarrow> mm_end (fs ! i) \<le> e)"
  using assms(3)
proof (induction "length fs - c" arbitrary: c)
  case 0
  then show ?case by (subst mm_loop.simps) auto
next
  case (Suc n)
  then have c: "c < length fs" by simp
  then obtain x where x: "mm_identifier (fs ! c) = Some x" and pos: "0 < mm_length (fs ! c)"
    using mm_wf_nth [OF assms(1)] by blast
  have d: "drop c fs = fs ! c # drop (Suc c) fs" using c by (simp add: Cons_nth_drop_Suc)
  have n: "n = length fs - Suc c" using Suc.hyps(2) by arith
  obtain c' where c': "mm_loop fs s e (Suc c) =
      Inr (map (mm_key s) (filter (overlaps s e) (drop (Suc c) fs)), c')"
    "Suc c \<le> c'" "c' \<le> length fs" "\<And>i. Suc c \<le> i \<Longrightarrow> i < c' \<Longrightarrow> mm_end (fs ! i) \<le> e"
    using Suc.hyps(1) [OF n] c by auto
  have upto: "\<forall>i. c \<le> i \<and> i < c' \<longrightarrow> mm_end (fs ! i) \<le> e" if "mm_end (fs ! c) \<le> e"
    using c'(4) that by (metis Suc_leI le_neq_implies_less)
  consider (before) "e \<le> mm_offset (fs ! c)" | (past) "mm_offset (fs ! c) < e" "mm_end (fs ! c) \<le> s"
    | (inside) "mm_offset (fs ! c) < e" "s < mm_end (fs ! c)" "mm_end (fs ! c) \<le> e"
    | (cut) "mm_offset (fs ! c) < e" "s < mm_end (fs ! c)" "e < mm_end (fs ! c)"
    by linarith
  then show ?case
  proof cases
    case before
    then have "filter (overlaps s e) (drop (Suc c) fs) = []"
      using no_later_overlap [OF assms(1) c] by (simp add: mm_end_def)
    with before show ?thesis using c x by (subst mm_loop.simps) (auto simp: d overlaps_def)
  next
    case past
    then show ?thesis using c x c' assms(2) upto
      by (subst mm_loop.simps) (auto simp: d overlaps_def mm_end_def)
  next
    case inside
    then show ?thesis using c x c' upto
      by (subst mm_loop.simps) (auto simp: d overlaps_def mm_end_def mm_key_def)
  next
    case cut
    then have "filter (overlaps s e) (drop (Suc c) fs) = []"
      using no_later_overlap [OF assms(1) c] by simp
    with cut show ?thesis using c x
      by (subst mm_loop.simps) (auto simp: d overlaps_def mm_end_def mm_key_def)
  qed
qed

text \<open>A start index is valid for a position when every feature before it has ended there; a
  negative one counts from the end of the list.\<close>

definition mm_index :: "mm_feature list \<Rightarrow> int \<Rightarrow> int" where
  "mm_index fs i = (if i < 0 then int (length fs) + i else i)"

definition mm_index_ok :: "mm_feature list \<Rightarrow> nat \<Rightarrow> int \<Rightarrow> bool" where
  "mm_index_ok fs s i \<longleftrightarrow>
     fs = [] \<or> (0 \<le> mm_index fs i \<and> mm_index fs i \<le> int (length fs)
       \<and> (\<forall>j < nat (mm_index fs i). mm_end (fs ! j) \<le> s))"

lemma mm_index_ok_mono: "mm_index_ok fs s i \<Longrightarrow> s \<le> e \<Longrightarrow> mm_index_ok fs e i"
  unfolding mm_index_ok_def by (meson order_trans)

lemma filter_overlaps_skip:
  assumes "\<And>j. j < c \<Longrightarrow> mm_end (fs ! j) \<le> s" "c \<le> length fs"
  shows "filter (overlaps s e) fs = filter (overlaps s e) (drop c fs)"
proof -
  have "filter (overlaps s e) (take c fs) = []"
    using assms by (auto simp: filter_empty_conv in_set_conv_nth overlaps_def leD)
  then show ?thesis by (metis append_Nil append_take_drop_id filter_append)
qed

lemma mm_end_last:
  assumes "mm_wf fs" "j < length fs"
  shows "mm_end (fs ! j) \<le> mm_end (last fs)"
proof -
  have "fs \<noteq> []" using assms(2) by auto
  then show ?thesis using mm_wf_later [OF assms(1), of j "length fs - 1"] assms(2)
    by (cases "j < length fs - 1") (auto simp: last_conv_nth mm_end_def not_less dest: le_neq_implies_less)
qed

lemma gen_mm_spec:
  assumes wf: "mm_wf (mm_features r)" and se: "s < e" and ok: "mm_index_ok (mm_features r) s i"
  shows "\<exists>i'. gen_mm_extra_hash_keys r s e i =
      Inr (map (mm_key s) (filter (overlaps s e) (mm_features r)), i') \<and> mm_index_ok (mm_features r) e i'"
proof -
  let ?fs = "mm_features r"
  consider (none) "?fs = []" | (ended) "?fs \<noteq> []" "mm_end (last ?fs) \<le> s"
    | (scan) "?fs \<noteq> []" "s < mm_end (last ?fs)" by linarith
  then show ?thesis
  proof cases
    case none
    then show ?thesis by (simp add: gen_mm_extra_hash_keys_def mm_index_ok_def)
  next
    case ended
    have "\<And>j. j < length ?fs \<Longrightarrow> mm_end (?fs ! j) \<le> s"
      using mm_end_last [OF wf] ended(2) order_trans by blast
    then have "filter (overlaps s e) ?fs = []"
      by (auto simp: filter_empty_conv in_set_conv_nth overlaps_def leD)
    then show ?thesis using ended mm_index_ok_mono [OF ok, of e] se
      by (simp add: gen_mm_extra_hash_keys_def mm_end_def)
  next
    case scan
    let ?c = "nat (mm_index ?fs i)"
    have c: "0 \<le> mm_index ?fs i" "?c \<le> length ?fs" "\<And>j. j < ?c \<Longrightarrow> mm_end (?fs ! j) \<le> s"
      using ok scan(1) by (auto simp: mm_index_ok_def)
    obtain c' where c': "mm_loop ?fs s e ?c =
        Inr (map (mm_key s) (filter (overlaps s e) (drop ?c ?fs)), c')"
      "?c \<le> c'" "c' \<le> length ?fs" "\<And>j. ?c \<le> j \<Longrightarrow> j < c' \<Longrightarrow> mm_end (?fs ! j) \<le> e"
      using mm_loop_spec [OF wf se c(2)] by blast
    have "mm_end (?fs ! j) \<le> e" if "j < c'" for j
      by (cases "j < ?c") (use c(3) [of j] c'(4) [of j] se that in auto)
    then have "mm_index_ok ?fs e (int c')" using c'(3) by (simp add: mm_index_ok_def mm_index_def)
    moreover have "gen_mm_extra_hash_keys r s e i =
        Inr (map (mm_key s) (filter (overlaps s e) ?fs), int c')"
    proof -
      have "i < 0 \<longrightarrow> - i \<le> int (length ?fs)" using c(1) by (simp add: mm_index_def split: if_splits)
      moreover have "filter (overlaps s e) (drop ?c ?fs) = filter (overlaps s e) ?fs"
        using filter_overlaps_skip [OF c(3) c(2), of e] by simp
      moreover have "\<not> mm_offset (last ?fs) + mm_length (last ?fs) \<le> s"
        using scan(2) by (simp add: mm_end_def)
      ultimately show ?thesis
        using scan(1) c'(1) unfolding gen_mm_extra_hash_keys_def Let_def py_assert_def
        by (simp only: mm_index_def [symmetric] if_True if_False rbind_Inr prod.case simp_thms) simp
    qed
    ultimately show ?thesis by blast
  qed
qed

subsection \<open>The hashes of a request, block by block\<close>

definition memo_ok :: "hash_request \<Rightarrow> bool" where
  "memo_ok r \<longleftrightarrow> (\<forall>digest s e h. prompt_embeds r = Some digest \<longrightarrow>
     map_of (prompt_embeds_per_block_hashes r) (s, e) = Some h \<longrightarrow> h = digest s e)"

definition embeds_keys :: "hash_request \<Rightarrow> nat \<Rightarrow> nat \<Rightarrow> extra_key list" where
  "embeds_keys r s e = (case prompt_embeds r of None \<Rightarrow> [] | Some digest \<Rightarrow> [KeyBytes (digest s e)])"

definition extra_keys_of :: "hash_request \<Rightarrow> nat \<Rightarrow> nat \<Rightarrow> extra_key list option" where
  "extra_keys_of r s e =
     (let keys = gen_lora_extra_hash_keys r @ map (mm_key s) (filter (overlaps s e) (mm_features r))
                   @ salt_keys r s @ embeds_keys r s e
      in if keys = [] then None else Some keys)"

fun hashes_from ::
  "bytes \<Rightarrow> hash_function \<Rightarrow> nat \<Rightarrow> hash_request \<Rightarrow> bytes option \<Rightarrow> nat \<Rightarrow> nat \<Rightarrow> bytes list" where
  "hashes_from N H bs r prev s 0 = []"
| "hashes_from N H bs r prev s (Suc k) =
     (let h = hash_block_tokens N H prev (take bs (drop s (all_token_ids r))) (extra_keys_of r s (s + bs))
      in h # hashes_from N H bs r (Some h) (s + bs) k)"

definition request_hashes :: "bytes \<Rightarrow> hash_function \<Rightarrow> nat \<Rightarrow> hash_request \<Rightarrow> bytes list" where
  "request_hashes N H bs r = hashes_from N H bs r None 0 (length (all_token_ids r) div bs)"

text \<open>Requests with the same inputs, whatever their memo and their list of hashes.\<close>

definition same_input :: "hash_request \<Rightarrow> hash_request \<Rightarrow> bool" where
  "same_input r r' \<longleftrightarrow> mm_features r' = mm_features r \<and> lora_request r' = lora_request r
     \<and> cache_salt r' = cache_salt r \<and> prompt_embeds r' = prompt_embeds r"

lemma same_input_keys: "same_input r r' \<Longrightarrow> extra_keys_of r' s e = extra_keys_of r s e"
  by (simp add: same_input_def extra_keys_of_def gen_lora_extra_hash_keys_def salt_keys_def embeds_keys_def)

lemma length_hashes_from [simp]: "length (hashes_from N H bs r prev s k) = k"
  by (induction k arbitrary: prev s) (auto simp: Let_def)

lemma hashes_from_tokens:
  "same_input r r' \<Longrightarrow> (\<And>j. j < k \<Longrightarrow> take bs (drop (s + j * bs) (all_token_ids r')) =
     take bs (drop (s + j * bs) (all_token_ids r))) \<Longrightarrow>
   hashes_from N H bs r' prev s k = hashes_from N H bs r prev s k"
proof (induction k arbitrary: prev s)
  case (Suc k)
  have "take bs (drop (s + bs + j * bs) (all_token_ids r')) =
      take bs (drop (s + bs + j * bs) (all_token_ids r))" if "j < k" for j
    using Suc.prems(2) [of "Suc j"] that by (simp add: add.assoc)
  moreover have "take bs (drop s (all_token_ids r')) = take bs (drop s (all_token_ids r))"
    using Suc.prems(2) [of 0] by simp
  ultimately show ?case
    using Suc.IH Suc.prems(1) same_input_keys [OF Suc.prems(1)] by (simp add: Let_def)
qed simp

lemma hashes_from_append:
  "hashes_from N H bs r prev s (j + k) =
     hashes_from N H bs r prev s j
     @ hashes_from N H bs r
         (if j = 0 then prev else Some (last (hashes_from N H bs r prev s j))) (s + j * bs) k"
proof (induction j arbitrary: prev s)
  case (Suc j)
  define h where
    "h = hash_block_tokens N H prev (take bs (drop s (all_token_ids r))) (extra_keys_of r s (s + bs))"
  let ?A = "hashes_from N H bs r (Some h) (s + bs) j"
  have "(?A = []) = (j = 0)" by (metis length_0_conv length_hashes_from)
  then have "last (h # ?A) = (if j = 0 then h else last ?A)" by simp
  then show ?case
    using Suc.IH [of "Some h" "s + bs"] by (auto simp: Let_def h_def [symmetric] add.assoc)
qed simp

lemma generate_keys_spec:
  assumes "mm_wf (mm_features r)" "memo_ok r" "s < e" "mm_index_ok (mm_features r) s i"
  shows "\<exists>i' r'. generate_block_hash_extra_keys r s e i = Inr ((extra_keys_of r s e, i'), r')
    \<and> mm_index_ok (mm_features r) e i' \<and> memo_ok r' \<and> same_input r r'
    \<and> all_token_ids r' = all_token_ids r \<and> block_hashes r' = block_hashes r"
proof -
  obtain i' where i': "gen_mm_extra_hash_keys r s e i =
      Inr (map (mm_key s) (filter (overlaps s e) (mm_features r)), i')" "mm_index_ok (mm_features r) e i'"
    using gen_mm_spec [OF assms(1,3,4)] by blast
  obtain ks r' where k: "gen_prompt_embeds_extra_hash_keys r s e = (ks, r')" by (metis surj_pair)
  then have "ks = embeds_keys r s e" "memo_ok r'" "same_input r r'"
      "all_token_ids r' = all_token_ids r" "block_hashes r' = block_hashes r"
    using assms(2)
    by (auto simp: gen_prompt_embeds_extra_hash_keys_def embeds_keys_def memo_ok_def same_input_def
        update_conv Let_def split: option.splits if_splits)
  then show ?thesis using i' k
    by (simp add: generate_block_hash_extra_keys_def extra_keys_of_def Let_def)
qed

lemma hash_loop_spec:
  assumes "0 < bs" "mm_wf (mm_features r)" "memo_ok r" "mm_index_ok (mm_features r) s i"
    "k = (length (all_token_ids r) - s) div bs" "s \<le> length (all_token_ids r)"
  shows "\<exists>r'. hash_loop N H bs s i prev r = Some (Inr (hashes_from N H bs r prev s k, r'))
    \<and> memo_ok r' \<and> same_input r r' \<and> all_token_ids r' = all_token_ids r
    \<and> block_hashes r' = block_hashes r"
  using assms(2-6)
proof (induction k arbitrary: s i prev r)
  case 0
  then have "length (all_token_ids r) < s + bs" using assms(1) by (auto simp: div_eq_0_iff)
  then show ?case using 0 by (subst hash_loop.simps) (simp add: same_input_def)
next
  case (Suc k)
  let ?T = "length (all_token_ids r)" and ?e = "s + bs"
  have fits: "?e \<le> ?T"
  proof (rule ccontr)
    assume "\<not> ?e \<le> ?T"
    then have "(?T - s) div bs = 0" using Suc.prems(5) by simp
    then show False using Suc.prems(4) by simp
  qed
  then have d: "?T - s = (?T - ?e) + bs" by simp
  have k: "k = (?T - ?e) div bs" using Suc.prems(4) assms(1) unfolding d by simp
  obtain i' r1 where g: "generate_block_hash_extra_keys r s ?e i = Inr ((extra_keys_of r s ?e, i'), r1)"
    and r1: "mm_index_ok (mm_features r) ?e i'" "memo_ok r1" "same_input r r1"
      "all_token_ids r1 = all_token_ids r" "block_hashes r1 = block_hashes r"
    using generate_keys_spec [OF Suc.prems(1,2) _ Suc.prems(3), of ?e] assms(1) by auto
  define h where
    "h = hash_block_tokens N H prev (take bs (drop s (all_token_ids r))) (extra_keys_of r s ?e)"
  have "mm_features r1 = mm_features r" using r1(3) by (simp add: same_input_def)
  then obtain r2 where r2: "hash_loop N H bs ?e i' (Some h) r1 =
      Some (Inr (hashes_from N H bs r1 (Some h) ?e k, r2))"
    "memo_ok r2" "same_input r1 r2" "all_token_ids r2 = all_token_ids r1" "block_hashes r2 = block_hashes r1"
    using Suc.IH [of r1 ?e i' "Some h"] Suc.prems(1) r1 k fits by auto
  have "hashes_from N H bs r1 (Some h) ?e k = hashes_from N H bs r (Some h) ?e k"
    using r1(3,4) by (intro hashes_from_tokens) auto
  then have "hash_loop N H bs s i prev r = Some (Inr (hashes_from N H bs r prev s (Suc k), r2))"
    using fits g r2(1) by (subst hash_loop.simps) (simp add: Let_def h_def [symmetric])
  then show ?case using r1 r2 by (auto simp: same_input_def)
qed

text \<open>The early return of the hasher is the first test of its loop.\<close>

lemma hash_loop_stop:
  "length (all_token_ids r) < s + bs \<Longrightarrow> hash_loop N H bs s i prev r = Some (Inr ([], r))"
  by (subst hash_loop.simps) simp

lemma request_block_hasher_loop:
  "request_block_hasher N H bs r =
     hash_loop N H bs (length (block_hashes r) * bs) (if length (block_hashes r) * bs > 0 then -1 else 0)
       (if length (block_hashes r) = 0 then None else Some (last (block_hashes r))) r"
  by (cases "length (all_token_ids r) < length (block_hashes r) * bs + bs")
    (simp_all add: request_block_hasher_def Let_def hash_loop_stop)

lemma request_hashes_cong:
  "same_input r r' \<Longrightarrow> all_token_ids r' = all_token_ids r \<Longrightarrow>
   request_hashes N H bs r' = request_hashes N H bs r"
  unfolding request_hashes_def by (simp add: hashes_from_tokens)

text \<open>Hashing resumes from any number of blocks that are hashed already.\<close>

lemma update_block_hashes_spec:
  assumes "0 < bs" "mm_wf (mm_features r)" "memo_ok r"
    and n: "n = length (block_hashes r)" "n * bs \<le> length (all_token_ids r)"
    and old: "hashes_from N H bs r None 0 n = block_hashes r"
    and idx: "mm_index_ok (mm_features r) (n * bs) (if n * bs > 0 then -1 else 0)"
  shows "\<exists>r'. update_block_hashes N H bs r = Some (Inr r') \<and> all_token_ids r' = all_token_ids r
    \<and> block_hashes r' = request_hashes N H bs r' \<and> same_input r r' \<and> memo_ok r'"
proof -
  let ?T = "length (all_token_ids r)" and ?prev = "if n = 0 then None else Some (last (block_hashes r))"
  let ?k = "(?T - n * bs) div bs"
  have "n * bs + (?T - n * bs) = ?T" using n(2) by simp
  moreover have "(a * bs + b) div bs = a + b div bs" for a b using assms(1) by simp
  ultimately have "?T div bs = n + ?k" by metis
  then have "request_hashes N H bs r = hashes_from N H bs r None 0 (n + ?k)"
    unfolding request_hashes_def by (simp only:)
  then have all: "request_hashes N H bs r = block_hashes r @ hashes_from N H bs r ?prev (n * bs) ?k"
    by (simp only: hashes_from_append old add_0)
  obtain r2 where r2: "hash_loop N H bs (n * bs) (if n * bs > 0 then -1 else 0) ?prev r =
      Some (Inr (hashes_from N H bs r ?prev (n * bs) ?k, r2))"
    "memo_ok r2" "same_input r r2" "all_token_ids r2 = all_token_ids r" "block_hashes r2 = block_hashes r"
    using hash_loop_spec [OF assms(1-3) idx refl n(2)] by blast
  have "request_block_hasher N H bs r = Some (Inr (hashes_from N H bs r ?prev (n * bs) ?k, r2))"
    unfolding request_block_hasher_loop using r2(1) unfolding n(1) .
  moreover have "request_hashes N H bs (r2\<lparr>block_hashes := b\<rparr>) = request_hashes N H bs r" for b
    using r2(3,4) by (intro request_hashes_cong) (simp_all add: same_input_def)
  ultimately show ?thesis using all r2
    by (simp add: update_block_hashes_def same_input_def memo_ok_def)
qed

lemma hashes_from_longer:
  assumes "n * bs \<le> length (all_token_ids r)"
  shows "hashes_from N H bs (r\<lparr>all_token_ids := all_token_ids r @ tokens\<rparr>) prev 0 n =
    hashes_from N H bs r prev 0 n"
proof (rule hashes_from_tokens)
  fix j
  assume "j < n"
  then have "Suc j * bs \<le> n * bs" by (intro mult_le_mono1) simp
  then show "take bs (drop (0 + j * bs) (all_token_ids (r\<lparr>all_token_ids := all_token_ids r @ tokens\<rparr>))) =
      take bs (drop (0 + j * bs) (all_token_ids r))" using assms by simp
qed (simp add: same_input_def)

subsection \<open>Hashes at a larger block size\<close>

lemma concat_values:
  assumes "0 < scale_factor l"
  shows "concat (map (get_value_at l) [0..<n]) = concat (take (n * scale_factor l) (base_hashes l))"
proof (induction n)
  case (Suc n)
  have "take (Suc n * scale_factor l) (base_hashes l) =
      take (n * scale_factor l) (base_hashes l)
      @ take (scale_factor l) (drop (n * scale_factor l) (base_hashes l))"
    by (metis add.commute mult_Suc take_add)
  then show ?case using Suc by (simp add: get_value_at_def Let_def)
qed simp

subsection \<open>Properties\<close>

text \<open>Packing a block hash and a group number into a key and unpacking it gives both back, for every
  group number that fits 32 bits; a larger one raises \<open>OverflowError\<close>. Keys of different hashes of
  the same length or of different groups are therefore different.\<close>

lemma hash_key_roundtrip:
  "case make_block_hash_with_group_id h g of
     Inr key \<Rightarrow> g < 2 ^ 32 \<and> get_block_hash key = h \<and> get_group_id key = g \<and> length key = length h + 4
   | Inl e \<Rightarrow> g \<ge> 2 ^ 32 \<and> e = OverflowError"
proof (cases "g < 2 ^ 32")
  case True
  then obtain bs where bs: "to_bytes4 g = Inr bs" by (simp add: to_bytes4_def)
  then have "from_bytes bs = g" "length bs = 4" using from_to_bytes4 by blast+
  then show ?thesis using True bs
    by (simp add: make_block_hash_with_group_id_def get_block_hash_def get_group_id_def)
next
  case False
  then show ?thesis by (simp add: make_block_hash_with_group_id_def to_bytes4_def)
qed

definition sample_hash :: hash_function where
  "sample_hash = (\<lambda>(p, ts, ks). map of_int ts @ take 2 p)"

definition sample_request :: hash_request where
  "sample_request = \<lparr>mm_features = [\<lparr>mm_identifier = Some ''img'', mm_offset = 1, mm_length = 2\<rparr>],
     lora_request = None, cache_salt = Some ''s'', prompt_embeds = None,
     prompt_embeds_per_block_hashes = [], all_token_ids = [1, 2, 3], block_hashes = [[1, 2, 7]]\<rparr>"

lemma sample_hashes: "block_hashes sample_request = request_hashes [7] sample_hash 2 sample_request"
  by (simp add: sample_request_def sample_hash_def request_hashes_def hash_block_tokens_def Let_def)

text \<open>\<^bold>\<open>C39\<close>. Hashing is incremental. Let the hashes of a request be those of the reference definition
  (each full block hashed with its predecessor's hash, its tokens and the keys of exactly the inputs
  it overlaps), and let all multi-modal inputs but the last end in the hashed part. Then appending
  tokens always ends, raises nothing and leaves the hashes of the reference definition for the longer
  request, although the loop resumes at the last block and the last input only.\<close>

theorem append_output_incremental:
  assumes "0 < bs" "mm_wf (mm_features r)" "memo_ok r"
    and "block_hashes r = request_hashes N H bs r"
    and "block_hashes r = [] \<or> list_all (\<lambda>f. mm_end f \<le> length (block_hashes r) * bs) (butlast (mm_features r))"
  shows "\<exists>r'. append_output_token_ids N H bs tokens r = Some (Inr r')
    \<and> all_token_ids r' = all_token_ids r @ tokens \<and> block_hashes r' = request_hashes N H bs r'
    \<and> same_input r r' \<and> memo_ok r'"
proof -
  let ?r = "r\<lparr>all_token_ids := all_token_ids r @ tokens\<rparr>" and ?n = "length (block_hashes r)"
  have n: "?n = length (all_token_ids r) div bs" using assms(4) by (simp add: request_hashes_def)
  then have le: "?n * bs \<le> length (all_token_ids r)" by simp
  have "hashes_from N H bs ?r None 0 ?n = hashes_from N H bs r None 0 ?n"
    by (rule hashes_from_longer [OF le])
  also have "\<dots> = block_hashes ?r" using assms(4) n by (simp add: request_hashes_def)
  finally have old: "hashes_from N H bs ?r None 0 ?n = block_hashes ?r" .
  have idx: "mm_index_ok (mm_features ?r) (?n * bs) (if ?n * bs > 0 then -1 else 0)"
    using assms(1,5) by (auto simp: mm_index_ok_def mm_index_def list_all_length nth_butlast)
  have "\<exists>r'. update_block_hashes N H bs ?r = Some (Inr r') \<and> all_token_ids r' = all_token_ids ?r
      \<and> block_hashes r' = request_hashes N H bs r' \<and> same_input ?r r' \<and> memo_ok r'"
    using assms(1-3) le by (intro update_block_hashes_spec [OF _ _ _ _ _ old idx]) (simp_all add: memo_ok_def)
  then show ?thesis by (simp add: append_output_token_ids_def same_input_def)
qed

theorem append_output_incremental_witness:
  "\<exists>r'. append_output_token_ids [7] sample_hash 2 [4] sample_request = Some (Inr r')
    \<and> all_token_ids r' = all_token_ids sample_request @ [4]
    \<and> block_hashes r' = request_hashes [7] sample_hash 2 r'
    \<and> same_input sample_request r' \<and> memo_ok r'"
  by (rule append_output_incremental [OF _ _ _ sample_hashes])
    (simp_all add: sample_request_def mm_wf_def memo_ok_def)

end
