(* ===== verification/Block_Metrics.thy ===== *)
theory Block_Metrics
  imports Prelude
begin

section \<open>Residency metrics of cache blocks\<close>

text \<open>
  The classes \<open>BlockMetricsState\<close> and \<open>KVCacheMetricsCollector\<close> of
  \<^verbatim>\<open>vllm/v1/core/kv_cache_metrics.py\<close>. The readings of \<open>time.monotonic_ns\<close> and the draws of
  \<open>random.random\<close> are two sequences in the collector's state, consumed in order: every call of the
  source advances its sequence by one, so two readings of one operation may differ.
\<close>

record block_metrics_state =
  birth_time_ns :: int
  last_access_ns :: int
  access_history :: "int list"

record eviction_event =
  lifetime_seconds :: real
  idle_seconds :: real
  reuse_gaps_seconds :: "real list"

record collector =
  sample_rate :: real
  block_metrics :: "(nat \<times> block_metrics_state) list"
  eviction_events :: "eviction_event list"
  clock :: "nat \<Rightarrow> int"
  clock_reads :: nat
  rng :: "nat \<Rightarrow> real"
  rng_draws :: nat

definition monotonic_ns :: "collector \<Rightarrow> int \<times> collector" where
  "monotonic_ns c = (clock c (clock_reads c), c\<lparr>clock_reads := clock_reads c + 1\<rparr>)"

definition BlockMetricsState :: "int \<Rightarrow> block_metrics_state" where
  "BlockMetricsState now_ns = \<lparr>birth_time_ns = now_ns, last_access_ns = now_ns, access_history = []\<rparr>"

text \<open>The history is a \<open>deque\<close> of at most four entries: an append drops the oldest.\<close>

definition deque_append4 :: "int \<Rightarrow> int list \<Rightarrow> int list" where
  "deque_append4 x xs = (let ys = xs @ [x] in drop (length ys - 4) ys)"

definition record_access :: "int \<Rightarrow> block_metrics_state \<Rightarrow> block_metrics_state" where
  "record_access now_ns m =
     m\<lparr>last_access_ns := now_ns, access_history := deque_append4 now_ns (access_history m)\<rparr>"

definition get_lifetime_seconds :: "int \<Rightarrow> block_metrics_state \<Rightarrow> real" where
  "get_lifetime_seconds now_ns m = of_int (now_ns - birth_time_ns m) / 10 ^ 9"

definition get_idle_time_seconds :: "int \<Rightarrow> block_metrics_state \<Rightarrow> real" where
  "get_idle_time_seconds now_ns m = of_int (now_ns - last_access_ns m) / 10 ^ 9"

definition get_reuse_gaps_seconds :: "block_metrics_state \<Rightarrow> real list" where
  "get_reuse_gaps_seconds m =
     (let h = access_history m in
      if length h < 2 then []
      else map (\<lambda>i. of_int (h ! i - h ! (i - 1)) / 10 ^ 9) [1..<length h])"

definition collector_init :: "real \<Rightarrow> (nat \<Rightarrow> int) \<Rightarrow> (nat \<Rightarrow> real) \<Rightarrow> collector res" where
  "collector_init rate clk rnd =
     py_assert (0 < rate \<and> rate \<le> 1)
       (Inr \<lparr>sample_rate = rate, block_metrics = [], eviction_events = [],
             clock = clk, clock_reads = 0, rng = rnd, rng_draws = 0\<rparr>)"

definition should_sample_block :: "collector \<Rightarrow> bool \<times> collector" where
  "should_sample_block c = (rng c (rng_draws c) < sample_rate c, c\<lparr>rng_draws := rng_draws c + 1\<rparr>)"

definition on_block_allocated :: "nat \<Rightarrow> collector \<Rightarrow> collector" where
  "on_block_allocated b c =
     (let (sampled, c1) = should_sample_block c in
      if sampled then
        (let (now, c2) = monotonic_ns c1
         in c2\<lparr>block_metrics := AList.update b (BlockMetricsState now) (block_metrics c2)\<rparr>)
      else c1)"

definition on_block_accessed :: "nat \<Rightarrow> collector \<Rightarrow> collector" where
  "on_block_accessed b c =
     (case map_of (block_metrics c) b of
        None \<Rightarrow> c
      | Some m \<Rightarrow>
          (let (now, c1) = monotonic_ns c
           in c1\<lparr>block_metrics := AList.update b (record_access now m) (block_metrics c1)\<rparr>))"

definition on_block_evicted :: "nat \<Rightarrow> collector \<Rightarrow> collector" where
  "on_block_evicted b c =
     (case map_of (block_metrics c) b of
        None \<Rightarrow> c
      | Some m \<Rightarrow>
          (let c0 = c\<lparr>block_metrics := AList.delete b (block_metrics c)\<rparr>;
               (now1, c1) = monotonic_ns c0;
               (now2, c2) = monotonic_ns c1
           in c2\<lparr>eviction_events := eviction_events c2 @
                   [\<lparr>lifetime_seconds = get_lifetime_seconds now1 m,
                     idle_seconds = get_idle_time_seconds now2 m,
                     reuse_gaps_seconds = get_reuse_gaps_seconds m\<rparr>]\<rparr>))"

definition collector_reset :: "collector \<Rightarrow> collector" where
  "collector_reset c = c\<lparr>block_metrics := [], eviction_events := []\<rparr>"

definition drain_events :: "collector \<Rightarrow> eviction_event list \<times> collector" where
  "drain_events c = (eviction_events c, c\<lparr>eviction_events := []\<rparr>)"

subsection \<open>Well-formed metrics\<close>

text \<open>On a clock that does not go back, a tracked block has a history of at most four accesses in
  order, none before its birth and the last one its last access; every reported time is then
  non-negative.\<close>

definition state_wf :: "int \<Rightarrow> block_metrics_state \<Rightarrow> bool" where
  "state_wf now m \<longleftrightarrow> length (access_history m) \<le> 4 \<and> sorted (access_history m)
     \<and> birth_time_ns m \<le> last_access_ns m \<and> last_access_ns m \<le> now
     \<and> list_all (\<lambda>t. birth_time_ns m \<le> t \<and> t \<le> last_access_ns m) (access_history m)"

definition event_wf :: "eviction_event \<Rightarrow> bool" where
  "event_wf e \<longleftrightarrow> 0 \<le> idle_seconds e \<and> 0 \<le> lifetime_seconds e
     \<and> length (reuse_gaps_seconds e) \<le> 3 \<and> list_all (\<lambda>g. 0 \<le> g) (reuse_gaps_seconds e)"

definition collector_wf :: "collector \<Rightarrow> bool" where
  "collector_wf c \<longleftrightarrow> mono (clock c) \<and> distinct (map fst (block_metrics c))
     \<and> list_all (\<lambda>(b, m). state_wf (clock c (clock_reads c)) m) (block_metrics c)
     \<and> list_all event_wf (eviction_events c)"

lemma state_wf_later: "state_wf t m \<Longrightarrow> t \<le> t' \<Longrightarrow> state_wf t' m"
  by (simp add: state_wf_def)

lemma state_wf_new: "state_wf t (BlockMetricsState t)"
  by (simp add: state_wf_def BlockMetricsState_def)

lemma state_wf_access: "state_wf t m \<Longrightarrow> state_wf t (record_access t m)"
proof -
  assume m: "state_wf t m"
  let ?h = "access_history m @ [t]"
  have "sorted ?h" using m by (auto simp: state_wf_def sorted_append list_all_iff)
  then have "sorted (drop (length ?h - 4) ?h)" by (rule sorted_wrt_drop)
  moreover have "\<forall>x \<in> set (drop (length ?h - 4) ?h). birth_time_ns m \<le> x \<and> x \<le> t"
    using m by (auto simp: state_wf_def list_all_iff dest!: in_set_dropD)
  ultimately show ?thesis
    using m by (auto simp: state_wf_def record_access_def deque_append4_def Let_def list_all_iff
        simp del: append_Cons drop_append)
qed

lemma gaps_wf:
  assumes "state_wf t m"
  shows "length (get_reuse_gaps_seconds m) \<le> 3 \<and> list_all (\<lambda>g. 0 \<le> g) (get_reuse_gaps_seconds m)"
proof -
  have "sorted (access_history m)" "length (access_history m) \<le> 4"
    using assms by (simp_all add: state_wf_def)
  then show ?thesis
    by (auto simp: get_reuse_gaps_seconds_def Let_def list_all_iff intro!: divide_nonneg_nonneg sorted_nth_mono)
qed

lemma list_all_update:
  "list_all P xs \<Longrightarrow> P (k, v) \<Longrightarrow> list_all P (AList.update k v xs)"
  by (induction xs) auto

lemma list_all_delete: "list_all P xs \<Longrightarrow> list_all P (AList.delete k xs)"
  by (simp add: list_all_iff AList.delete_eq)

lemma collector_states_later:
  assumes "mono f" "list_all (\<lambda>(b, m). state_wf (f n) m) ms" "n \<le> k"
  shows "list_all (\<lambda>(b, m). state_wf (f k) m) ms"
proof -
  have "f n \<le> f k" using assms(1,3) by (rule monoD)
  then show ?thesis using assms(2) by (auto simp: list_all_iff intro: state_wf_later)
qed

lemma collector_wf_allocated:
  assumes "collector_wf c"
  shows "collector_wf (on_block_allocated b c)"
proof -
  let ?n = "clock_reads c"
  have "clock c ?n \<le> clock c (Suc ?n)" using assms by (auto simp: collector_wf_def intro: monoD)
  then have "state_wf (clock c (Suc ?n)) (BlockMetricsState (clock c ?n))"
    by (rule state_wf_later [OF state_wf_new])
  then show ?thesis
    using assms collector_states_later [of "clock c" ?n "block_metrics c" "Suc ?n"]
    by (simp add: collector_wf_def on_block_allocated_def should_sample_block_def monotonic_ns_def
        Let_def distinct_update list_all_update)
qed

lemma collector_wf_accessed:
  assumes "collector_wf c"
  shows "collector_wf (on_block_accessed b c)"
proof (cases "map_of (block_metrics c) b")
  case (Some m)
  let ?n = "clock_reads c"
  have "state_wf (clock c ?n) m"
    using assms map_of_SomeD [OF Some] by (auto simp: collector_wf_def list_all_iff)
  moreover have "clock c ?n \<le> clock c (Suc ?n)" using assms by (auto simp: collector_wf_def intro: monoD)
  ultimately have "state_wf (clock c (Suc ?n)) (record_access (clock c ?n) m)"
    using state_wf_later [OF state_wf_access] by blast
  then show ?thesis
    using assms Some collector_states_later [of "clock c" ?n "block_metrics c" "Suc ?n"]
    by (simp add: collector_wf_def on_block_accessed_def monotonic_ns_def distinct_update list_all_update)
qed (use assms in \<open>simp add: on_block_accessed_def\<close>)

lemma collector_wf_evicted:
  assumes "collector_wf c"
  shows "collector_wf (on_block_evicted b c)"
proof (cases "map_of (block_metrics c) b")
  case (Some m)
  let ?n = "clock_reads c"
  have m: "state_wf (clock c ?n) m"
    using assms map_of_SomeD [OF Some] by (auto simp: collector_wf_def list_all_iff)
  have "clock c ?n \<le> clock c (Suc ?n)" using assms by (auto simp: collector_wf_def intro: monoD)
  then have "event_wf \<lparr>lifetime_seconds = get_lifetime_seconds (clock c ?n) m,
      idle_seconds = get_idle_time_seconds (clock c (Suc ?n)) m,
      reuse_gaps_seconds = get_reuse_gaps_seconds m\<rparr>"
    using m gaps_wf [OF m]
    by (auto simp: event_wf_def get_lifetime_seconds_def get_idle_time_seconds_def state_wf_def)
  then show ?thesis
    using assms Some collector_states_later [of "clock c" ?n "block_metrics c" "Suc (Suc ?n)"]
    by (auto simp: collector_wf_def on_block_evicted_def monotonic_ns_def Let_def distinct_delete
        list_all_delete)
qed (use assms in \<open>simp add: on_block_evicted_def\<close>)

lemmas collector_wf_ops = collector_wf_allocated collector_wf_accessed collector_wf_evicted

end
