(* ===== verification/Block_Pool.thy ===== *)
theory Block_Pool
  imports Free_Queue Block_Hash Block_Metrics
begin

section \<open>The GPU block pool\<close>

text \<open>
  The classes \<open>BlockHashToBlockMap\<close> and \<open>BlockPool\<close> of \<^verbatim>\<open>vllm/v1/core/block_pool.py\<close> with the
  attributes of \<open>KVCacheBlock\<close> they use: reference counts, block hashes, the free queue in eviction
  order, the map from hash keys to blocks, and the queue of cache events. A block object is its
  number; its attributes are the entry of the list \<open>blocks\<close>, its links are in the free queue.
\<close>

subsection \<open>The map from hash keys to blocks\<close>

text \<open>An entry is one block or a dictionary of blocks by number, here the numbers in insertion
  order.\<close>

datatype cached_blocks = OneBlock nat | ManyBlocks "nat list"

type_synonym block_map = "(bytes \<times> cached_blocks) list"

definition get_one_block :: "bytes \<Rightarrow> block_map \<Rightarrow> nat option res" where
  "get_one_block key m =
     (case map_of m key of
        None \<Rightarrow> Inr None
      | Some (OneBlock b) \<Rightarrow> Inr (Some b)
      | Some (ManyBlocks []) \<Rightarrow> Inl (RuntimeError ''StopIteration'')
      | Some (ManyBlocks (b # bs)) \<Rightarrow> Inr (Some b))"

definition dict_ids_add :: "nat \<Rightarrow> nat list \<Rightarrow> nat list" where
  "dict_ids_add b bs = (if b \<in> set bs then bs else bs @ [b])"

definition map_insert :: "bytes \<Rightarrow> nat \<Rightarrow> block_map \<Rightarrow> block_map" where
  "map_insert key b m =
     (case map_of m key of
        None \<Rightarrow> AList.update key (OneBlock b) m
      | Some (OneBlock b0) \<Rightarrow> AList.update key (ManyBlocks (dict_ids_add b [b0])) m
      | Some (ManyBlocks bs) \<Rightarrow> AList.update key (ManyBlocks (dict_ids_add b bs)) m)"

definition map_pop :: "bytes \<Rightarrow> nat \<Rightarrow> block_map \<Rightarrow> nat option \<times> block_map" where
  "map_pop key b m =
     (case map_of m key of
        None \<Rightarrow> (None, m)
      | Some (OneBlock b0) \<Rightarrow>
          if b0 = b then (Some b0, AList.delete key m)
          else (None, AList.update key (OneBlock b0) (AList.delete key m))
      | Some (ManyBlocks bs) \<Rightarrow>
          (let bs' = remove1 b bs;
               m' = AList.delete key m
           in (if b \<in> set bs then Some b else None,
               if bs' \<noteq> [] then AList.update key (ManyBlocks bs') m' else m')))"

subsection \<open>State\<close>

record kv_cache_block =
  ref_cnt :: int
  block_hash :: "bytes option"
  is_null :: bool

datatype kv_cache_event =
    BlockStored (stored_hashes: "external_block_hash list") (parent_block_hash: "external_block_hash option")
      (token_ids: "int list") (stored_block_size: nat) (lora_id: "int option") (lora_name: "string option")
      (extra_keys: "extra_key list option list option") (group_idx: nat)
  | BlockRemoved (removed_hashes: "external_block_hash list") (removed_group: nat)
  | AllBlocksCleared

record block_pool =
  num_gpu_blocks :: nat
  enable_caching :: bool
  hash_block_size :: nat
  blocks :: "kv_cache_block list"
  free_block_queue :: free_queue
  cached_block_hash_to_block :: block_map
  null_block :: nat
  enable_kv_cache_events :: bool
  kv_event_queue :: "kv_cache_event list"
  metrics_collector :: "collector option"
  use_int_block_hashes :: bool

definition new_block :: kv_cache_block where
  "new_block = \<lparr>ref_cnt = 0, block_hash = None, is_null = False\<rparr>"

abbreviation the_block :: "block_pool \<Rightarrow> nat \<Rightarrow> kv_cache_block" where
  "the_block p b \<equiv> blocks p ! b"

definition upd_block :: "nat \<Rightarrow> (kv_cache_block \<Rightarrow> kv_cache_block) \<Rightarrow> block_pool \<Rightarrow> block_pool" where
  "upd_block b f p = p\<lparr>blocks := (blocks p)[b := f (the_block p b)]\<rparr>"

definition on_metrics :: "(collector \<Rightarrow> collector) \<Rightarrow> block_pool \<Rightarrow> block_pool" where
  "on_metrics f p = p\<lparr>metrics_collector := map_option f (metrics_collector p)\<rparr>"

fun node_block :: "node \<Rightarrow> nat" where
  "node_block (Blk b) = b"
| "node_block _ = 0"

subsection \<open>Operations\<close>

definition pool_init ::
  "nat \<Rightarrow> bool \<Rightarrow> nat \<Rightarrow> bool \<Rightarrow> collector option \<Rightarrow> bool \<Rightarrow> block_pool res" where
  "pool_init n caching hbs events collector use_int =
     py_assert (n > 0)
       (rbind (popleft (queue_init n))
         (\<lambda>(null, q).
            Inr \<lparr>num_gpu_blocks = n, enable_caching = caching, hash_block_size = hbs,
                 blocks = (replicate n new_block)[node_block null := new_block\<lparr>is_null := True\<rparr>],
                 free_block_queue = q, cached_block_hash_to_block = [],
                 null_block = node_block null, enable_kv_cache_events = events,
                 kv_event_queue = [], metrics_collector = collector, use_int_block_hashes = use_int\<rparr>))"

fun get_cached_block :: "bytes \<Rightarrow> nat list \<Rightarrow> block_pool \<Rightarrow> nat list option res" where
  "get_cached_block h [] p = Inr (Some [])"
| "get_cached_block h (g # gs) p =
     rbind (make_block_hash_with_group_id h g) (\<lambda>key.
     rbind (get_one_block key (cached_block_hash_to_block p)) (\<lambda>found.
       case found of
         None \<Rightarrow> Inr None
       | Some b \<Rightarrow> rbind (get_cached_block h gs p) (\<lambda>r. Inr (map_option (Cons b) r))))"

text \<open>The setter of the block hash asserts that the block has none.\<close>

definition set_block_hash :: "nat \<Rightarrow> bytes \<Rightarrow> block_pool \<Rightarrow> block_pool res" where
  "set_block_hash b key p =
     py_assert (block_hash (the_block p b) = None) (Inr (upd_block b (\<lambda>k. k\<lparr>block_hash := Some key\<rparr>) p))"

definition skipped :: "bool list option \<Rightarrow> nat \<Rightarrow> nat \<Rightarrow> block_pool \<Rightarrow> bool" where
  "skipped block_mask i b p \<longleftrightarrow> is_null (the_block p b) \<or> (case block_mask of None \<Rightarrow> False | Some ms \<Rightarrow> \<not> ms ! i)"

definition cache_block1 ::
  "bytes list \<Rightarrow> nat \<Rightarrow> bool list option \<Rightarrow> nat \<times> nat \<Rightarrow> block_pool \<times> bytes list \<Rightarrow>
   (block_pool \<times> bytes list) res" where
  "cache_block1 hashes gid block_mask = (\<lambda>(i, b) (p, acc).
     if skipped block_mask i b p then Inr (p, acc)
     else py_assert (block_hash (the_block p b) = None)
       (if i < length hashes then
          rbind (make_block_hash_with_group_id (hashes ! i) gid) (\<lambda>key.
          rbind (set_block_hash b key p) (\<lambda>p1.
            Inr (p1\<lparr>cached_block_hash_to_block := map_insert key b (cached_block_hash_to_block p1)\<rparr>,
                 acc @ [hashes ! i])))
        else Inl IndexError))"

definition extra_keys1 ::
  "block_pool \<Rightarrow> nat list \<Rightarrow> nat \<Rightarrow> nat \<Rightarrow> bool list option \<Rightarrow> nat \<Rightarrow>
   (extra_key list option list \<times> int) \<times> hash_request \<Rightarrow>
   ((extra_key list option list \<times> int) \<times> hash_request) res" where
  "extra_keys1 p bs num_cached block_size block_mask i = (\<lambda>((acc, mm_idx), r).
     if i < length bs then
       if skipped block_mask (i - num_cached) (bs ! i) p then Inr ((acc, mm_idx), r)
       else rbind (generate_block_hash_extra_keys r (i * block_size) (i * block_size + block_size) mm_idx)
         (\<lambda>((keys, mm_idx'), r'). Inr ((acc @ [keys], mm_idx'), r'))
     else Inl IndexError)"

text \<open>The hashes at the block size of the group: those of the request, or the scaled view of them.
  The first component is the list from the first uncached block on, the second the hash before it.\<close>

definition group_hashes ::
  "hash_request \<Rightarrow> nat \<Rightarrow> nat \<Rightarrow> nat \<Rightarrow> (bytes list \<times> bytes res) res" where
  "group_hashes r hbs block_size num_cached =
     (if block_size = hbs then
        Inr (drop num_cached (block_hashes r),
             if num_cached - 1 < length (block_hashes r) then Inr (block_hashes r ! (num_cached - 1))
             else Inl IndexError)
      else if hbs = 0 then Inl ZeroDivisionError
      else py_assert (block_size mod hbs = 0)
        (rbind (BlockHashListWithBlockSize (block_hashes r) hbs block_size) (\<lambda>l.
         rbind (bhl_from l num_cached) (\<lambda>hs. Inr (hs, Inr (get_value_at l (num_cached - 1)))))))"

definition stored_event ::
  "block_pool \<Rightarrow> hash_request \<Rightarrow> nat list \<Rightarrow> nat \<Rightarrow> nat \<Rightarrow> nat \<Rightarrow> nat \<Rightarrow> bool list option \<Rightarrow>
   bytes list \<Rightarrow> bytes res \<Rightarrow> (block_pool \<times> hash_request) res" where
  "stored_event p r bs num_cached num_full block_size gid block_mask new_hashes parent =
     rbind (if num_cached = 0 then Inr None
            else rbind parent (\<lambda>h. Inr (Some (maybe_convert_block_hash (use_int_block_hashes p) h))))
       (\<lambda>parent_hash.
     rbind (rfold (extra_keys1 p bs num_cached block_size block_mask) [num_cached..<num_full] (([], 0), r))
       (\<lambda>((keys, _), r').
     Inr (p\<lparr>kv_event_queue := kv_event_queue p @
            [BlockStored (map (maybe_convert_block_hash (use_int_block_hashes p)) new_hashes) parent_hash
               (take (num_full * block_size - num_cached * block_size)
                 (drop (num_cached * block_size) (all_token_ids r)))
               block_size (map_option snd (lora_request r)) (map_option fst (lora_request r))
               (if keys = [] then None else Some keys) gid]\<rparr>, r')))"

definition cache_full_blocks ::
  "hash_request \<Rightarrow> nat list \<Rightarrow> nat \<Rightarrow> nat \<Rightarrow> nat \<Rightarrow> nat \<Rightarrow> bool list option \<Rightarrow> block_pool \<Rightarrow>
   (block_pool \<times> hash_request) res" where
  "cache_full_blocks r bs num_cached num_full block_size gid block_mask p =
     (if num_cached \<ge> num_full then Inr (p, r)
      else
        (let new_full = take (num_full - num_cached) (drop num_cached bs) in
         py_assert (length (block_hashes r) \<ge> num_full)
         (py_assert (case block_mask of None \<Rightarrow> True | Some ms \<Rightarrow> length ms = length new_full)
         (rbind (group_hashes r (hash_block_size p) block_size num_cached) (\<lambda>(hashes, parent).
          rbind (rfold (cache_block1 hashes gid block_mask) (zip [0..<length new_full] new_full) (p, []))
            (\<lambda>(p1, new_hashes).
               if enable_kv_cache_events p1
               then stored_event p1 r bs num_cached num_full block_size gid block_mask new_hashes parent
               else Inr (p1, r)))))))"

definition maybe_evict_cached_block :: "nat \<Rightarrow> block_pool \<Rightarrow> bool \<times> block_pool" where
  "maybe_evict_cached_block b p0 =
     (let p = on_metrics (on_block_evicted b) p0 in
      case block_hash (the_block p b) of
        None \<Rightarrow> (False, p)
      | Some key \<Rightarrow>
          (case map_pop key b (cached_block_hash_to_block p) of
             (None, m) \<Rightarrow> (False, p\<lparr>cached_block_hash_to_block := m\<rparr>)
           | (Some _, m) \<Rightarrow>
               (let p1 = upd_block b (\<lambda>k. k\<lparr>block_hash := None\<rparr>) (p\<lparr>cached_block_hash_to_block := m\<rparr>)
                in (True,
                    if enable_kv_cache_events p1
                    then p1\<lparr>kv_event_queue := kv_event_queue p1 @
                           [BlockRemoved
                              [maybe_convert_block_hash (use_int_block_hashes p1) (get_block_hash key)]
                              (get_group_id key)]\<rparr>
                    else p1))))"

definition pool_num_free :: "block_pool \<Rightarrow> int" where
  "pool_num_free p = num_free_blocks (free_block_queue p)"

definition allocate1 :: "nat \<Rightarrow> block_pool \<Rightarrow> block_pool res" where
  "allocate1 b p =
     (let p1 = (if enable_caching p then snd (maybe_evict_cached_block b p) else p)
      in py_assert (ref_cnt (the_block p1 b) = 0)
           (Inr (on_metrics (on_block_allocated b) (upd_block b (\<lambda>k. k\<lparr>ref_cnt := ref_cnt k + 1\<rparr>) p1))))"

definition get_new_blocks :: "nat \<Rightarrow> block_pool \<Rightarrow> (nat list \<times> block_pool) res" where
  "get_new_blocks num_blocks p =
     (if int num_blocks > pool_num_free p
      then Inl (ValueError ''Cannot get free blocks from the pool'')
      else rbind (popleft_n num_blocks (free_block_queue p)) (\<lambda>(ns, q).
           let ret = map node_block ns
           in rbind (rfold allocate1 ret (p\<lparr>free_block_queue := q\<rparr>)) (\<lambda>p'. Inr (ret, p'))))"

definition touch1 :: "nat \<Rightarrow> block_pool \<Rightarrow> block_pool res" where
  "touch1 b p =
     rbind (if ref_cnt (the_block p b) = 0 \<and> \<not> is_null (the_block p b)
            then rbind (queue_remove (Blk b) (free_block_queue p)) (\<lambda>q. Inr (p\<lparr>free_block_queue := q\<rparr>))
            else Inr p)
       (\<lambda>p1. Inr (on_metrics (on_block_accessed b)
                    (upd_block b (\<lambda>k. k\<lparr>ref_cnt := ref_cnt k + 1\<rparr>) p1)))"

definition pool_touch :: "nat list \<Rightarrow> block_pool \<Rightarrow> block_pool res" where
  "pool_touch bs p = rfold touch1 bs p"

definition deref1 :: "nat \<Rightarrow> block_pool \<Rightarrow> block_pool" where
  "deref1 b p = upd_block b (\<lambda>k. k\<lparr>ref_cnt := ref_cnt k - 1\<rparr>) p"

definition free_blocks :: "nat list \<Rightarrow> block_pool \<Rightarrow> block_pool res" where
  "free_blocks ordered_blocks p =
     (let p1 = fold deref1 ordered_blocks p;
          freed = filter (\<lambda>b. ref_cnt (the_block p1 b) = 0 \<and> \<not> is_null (the_block p1 b)) ordered_blocks
      in rbind (append_n (map Blk freed) (free_block_queue p1))
           (\<lambda>q. Inr (p1\<lparr>free_block_queue := q\<rparr>)))"

definition evict_blocks :: "nat list \<Rightarrow> block_pool \<Rightarrow> block_pool res" where
  "evict_blocks block_ids p =
     rfold (\<lambda>b p. py_assert (b < length (blocks p)) (Inr (snd (maybe_evict_cached_block b p)))) block_ids p"

definition reset_prefix_cache :: "block_pool \<Rightarrow> bool \<times> block_pool" where
  "reset_prefix_cache p =
     (if int (num_gpu_blocks p) - pool_num_free p \<noteq> 1 then (False, p)
      else
        (let p1 = p\<lparr>cached_block_hash_to_block := [],
                    blocks := map (\<lambda>k. k\<lparr>block_hash := None\<rparr>) (blocks p)\<rparr>;
             p2 = on_metrics collector_reset p1
         in (True, if enable_kv_cache_events p2
                   then p2\<lparr>kv_event_queue := kv_event_queue p2 @ [AllBlocksCleared]\<rparr> else p2)))"

text \<open>The loop of \<open>peek_free_block_frontier\<close> ends at the latest when \<open>limit\<close> entries are collected.\<close>

fun peek_loop :: "nat \<Rightarrow> node option \<Rightarrow> block_pool \<Rightarrow> (nat \<times> bytes option) list" where
  "peek_loop 0 cur p = []"
| "peek_loop (Suc n) None p = []"
| "peek_loop (Suc n) (Some c) p =
     (if c = Tail then []
      else (node_block c, block_hash (the_block p (node_block c)))
           # peek_loop n (nxt (free_block_queue p) c) p)"

definition peek_free_block_frontier :: "int \<Rightarrow> block_pool \<Rightarrow> (nat \<times> bytes option) list res" where
  "peek_free_block_frontier limit p =
     py_assert (limit \<ge> 0) (Inr (peek_loop (nat limit) (nxt (free_block_queue p) Head) p))"

definition pool_usage :: "block_pool \<Rightarrow> real" where
  "pool_usage p =
     (let total_gpu_blocks = num_gpu_blocks p - 1
      in if total_gpu_blocks = 0 then 0 else 1 - of_int (pool_num_free p) / of_nat total_gpu_blocks)"

definition pool_take_events :: "block_pool \<Rightarrow> kv_cache_event list \<times> block_pool" where
  "pool_take_events p =
     (if \<not> enable_kv_cache_events p then ([], p)
      else (kv_event_queue p, p\<lparr>kv_event_queue := []\<rparr>))"

subsection \<open>The map as an index from keys to blocks\<close>

fun entry_ids :: "cached_blocks \<Rightarrow> nat list" where
  "entry_ids (OneBlock b) = [b]"
| "entry_ids (ManyBlocks bs) = bs"

definition cached_ids :: "block_map \<Rightarrow> bytes \<Rightarrow> nat list" where
  "cached_ids m key = (case map_of m key of None \<Rightarrow> [] | Some e \<Rightarrow> entry_ids e)"

definition map_wf :: "block_map \<Rightarrow> bool" where
  "map_wf m \<longleftrightarrow> (\<forall>key e. map_of m key = Some e \<longrightarrow> entry_ids e \<noteq> [] \<and> distinct (entry_ids e))"

lemma cached_ids_distinct: "map_wf m \<Longrightarrow> distinct (cached_ids m key)"
  by (auto simp: map_wf_def cached_ids_def split: option.splits)

lemma get_one_block_hd:
  "map_wf m \<Longrightarrow> get_one_block key m = Inr (case cached_ids m key of [] \<Rightarrow> None | b # _ \<Rightarrow> Some b)"
  by (fastforce simp: map_wf_def cached_ids_def get_one_block_def
      split: option.splits cached_blocks.splits list.splits)

lemma cached_ids_insert:
  "cached_ids (map_insert key b m) k = (if k = key then dict_ids_add b (cached_ids m key) else cached_ids m k)"
  by (auto simp: cached_ids_def map_insert_def dict_ids_add_def update_conv
      split: option.splits cached_blocks.splits)

lemma map_wf_insert: "map_wf m \<Longrightarrow> map_wf (map_insert key b m)"
  by (fastforce simp: map_wf_def map_insert_def dict_ids_add_def update_conv
      split: option.splits cached_blocks.splits if_splits)

lemma map_of_pop:
  "map_of (snd (map_pop key b m)) k =
     (if k \<noteq> key then map_of m k
      else case map_of m key of
             None \<Rightarrow> None
           | Some (OneBlock b0) \<Rightarrow> if b0 = b then None else Some (OneBlock b0)
           | Some (ManyBlocks bs) \<Rightarrow> if remove1 b bs = [] then None else Some (ManyBlocks (remove1 b bs)))"
  by (auto simp: map_pop_def Let_def update_conv delete_conv split: option.splits cached_blocks.splits)

lemma cached_ids_pop:
  "cached_ids (snd (map_pop key b m)) k =
     (if k = key then remove1 b (cached_ids m key) else cached_ids m k)"
  by (auto simp: cached_ids_def map_of_pop split: option.splits cached_blocks.splits)

lemma map_wf_pop: "map_wf m \<Longrightarrow> map_wf (snd (map_pop key b m))"
  unfolding map_wf_def map_of_pop
  by (fastforce split: option.splits cached_blocks.splits if_splits intro: distinct_remove1)

lemma map_pop_found: "fst (map_pop key b m) = (if b \<in> set (cached_ids m key) then Some b else None)"
  by (auto simp: map_pop_def cached_ids_def Let_def split: option.splits cached_blocks.splits)

text \<open>What the pool needs of the map: it keeps, for every key, a duplicate-free sequence of blocks
  in insertion order; a lookup returns the oldest.\<close>

locale hash_index =
  fixes wf :: "'m \<Rightarrow> bool"
    and ids :: "'m \<Rightarrow> bytes \<Rightarrow> nat list"
    and get :: "bytes \<Rightarrow> 'm \<Rightarrow> nat option res"
    and ins :: "bytes \<Rightarrow> nat \<Rightarrow> 'm \<Rightarrow> 'm"
    and pop :: "bytes \<Rightarrow> nat \<Rightarrow> 'm \<Rightarrow> nat option \<times> 'm"
  assumes get: "wf m \<Longrightarrow> get key m = Inr (case ids m key of [] \<Rightarrow> None | b # _ \<Rightarrow> Some b)"
    and ids_ins: "ids (ins key b m) k = (if k = key then dict_ids_add b (ids m key) else ids m k)"
    and ids_pop: "ids (snd (pop key b m)) k = (if k = key then remove1 b (ids m key) else ids m k)"
    and pop_found: "fst (pop key b m) = (if b \<in> set (ids m key) then Some b else None)"
    and wf_ins: "wf m \<Longrightarrow> wf (ins key b m)"
    and wf_pop: "wf m \<Longrightarrow> wf (snd (pop key b m))"
    and distinct_ids: "wf m \<Longrightarrow> distinct (ids m key)"
begin

lemma get_sound: "wf m \<Longrightarrow> get key m = Inr (Some b) \<Longrightarrow> b \<in> set (ids m key)"
  by (auto simp: get split: list.splits)

lemma get_complete: "wf m \<Longrightarrow> get key m = Inr None \<longleftrightarrow> ids m key = []"
  by (auto simp: get split: list.splits)

lemma get_oldest: "wf m \<Longrightarrow> ids m key \<noteq> [] \<Longrightarrow> get key (ins key b m) = get key m"
  by (cases "ids m key") (auto simp: get wf_ins ids_ins dict_ids_add_def)

lemma ins_pop:
  assumes "b \<notin> set (ids m key)"
  shows "fst (pop key b (ins key b m)) = Some b \<and> ids (snd (pop key b (ins key b m))) = ids m"
  using assms by (auto simp: pop_found ids_ins ids_pop dict_ids_add_def fun_eq_iff remove1_append)

text \<open>The relation between an index and an assignment of keys to blocks, and its updates.\<close>

lemma ids_assign:
  assumes "\<And>k x. x \<in> set (ids m k) \<longleftrightarrow> h x = Some k" "h b = None"
  shows "x \<in> set (ids (ins key b m) k) \<longleftrightarrow> (h(b \<mapsto> key)) x = Some k"
  using assms by (auto simp: ids_ins dict_ids_add_def)

lemma ids_unassign:
  assumes "wf m" "\<And>k x. x \<in> set (ids m k) \<longleftrightarrow> h x = Some k" "h b = Some key"
  shows "x \<in> set (ids (snd (pop key b m)) k) \<longleftrightarrow> (h(b := None)) x = Some k"
  using assms distinct_ids [of m key] by (auto simp: ids_pop)

end

interpretation bm: hash_index map_wf cached_ids get_one_block map_insert map_pop
  by unfold_locales (simp_all add: get_one_block_hd cached_ids_insert cached_ids_pop map_pop_found
      map_wf_insert map_wf_pop cached_ids_distinct)

subsection \<open>Invariant\<close>

text \<open>\<open>held\<close> is the multiset of references that callers hold: one element per allocated or touched
  and not yet freed reference. The blocks agree with it, the free queue holds exactly the blocks
  without a reference, and the map holds a block under a key exactly when the block has that hash.\<close>

definition refs_ok :: "nat multiset \<Rightarrow> kv_cache_block list \<Rightarrow> bool" where
  "refs_ok held bs \<longleftrightarrow> bs \<noteq> [] \<and> set_mset held \<subseteq> {..<length bs}
     \<and> (\<forall>b < length bs. is_null (bs ! b) = (b = 0)
          \<and> (0 < b \<longrightarrow> ref_cnt (bs ! b) = int (count held b)))"

definition hash_of :: "kv_cache_block list \<Rightarrow> nat \<Rightarrow> bytes option" where
  "hash_of bs b = (if b < length bs then block_hash (bs ! b) else None)"

definition hash_ok :: "kv_cache_block list \<Rightarrow> block_map \<Rightarrow> bool" where
  "hash_ok bs m \<longleftrightarrow> map_wf m \<and> (\<forall>key b. b \<in> set (cached_ids m key) \<longleftrightarrow> hash_of bs b = Some key)
     \<and> hash_of bs 0 = None"

definition unheld :: "nat multiset \<Rightarrow> nat \<Rightarrow> nat set" where
  "unheld held n = {b. 0 < b \<and> b < n \<and> b \<notin># held}"

definition free_ok :: "nat multiset \<Rightarrow> nat \<Rightarrow> free_queue \<Rightarrow> bool" where
  "free_ok held n q \<longleftrightarrow> (\<exists>xs. queue_of q xs \<and> set xs = unheld held n)"

definition blocks_ok :: "nat multiset \<Rightarrow> block_pool \<Rightarrow> bool" where
  "blocks_ok held p \<longleftrightarrow> refs_ok held (blocks p) \<and> hash_ok (blocks p) (cached_block_hash_to_block p)
     \<and> length (blocks p) = num_gpu_blocks p \<and> null_block p = 0"

definition pool_inv :: "nat multiset \<Rightarrow> block_pool \<Rightarrow> bool" where
  "pool_inv held p \<longleftrightarrow> blocks_ok held p \<and> free_ok held (num_gpu_blocks p) (free_block_queue p)"

text \<open>The fields an operation on single blocks leaves alone.\<close>

definition pool_frame :: "block_pool \<Rightarrow> block_pool \<Rightarrow> bool" where
  "pool_frame p p' \<longleftrightarrow> num_gpu_blocks p' = num_gpu_blocks p \<and> enable_caching p' = enable_caching p
     \<and> null_block p' = null_block p \<and> free_block_queue p' = free_block_queue p
     \<and> length (blocks p') = length (blocks p)"

lemma pool_frame_refl [simp]: "pool_frame p p"
  by (simp add: pool_frame_def)

lemma pool_frame_trans: "pool_frame p p' \<Longrightarrow> pool_frame p' p'' \<Longrightarrow> pool_frame p p''"
  by (simp add: pool_frame_def)

lemma upd_block_sel [simp]:
  "blocks (upd_block b f p) = (blocks p)[b := f (the_block p b)]"
  "num_gpu_blocks (upd_block b f p) = num_gpu_blocks p" "null_block (upd_block b f p) = null_block p"
  "free_block_queue (upd_block b f p) = free_block_queue p"
  "cached_block_hash_to_block (upd_block b f p) = cached_block_hash_to_block p"
  "enable_caching (upd_block b f p) = enable_caching p"
  "enable_kv_cache_events (upd_block b f p) = enable_kv_cache_events p"
  by (simp_all add: upd_block_def)

lemma on_metrics_sel [simp]:
  "blocks (on_metrics f p) = blocks p" "num_gpu_blocks (on_metrics f p) = num_gpu_blocks p"
  "null_block (on_metrics f p) = null_block p" "free_block_queue (on_metrics f p) = free_block_queue p"
  "cached_block_hash_to_block (on_metrics f p) = cached_block_hash_to_block p"
  "enable_caching (on_metrics f p) = enable_caching p"
  "enable_kv_cache_events (on_metrics f p) = enable_kv_cache_events p"
  by (simp_all add: on_metrics_def)

lemma blocks_ok_metrics [simp]: "blocks_ok held (on_metrics f p) = blocks_ok held p"
  by (simp add: blocks_ok_def)

lemma hash_of_update:
  "b < length bs \<Longrightarrow> hash_of (bs[b := k]) = (hash_of bs)(b := block_hash k)"
  by (auto simp: hash_of_def fun_eq_iff nth_list_update)

lemma hash_of_ref [simp]: "hash_of (bs[b := (bs ! b)\<lparr>ref_cnt := r\<rparr>]) = hash_of bs"
  by (cases "b < length bs") (auto simp: hash_of_update fun_eq_iff hash_of_def list_update_beyond)

lemma hash_ok_refs: "b < length bs \<Longrightarrow> block_hash k = block_hash (bs ! b) \<Longrightarrow>
   hash_ok (bs[b := k]) m = hash_ok bs m"
proof -
  assume "b < length bs" "block_hash k = block_hash (bs ! b)"
  then have "hash_of (bs[b := k]) = hash_of bs" by (auto simp: hash_of_update fun_eq_iff hash_of_def)
  then show ?thesis by (simp add: hash_ok_def)
qed

lemma refs_ok_hash: "b < length bs \<Longrightarrow>
   refs_ok held (bs[b := (bs ! b)\<lparr>block_hash := h\<rparr>]) = refs_ok held bs"
  by (auto simp: refs_ok_def nth_list_update)

lemma refs_ok_add:
  "refs_ok held bs \<Longrightarrow> b < length bs \<Longrightarrow>
   refs_ok (add_mset b held) (bs[b := (bs ! b)\<lparr>ref_cnt := ref_cnt (bs ! b) + 1\<rparr>])"
  by (auto simp: refs_ok_def nth_list_update)

lemma refs_ok_remove:
  "refs_ok held bs \<Longrightarrow> b \<in># held \<Longrightarrow>
   refs_ok (held - {#b#}) (bs[b := (bs ! b)\<lparr>ref_cnt := ref_cnt (bs ! b) - 1\<rparr>])"
  by (auto simp: refs_ok_def nth_list_update of_nat_diff dest: in_diffD)

lemma blocks_ok_add:
  "blocks_ok held p \<Longrightarrow> b < num_gpu_blocks p \<Longrightarrow>
   blocks_ok (add_mset b held) (upd_block b (\<lambda>k. k\<lparr>ref_cnt := ref_cnt k + 1\<rparr>) p)"
  by (simp add: blocks_ok_def refs_ok_add hash_ok_refs)

lemma maybe_evict_spec:
  assumes "blocks_ok held p" "b < num_gpu_blocks p"
  shows "let (evicted, p') = maybe_evict_cached_block b p in
    evicted = (block_hash (the_block p b) \<noteq> None) \<and> blocks_ok held p' \<and> pool_frame p p'
    \<and> blocks p' = (blocks p)[b := (the_block p b)\<lparr>block_hash := None\<rparr>]"
proof (cases "block_hash (the_block p b)")
  case None
  then have "(the_block p b)\<lparr>block_hash := None\<rparr> = the_block p b" by simp
  then have id: "(blocks p)[b := (the_block p b)\<lparr>block_hash := None\<rparr>] = blocks p"
    by (metis list_update_id)
  show ?thesis using None assms
    by (simp add: maybe_evict_cached_block_def Let_def pool_frame_def id)
next
  case (Some key)
  let ?m = "cached_block_hash_to_block p" and ?bs = "blocks p"
  have ok: "refs_ok held ?bs" "hash_ok ?bs ?m" and b: "b < length ?bs"
    using assms by (simp_all add: blocks_ok_def)
  have h: "hash_of ?bs b = Some key" using Some b by (simp add: hash_of_def)
  then have f: "b \<in> set (cached_ids ?m key)" using ok(2) by (simp add: hash_ok_def)
  have "hash_ok (?bs[b := (?bs ! b)\<lparr>block_hash := None\<rparr>]) (snd (map_pop key b ?m))"
    unfolding hash_ok_def
  proof (intro conjI allI)
    show "map_wf (snd (map_pop key b ?m))" using ok(2) by (simp add: hash_ok_def bm.wf_pop)
    show "x \<in> set (cached_ids (snd (map_pop key b ?m)) k) \<longleftrightarrow>
        hash_of (?bs[b := (?bs ! b)\<lparr>block_hash := None\<rparr>]) x = Some k" for k x
      using bm.ids_unassign [of ?m "hash_of ?bs" b key x k] ok(2) h b by (simp add: hash_ok_def hash_of_update)
    show "hash_of (?bs[b := (?bs ! b)\<lparr>block_hash := None\<rparr>]) 0 = None"
      using ok(2) b by (auto simp: hash_ok_def hash_of_update)
  qed
  moreover obtain m' where "map_pop key b ?m = (Some b, m')"
    using f bm.pop_found [of key b ?m] by (metis prod.collapse)
  ultimately show ?thesis using Some assms b
    by (auto simp: maybe_evict_cached_block_def Let_def pool_frame_def blocks_ok_def refs_ok_hash)
qed

subsection \<open>Allocation\<close>

lemma allocate1_spec:
  assumes "blocks_ok held p" "0 < b" "b < num_gpu_blocks p" "b \<notin># held"
  shows "\<exists>p'. allocate1 b p = Inr p' \<and> blocks_ok (add_mset b held) p' \<and> pool_frame p p'
    \<and> hash_of (blocks p') = (hash_of (blocks p))(b := if enable_caching p then None else hash_of (blocks p) b)"
proof -
  obtain p1 where p1: "p1 = (if enable_caching p then snd (maybe_evict_cached_block b p) else p)" by simp
  have len: "length (blocks p) = num_gpu_blocks p" using assms(1) by (simp add: blocks_ok_def)
  have f: "blocks_ok held p1" "pool_frame p p1"
    "hash_of (blocks p1) = (hash_of (blocks p))(b := if enable_caching p then None else hash_of (blocks p) b)"
    using maybe_evict_spec [OF assms(1,3)] assms len
    by (auto simp: p1 split_beta Let_def hash_of_update fun_eq_iff)
  have b1: "b < num_gpu_blocks p1" using f(2) assms(3) by (simp add: pool_frame_def)
  then have "ref_cnt (the_block p1 b) = 0"
    using f(1) assms(2,4) by (auto simp: blocks_ok_def refs_ok_def not_in_iff)
  then show ?thesis
    using f blocks_ok_add [OF f(1) b1] by (simp add: allocate1_def hash_of_ref Let_def p1 [symmetric] py_assert_def pool_frame_def)
qed

lemma allocate_all:
  assumes "blocks_ok held p" "distinct bs" "\<And>b. b \<in> set bs \<Longrightarrow> 0 < b \<and> b < num_gpu_blocks p \<and> b \<notin># held"
  shows "\<exists>p'. rfold allocate1 bs p = Inr p' \<and> blocks_ok (held + mset bs) p' \<and> pool_frame p p'
    \<and> (\<forall>b. hash_of (blocks p') b =
          (if b \<in> set bs \<and> enable_caching p then None else hash_of (blocks p) b))"
  using assms
proof (induction bs arbitrary: held p)
  case Nil
  then show ?case by simp
next
  case (Cons b bs)
  obtain p1 where p1: "allocate1 b p = Inr p1" "blocks_ok (add_mset b held) p1" "pool_frame p p1"
    "hash_of (blocks p1) = (hash_of (blocks p))(b := if enable_caching p then None else hash_of (blocks p) b)"
    using allocate1_spec [of held p b] Cons.prems by auto
  have "num_gpu_blocks p1 = num_gpu_blocks p" "enable_caching p1 = enable_caching p"
    using p1(3) by (simp_all add: pool_frame_def)
  moreover have "0 < x \<and> x < num_gpu_blocks p1 \<and> x \<notin># add_mset b held" if "x \<in> set bs" for x
    using Cons.prems(2,3) that calculation by auto
  ultimately obtain p2 where p2: "rfold allocate1 bs p1 = Inr p2" "blocks_ok (add_mset b held + mset bs) p2"
    "pool_frame p1 p2"
    "\<forall>x. hash_of (blocks p2) x = (if x \<in> set bs \<and> enable_caching p then None else hash_of (blocks p1) x)"
    using Cons.IH [OF p1(2)] Cons.prems(2) by auto
  then show ?case
    using p1 pool_frame_trans [OF p1(3) p2(3)] Cons.prems(2) by auto
qed

lemma unheld_take:
  assumes "set xs = unheld held n" "distinct xs"
  shows "set (drop k xs) = unheld (held + mset (take k xs)) n"
proof -
  have "set (take k xs) \<inter> set (drop k xs) = {}" "set (take k xs) \<union> set (drop k xs) = set xs"
    using assms(2) set_take_disj_set_drop_if_distinct [of xs k k]
    by (auto simp flip: set_append)
  then show ?thesis using assms(1) by (auto simp: unheld_def)
qed

text \<open>Allocation takes a prefix of the free queue: blocks nobody holds, each returned once.\<close>

lemma get_new_blocks_spec:
  assumes "pool_inv held p" "queue_of (free_block_queue p) xs" "n \<le> length xs"
  shows "\<exists>p'. get_new_blocks n p = Inr (take n xs, p') \<and> pool_inv (held + mset (take n xs)) p'
    \<and> queue_of (free_block_queue p') (drop n xs) \<and> num_gpu_blocks p' = num_gpu_blocks p
    \<and> (\<forall>b. hash_of (blocks p') b =
          (if b \<in> set (take n xs) \<and> enable_caching p then None else hash_of (blocks p) b))"
proof -
  have ok: "blocks_ok held p" and set: "set xs = unheld held (num_gpu_blocks p)"
    using assms(1,2) fq.unique unfolding pool_inv_def free_ok_def by blast+
  have dist: "distinct xs" using fq.distinct [OF assms(2)] .
  obtain q where q: "popleft_n n (free_block_queue p) = Inr (map Blk (take n xs), q)" "queue_of q (drop n xs)"
    using fq.pop_n_take [OF assms(2,3)] by blast
  let ?p = "p\<lparr>free_block_queue := q\<rparr>"
  have "blocks_ok held ?p" using ok by (simp add: blocks_ok_def)
  moreover have "0 < b \<and> b < num_gpu_blocks ?p \<and> b \<notin># held" if "b \<in> set (take n xs)" for b
    using set in_set_takeD [OF that] by (auto simp: unheld_def)
  ultimately obtain p' where p': "rfold allocate1 (take n xs) ?p = Inr p'"
    "blocks_ok (held + mset (take n xs)) p'" "pool_frame ?p p'"
    "\<forall>b. hash_of (blocks p') b =
        (if b \<in> set (take n xs) \<and> enable_caching ?p then None else hash_of (blocks ?p) b)"
    using allocate_all [of held ?p "take n xs"] dist by auto
  have "map node_block (map Blk (take n xs)) = take n xs" by (simp add: comp_def)
  moreover have "int n \<le> pool_num_free p" using fq.count [OF assms(2)] assms(3) by (simp add: pool_num_free_def)
  moreover have "set (drop n xs) = unheld (held + mset (take n xs)) (num_gpu_blocks p)"
    by (rule unheld_take [OF set dist])
  ultimately show ?thesis
    using p' q by (auto simp: get_new_blocks_def Let_def pool_inv_def free_ok_def pool_frame_def)
qed

lemma get_new_blocks_short:
  "queue_of (free_block_queue p) xs \<Longrightarrow> length xs < n \<Longrightarrow>
   get_new_blocks n p = Inl (ValueError ''Cannot get free blocks from the pool'')"
  by (simp add: get_new_blocks_def pool_num_free_def fq.count)

subsection \<open>References\<close>

lemma touch1_spec:
  assumes "pool_inv held p" "b < num_gpu_blocks p"
  shows "\<exists>p'. touch1 b p = Inr p' \<and> pool_inv (add_mset b held) p' \<and> num_gpu_blocks p' = num_gpu_blocks p
    \<and> hash_of (blocks p') = hash_of (blocks p)"
proof -
  obtain xs where xs: "queue_of (free_block_queue p) xs" "set xs = unheld held (num_gpu_blocks p)"
    using assms(1) by (auto simp: pool_inv_def free_ok_def)
  have ok: "blocks_ok held p" using assms(1) by (simp add: pool_inv_def)
  have b: "is_null (the_block p b) = (b = 0)" "0 < b \<longrightarrow> ref_cnt (the_block p b) = int (count held b)"
    using ok assms(2) by (auto simp: blocks_ok_def refs_ok_def)
  show ?thesis
  proof (cases "b \<in> unheld held (num_gpu_blocks p)")
    case True
    then obtain q where q: "queue_remove (Blk b) (free_block_queue p) = Inr q"
      "queue_of q (filter (\<lambda>y. y \<noteq> b) xs)"
      using fq.remove_filter [OF xs(1), of b] xs(2) by auto
    have ok': "blocks_ok held (p\<lparr>free_block_queue := q\<rparr>)" using ok by (simp add: blocks_ok_def)
    have "set (filter (\<lambda>y. y \<noteq> b) xs) = unheld (add_mset b held) (num_gpu_blocks p)"
      using xs(2) by (auto simp: unheld_def)
    moreover have "ref_cnt (the_block p b) = 0" "b \<noteq> 0" using True b by (auto simp: unheld_def not_in_iff)
    ultimately show ?thesis using q b blocks_ok_add [OF ok', of b] assms(2)
      by (auto simp: touch1_def pool_inv_def free_ok_def)
  next
    case False
    then have "unheld (add_mset b held) (num_gpu_blocks p) = unheld held (num_gpu_blocks p)"
      by (auto simp: unheld_def)
    moreover have "\<not> (ref_cnt (the_block p b) = 0 \<and> b \<noteq> 0)"
      using False b assms(2) by (auto simp: unheld_def count_eq_zero_iff)
    ultimately show ?thesis using b blocks_ok_add [OF ok assms(2)] xs
      by (auto simp: touch1_def pool_inv_def free_ok_def)
  qed
qed

lemma pool_touch_spec:
  assumes "pool_inv held p" "set bs \<subseteq> {..<num_gpu_blocks p}"
  shows "\<exists>p'. pool_touch bs p = Inr p' \<and> pool_inv (held + mset bs) p'
    \<and> hash_of (blocks p') = hash_of (blocks p)"
  using assms unfolding pool_touch_def
proof (induction bs arbitrary: held p)
  case Nil
  then show ?case by simp
next
  case (Cons b bs)
  obtain p1 where "touch1 b p = Inr p1" "pool_inv (add_mset b held) p1"
    "num_gpu_blocks p1 = num_gpu_blocks p" "hash_of (blocks p1) = hash_of (blocks p)"
    using touch1_spec [of held p b] Cons.prems by auto
  then show ?case using Cons.IH [of "add_mset b held" p1] Cons.prems by auto
qed

lemma deref_all:
  "blocks_ok held p \<Longrightarrow> mset bs \<subseteq># held \<Longrightarrow>
   blocks_ok (held - mset bs) (fold deref1 bs p) \<and> pool_frame p (fold deref1 bs p)
   \<and> hash_of (blocks (fold deref1 bs p)) = hash_of (blocks p)"
proof (induction bs arbitrary: held p)
  case Nil
  then show ?case by simp
next
  case (Cons b bs)
  have b: "b \<in># held" using Cons.prems(2) by (simp add: insert_subset_eq_iff)
  then have "b < length (blocks p)" using Cons.prems(1) by (auto simp: blocks_ok_def refs_ok_def)
  then have "blocks_ok (held - {#b#}) (deref1 b p)"
    using Cons.prems(1) b by (simp add: blocks_ok_def deref1_def refs_ok_remove hash_ok_refs)
  moreover have "mset bs \<subseteq># held - {#b#}"
    using Cons.prems(2) by (simp add: insert_subset_eq_iff)
  ultimately have "blocks_ok (held - {#b#} - mset bs) (fold deref1 bs (deref1 b p))
      \<and> pool_frame (deref1 b p) (fold deref1 bs (deref1 b p))
      \<and> hash_of (blocks (fold deref1 bs (deref1 b p))) = hash_of (blocks (deref1 b p))"
    by (rule Cons.IH)
  moreover have "pool_frame p (deref1 b p)" "hash_of (blocks (deref1 b p)) = hash_of (blocks p)"
    by (simp_all add: pool_frame_def deref1_def)
  ultimately show ?case by (auto intro: pool_frame_trans)
qed

text \<open>Freeing gives back references that are held; the blocks of one call are different apart from
  the null block. The blocks whose last reference goes are appended in the given order.\<close>

lemma free_blocks_spec:
  assumes "pool_inv held p" "mset bs \<subseteq># held" "distinct (filter (\<lambda>b. b \<noteq> 0) bs)"
    "queue_of (free_block_queue p) xs"
  shows "\<exists>p'. free_blocks bs p = Inr p' \<and> pool_inv (held - mset bs) p'
    \<and> queue_of (free_block_queue p') (xs @ filter (\<lambda>b. b \<noteq> 0 \<and> b \<notin># held - mset bs) bs)
    \<and> hash_of (blocks p') = hash_of (blocks p)"
proof -
  let ?p = "fold deref1 bs p" and ?held = "held - mset bs"
  let ?freed = "filter (\<lambda>b. b \<noteq> 0 \<and> b \<notin># ?held) bs"
  have ok: "blocks_ok held p" and set: "set xs = unheld held (num_gpu_blocks p)"
    using assms(1,4) fq.unique unfolding pool_inv_def free_ok_def by blast+
  have p: "blocks_ok ?held ?p" "pool_frame p ?p" "hash_of (blocks ?p) = hash_of (blocks p)"
    using deref_all [OF ok assms(2)] by blast+
  have in_held: "b \<in># held" if "b \<in> set bs" for b
    using assms(2) that by (metis mset_subset_eqD set_mset_mset)
  moreover have "set_mset held \<subseteq> {..<length (blocks ?p)}"
    using ok p(2) unfolding blocks_ok_def refs_ok_def pool_frame_def by metis
  ultimately have range: "b < length (blocks ?p)" if "b \<in> set bs" for b
    using that by blast
  have "filter (\<lambda>b. ref_cnt (the_block ?p b) = 0 \<and> \<not> is_null (the_block ?p b)) bs = ?freed"
  proof (rule filter_cong [OF refl])
    fix b
    assume "b \<in> set bs"
    then show "(ref_cnt (the_block ?p b) = 0 \<and> \<not> is_null (the_block ?p b)) = (b \<noteq> 0 \<and> b \<notin># ?held)"
      using p(1) range by (auto simp: blocks_ok_def refs_ok_def not_in_iff)
  qed
  moreover have "distinct ?freed"
    using assms(3) by (simp add: distinct_filter filter_filter [symmetric] del: filter_filter)
  moreover have "set ?freed \<inter> set xs = {}" using set in_held by (auto simp: unheld_def)
  ultimately obtain q where q: "append_n (map Blk ?freed) (free_block_queue p) = Inr q"
    "queue_of q (xs @ ?freed)" using fq.app_n [OF assms(4)] by blast
  have "set (xs @ ?freed) = unheld ?held (num_gpu_blocks p)"
    using set in_held range p ok by (auto simp: unheld_def blocks_ok_def pool_frame_def dest: in_diffD)
      (metis count_greater_zero_iff count_mset_0_iff diff_zero count_diff)+
  then show ?thesis
    using q p \<open>filter _ bs = ?freed\<close>
    by (auto simp: free_blocks_def Let_def pool_inv_def free_ok_def pool_frame_def blocks_ok_def)
qed

subsection \<open>Caching, eviction and reset\<close>

lemma cache_block1_ok:
  assumes "cache_block1 hashes gid block_mask (i, b) (p, acc) = Inr (p', acc')"
    and "blocks_ok held p" "b < num_gpu_blocks p"
  shows "blocks_ok held p' \<and> pool_frame p p'"
proof (cases "skipped block_mask i b p")
  case True
  then show ?thesis using assms by (simp add: cache_block1_def)
next
  case False
  let ?m = "cached_block_hash_to_block p" and ?bs = "blocks p"
  have ok: "refs_ok held ?bs" "hash_ok ?bs ?m" and b: "b < length ?bs"
    using assms by (simp_all add: blocks_ok_def)
  then have nz: "b \<noteq> 0" using False by (auto simp: skipped_def refs_ok_def)
  obtain key where key: "block_hash (the_block p b) = None"
    and p': "p' = (upd_block b (\<lambda>k. k\<lparr>block_hash := Some key\<rparr>) p)\<lparr>cached_block_hash_to_block := map_insert key b ?m\<rparr>"
    using assms(1) False
    by (auto simp: cache_block1_def set_block_hash_def py_assert_def rbind_eq_Inr split: if_splits)
  have h: "hash_of ?bs b = None" using key by (simp add: hash_of_def)
  have "hash_ok (?bs[b := (?bs ! b)\<lparr>block_hash := Some key\<rparr>]) (map_insert key b ?m)"
    unfolding hash_ok_def
  proof (intro conjI allI)
    show "map_wf (map_insert key b ?m)" using ok(2) by (simp add: hash_ok_def bm.wf_ins)
    show "x \<in> set (cached_ids (map_insert key b ?m) k) \<longleftrightarrow>
        hash_of (?bs[b := (?bs ! b)\<lparr>block_hash := Some key\<rparr>]) x = Some k" for k x
      using bm.ids_assign [of ?m "hash_of ?bs" b x key k] ok(2) h b by (simp add: hash_ok_def hash_of_update)
    show "hash_of (?bs[b := (?bs ! b)\<lparr>block_hash := Some key\<rparr>]) 0 = None"
      using ok(2) b nz by (auto simp: hash_ok_def hash_of_update)
  qed
  then show ?thesis using assms(2) b p' by (simp add: blocks_ok_def refs_ok_hash pool_frame_def)
qed

lemma stored_event_frame:
  "stored_event p r bs nc nf bsz gid block_mask hs parent = Inr (p', r') \<Longrightarrow>
   blocks p' = blocks p \<and> cached_block_hash_to_block p' = cached_block_hash_to_block p \<and> pool_frame p p'"
  by (auto simp: stored_event_def rbind_eq_Inr pool_frame_def split: prod.splits)

lemma cache_full_blocks_ok:
  assumes "cache_full_blocks r bs nc nf bsz gid block_mask p = Inr (p', r')"
    and "blocks_ok held p" "set bs \<subseteq> {..<num_gpu_blocks p}"
  shows "blocks_ok held p' \<and> pool_frame p p'"
proof (cases "nc \<ge> nf")
  case True
  then show ?thesis using assms by (simp add: cache_full_blocks_def)
next
  case False
  let ?new = "take (nf - nc) (drop nc bs)"
  obtain hashes parent p1 hs where
    loop: "rfold (cache_block1 hashes gid block_mask) (zip [0..<length ?new] ?new) (p, []) = Inr (p1, hs)"
    and fin: "(if enable_kv_cache_events p1 then stored_event p1 r bs nc nf bsz gid block_mask hs parent
           else Inr (p1, r)) = Inr (p', r')"
    using assms(1) False
    by (auto simp: cache_full_blocks_def Let_def py_assert_eq_Inr rbind_eq_Inr split: prod.splits)
  have "(\<lambda>(p1, acc). blocks_ok held p1 \<and> pool_frame p p1) (p1, hs)"
  proof (rule rfold_invariant [OF loop])
    show "case (p, []) of (p1, acc) \<Rightarrow> blocks_ok held p1 \<and> pool_frame p p1" using assms(2) by simp
  next
    fix x s t
    assume x: "x \<in> set (zip [0..<length ?new] ?new)" and s: "case s of (p1, acc) \<Rightarrow> blocks_ok held p1 \<and> pool_frame p p1"
      and t: "cache_block1 hashes gid block_mask x s = Inr t"
    have "snd x \<in> set ?new" using x by (metis prod.collapse set_zip_rightD)
    then have "snd x \<in> set bs" by (meson in_set_dropD in_set_takeD)
    then have "snd x < num_gpu_blocks p" using assms(3) by auto
    then show "case t of (p1, acc) \<Rightarrow> blocks_ok held p1 \<and> pool_frame p p1"
      using cache_block1_ok [of hashes gid block_mask "fst x" "snd x" "fst s" "snd s" "fst t" "snd t" held] t s
      by (auto simp: pool_frame_def split: prod.splits)
  qed
  then show ?thesis using fin stored_event_frame
    by (auto simp: blocks_ok_def pool_frame_def split: if_splits dest!: stored_event_frame)
qed

lemma evict_blocks_spec:
  assumes "blocks_ok held p" "set ids \<subseteq> {..<num_gpu_blocks p}"
  shows "\<exists>p'. evict_blocks ids p = Inr p' \<and> blocks_ok held p' \<and> pool_frame p p'
    \<and> (\<forall>b. hash_of (blocks p') b = (if b \<in> set ids then None else hash_of (blocks p) b))"
  using assms unfolding evict_blocks_def
proof (induction ids arbitrary: p)
  case Nil
  then show ?case by simp
next
  case (Cons b ids)
  have len: "length (blocks p) = num_gpu_blocks p" using Cons.prems(1) by (simp add: blocks_ok_def)
  let ?p = "snd (maybe_evict_cached_block b p)"
  have b: "blocks_ok held ?p" "pool_frame p ?p" "hash_of (blocks ?p) = (hash_of (blocks p))(b := None)"
    using maybe_evict_spec [OF Cons.prems(1), of b] Cons.prems(2) len
    by (auto simp: Let_def split_beta hash_of_update)
  then show ?case
    using Cons.IH [of ?p] Cons.prems(2) len pool_frame_trans [OF b(2)]
    by (fastforce simp: py_assert_def pool_frame_def)
qed

lemma hash_ok_empty: "hash_ok (map (\<lambda>k. k\<lparr>block_hash := None\<rparr>) bs) []"
  by (simp add: hash_ok_def map_wf_def cached_ids_def hash_of_def)

lemma reset_prefix_cache_ok:
  "pool_inv held p \<Longrightarrow> pool_inv held (snd (reset_prefix_cache p))"
  by (auto simp: reset_prefix_cache_def Let_def pool_inv_def blocks_ok_def hash_ok_empty refs_ok_def)

lemma pool_init_spec:
  "0 < n \<Longrightarrow> \<exists>p. pool_init n caching hbs events collector use_int = Inr p \<and> pool_inv {#} p
     \<and> num_gpu_blocks p = n \<and> queue_of (free_block_queue p) [1..<n] \<and> enable_caching p = caching"
proof -
  assume n: "0 < n"
  then have "queue_of (queue_init n) (0 # [1..<n])" using queue_init_spec [of n] by (simp add: upt_rec)
  then obtain q where q: "popleft (queue_init n) = Inr (Blk 0, q)" "queue_of q [1..<n]"
    using fq.pop by blast
  have "set [1..<n] = unheld {#} n" by (auto simp: unheld_def)
  then show ?thesis using n q
    by (auto simp: pool_init_def py_assert_def pool_inv_def free_ok_def blocks_ok_def refs_ok_def hash_ok_def
        map_wf_def cached_ids_def hash_of_def new_block_def nth_list_update)
qed

subsection \<open>The frontier of the next allocation\<close>

lemma peek_loop_chain:
  "chain (nxt (free_block_queue p)) pr (map Blk xs @ [Tail]) \<Longrightarrow>
   peek_loop n (Some (hd (map Blk xs @ [Tail]))) p = map (\<lambda>b. (b, block_hash (the_block p b))) (take n xs)"
proof (induction xs arbitrary: n)
  case Nil
  then show ?case by (cases n) simp_all
next
  case (Cons x xs)
  obtain c B where B: "map Blk xs @ [Tail] = c # B"
    by (metis Nil_is_append_conv list.exhaust not_Cons_self2)
  show ?case using Cons.prems Cons.IH B by (cases n) simp_all
qed

lemma peek_spec:
  assumes "queue_of (free_block_queue p) xs" "0 \<le> limit"
  shows "peek_free_block_frontier limit p =
    Inr (map (\<lambda>b. (b, block_hash (the_block p b))) (take (nat limit) xs))"
proof -
  obtain c B where B: "map Blk xs @ [Tail] = c # B"
    by (metis Nil_is_append_conv list.exhaust not_Cons_self2)
  then have "nxt (free_block_queue p) Head = Some (hd (map Blk xs @ [Tail]))"
    "chain (nxt (free_block_queue p)) (prv (free_block_queue p)) (map Blk xs @ [Tail])"
    using assms(1) by (simp_all add: queue_of_def)
  then show ?thesis using assms(2) peek_loop_chain by (simp add: peek_free_block_frontier_def)
qed

subsection \<open>Reachable states\<close>

text \<open>The callers of the pool: they free only references they hold, each block of a call once, and
  name blocks of the pool.\<close>

inductive pool_step :: "nat multiset \<times> block_pool \<Rightarrow> nat multiset \<times> block_pool \<Rightarrow> bool" where
  step_alloc: "get_new_blocks n p = Inr (bs, p') \<Longrightarrow> pool_step (held, p) (held + mset bs, p')"
| step_touch: "set bs \<subseteq> {..<num_gpu_blocks p} \<Longrightarrow> pool_touch bs p = Inr p' \<Longrightarrow>
    pool_step (held, p) (held + mset bs, p')"
| step_free: "mset bs \<subseteq># held \<Longrightarrow> distinct (filter (\<lambda>b. b \<noteq> 0) bs) \<Longrightarrow> free_blocks bs p = Inr p' \<Longrightarrow>
    pool_step (held, p) (held - mset bs, p')"
| step_cache: "set bs \<subseteq> {..<num_gpu_blocks p} \<Longrightarrow>
    cache_full_blocks r bs nc nf bsz gid block_mask p = Inr (p', r') \<Longrightarrow> pool_step (held, p) (held, p')"
| step_evict: "set ids \<subseteq> {..<num_gpu_blocks p} \<Longrightarrow> evict_blocks ids p = Inr p' \<Longrightarrow>
    pool_step (held, p) (held, p')"
| step_reset: "pool_step (held, p) (held, snd (reset_prefix_cache p))"
| step_events: "pool_step (held, p) (held, snd (pool_take_events p))"

inductive pool_reachable :: "nat multiset \<times> block_pool \<Rightarrow> bool" where
  pool_start: "pool_init n caching hbs events collector use_int = Inr p \<Longrightarrow> pool_reachable ({#}, p)"
| pool_next: "pool_reachable s \<Longrightarrow> pool_step s t \<Longrightarrow> pool_reachable t"

inductive_cases pool_stepE: "pool_step (held, p) t"

lemma pool_inv_frame:
  "pool_inv held p \<Longrightarrow> blocks_ok held p' \<Longrightarrow> pool_frame p p' \<Longrightarrow> pool_inv held p'"
  by (simp add: pool_inv_def pool_frame_def)

lemma alloc_inv:
  assumes "pool_inv held p" "get_new_blocks n p = Inr (bs, p')"
  shows "pool_inv (held + mset bs) p'"
proof -
  obtain xs where xs: "queue_of (free_block_queue p) xs"
    using assms(1) by (auto simp: pool_inv_def free_ok_def)
  then have "n \<le> length xs" using get_new_blocks_short [OF xs, of n] assms(2) by (cases "n \<le> length xs") auto
  from get_new_blocks_spec [OF assms(1) xs this] show ?thesis using assms(2) by auto
qed

lemma pool_step_inv:
  assumes "pool_step (held, p) (held', p')" "pool_inv held p"
  shows "pool_inv held' p'"
  using assms(1)
proof (cases rule: pool_step.cases)
  case (step_alloc n bs)
  then show ?thesis using alloc_inv [OF assms(2)] by simp
next
  case (step_touch bs)
  then show ?thesis using pool_touch_spec [OF assms(2), of bs] by auto
next
  case (step_free bs)
  obtain xs where xs: "queue_of (free_block_queue p) xs"
    using assms(2) by (auto simp: pool_inv_def free_ok_def)
  then show ?thesis using free_blocks_spec [OF assms(2) step_free(2,3) xs] step_free by auto
next
  case (step_cache bs r nc nf bsz gid block_mask r')
  then show ?thesis
    using cache_full_blocks_ok [of r bs nc nf bsz gid block_mask p p' r' held] assms(2) pool_inv_frame
    by (auto simp: pool_inv_def)
next
  case (step_evict ids)
  then show ?thesis using evict_blocks_spec [of held p ids] assms(2) pool_inv_frame
    by (fastforce simp: pool_inv_def)
next
  case step_reset
  then show ?thesis using assms(2) reset_prefix_cache_ok by simp
next
  case step_events
  then show ?thesis using assms(2) by (simp add: pool_take_events_def pool_inv_def blocks_ok_def)
qed

lemma pool_reachable_inv: "pool_reachable s \<Longrightarrow> pool_inv (fst s) (snd s)"
proof (induction rule: pool_reachable.induct)
  case (pool_start n caching hbs events collector use_int p)
  then show ?case using pool_init_spec [of n caching hbs events collector use_int]
    by (auto simp: pool_init_def py_assert_def split: if_splits)
next
  case (pool_next s t)
  then show ?case using pool_step_inv [of "fst s" "snd s" "fst t" "snd t"] by simp
qed

lemma pool_queue:
  assumes "pool_reachable (held, p)"
  shows "\<exists>xs. queue_of (free_block_queue p) xs \<and> distinct xs \<and> set xs = unheld held (num_gpu_blocks p)"
  using pool_reachable_inv [OF assms] fq.distinct by (auto simp: pool_inv_def free_ok_def)

subsection \<open>Properties\<close>

definition sample_pool :: block_pool where
  "sample_pool = (case pool_init 4 True 16 True None False of Inr p \<Rightarrow> p | Inl _ \<Rightarrow> undefined)"

lemma sample_pool_init: "pool_init 4 True 16 True None False = Inr sample_pool"
  using pool_init_spec [of 4 True 16 True None False] by (auto simp: sample_pool_def)

lemma sample_pool_reachable: "pool_reachable ({#}, sample_pool)"
  by (rule pool_start [OF sample_pool_init])

lemma sample_pool_queue: "queue_of (free_block_queue sample_pool) [1, 2, 3]" "num_gpu_blocks sample_pool = 4"
proof -
  have "[1..<4] = [1, 2, 3::nat]" by (simp add: upt_rec)
  then show "queue_of (free_block_queue sample_pool) [1, 2, 3]" "num_gpu_blocks sample_pool = 4"
    using pool_init_spec [of 4 True 16 True None False] sample_pool_init by auto
qed

text \<open>\<^bold>\<open>C34\<close>. Conservation of GPU blocks. In every reachable state the walk over the free queue ends and
  yields, without repetition, exactly the blocks other than the null block that nobody holds; the
  reference count of every other block is the number of references held; and the free blocks
  together with the held ones are all blocks of the pool but the null block.\<close>

theorem block_conservation:
  assumes "pool_reachable (held, p)"
  shows "\<exists>xs. get_all_free_blocks (free_block_queue p) = Inr (Some (map Blk xs)) \<and> distinct xs
    \<and> set xs = {b. 0 < b \<and> b < num_gpu_blocks p \<and> b \<notin># held}
    \<and> (\<forall>b. 0 < b \<and> b < num_gpu_blocks p \<longrightarrow> ref_cnt (the_block p b) = int (count held b))
    \<and> pool_num_free p + int (card (set_mset held - {0})) = int (num_gpu_blocks p) - 1"
proof -
  obtain xs where xs: "queue_of (free_block_queue p) xs" "distinct xs"
    "set xs = unheld held (num_gpu_blocks p)" using pool_queue [OF assms] by blast
  have inv: "refs_ok held (blocks p)" "length (blocks p) = num_gpu_blocks p"
    using pool_reachable_inv [OF assms] by (simp_all add: pool_inv_def blocks_ok_def)
  have all: "{1..<num_gpu_blocks p} = set xs \<union> (set_mset held - {0})"
    using inv xs(3) by (auto simp: refs_ok_def unheld_def)
  have "card {1..<num_gpu_blocks p} = card (set xs) + card (set_mset held - {0})"
    unfolding all using xs(3) by (intro card_Un_disjoint) (auto simp: unheld_def)
  then have "length xs + card (set_mset held - {0}) = num_gpu_blocks p - 1"
    using distinct_card [OF xs(2)] by simp
  moreover have "num_gpu_blocks p \<ge> 1" using inv by (cases "blocks p") (auto simp: refs_ok_def)
  ultimately show ?thesis
    using xs inv get_all_free_blocks_spec [OF xs(1)] fq.count [OF xs(1)]
    by (auto simp: refs_ok_def unheld_def pool_num_free_def)
qed

theorem block_conservation_witness:
  "pool_reachable ({#}, sample_pool) \<and>
   (\<exists>xs. get_all_free_blocks (free_block_queue sample_pool) = Inr (Some (map Blk xs)) \<and> distinct xs
    \<and> set xs = {b. 0 < b \<and> b < num_gpu_blocks sample_pool \<and> b \<notin># {#}}
    \<and> (\<forall>b. 0 < b \<and> b < num_gpu_blocks sample_pool \<longrightarrow>
         ref_cnt (the_block sample_pool b) = int (count {#} b))
    \<and> pool_num_free sample_pool + int (card (set_mset {#} - {0})) = int (num_gpu_blocks sample_pool) - 1)"
  using block_conservation [OF sample_pool_reachable] sample_pool_reachable by simp

text \<open>\<^bold>\<open>C35\<close>. Allocation. In a reachable state \<open>get_new_blocks n\<close> succeeds exactly when \<open>n\<close> blocks are free.
  It then returns \<open>n\<close> different blocks that nobody held, never the null block, with one reference
  each, and with caching no longer reachable through any hash; other blocks keep their hashes.
  Otherwise it raises \<open>ValueError\<close>.\<close>

theorem allocation_exclusive:
  assumes "pool_reachable (held, p)"
  shows "(int n > pool_num_free p \<and> (\<exists>msg. get_new_blocks n p = Inl (ValueError msg))) \<or>
   (\<exists>bs p'. get_new_blocks n p = Inr (bs, p') \<and> length bs = n \<and> distinct bs
      \<and> (\<forall>b \<in> set bs. 0 < b \<and> b < num_gpu_blocks p \<and> b \<notin># held \<and> ref_cnt (the_block p' b) = 1
            \<and> (enable_caching p \<longrightarrow> block_hash (the_block p' b) = None))
      \<and> pool_num_free p' = pool_num_free p - int n
      \<and> (\<forall>b < num_gpu_blocks p. b \<notin> set bs \<longrightarrow> block_hash (the_block p' b) = block_hash (the_block p b)))"
proof -
  obtain xs where xs: "queue_of (free_block_queue p) xs" "distinct xs"
    "set xs = unheld held (num_gpu_blocks p)" using pool_queue [OF assms] by blast
  have inv: "pool_inv held p" using pool_reachable_inv [OF assms] by simp
  have count: "pool_num_free p = int (length xs)" using fq.count [OF xs(1)] by (simp add: pool_num_free_def)
  show ?thesis
  proof (cases "n \<le> length xs")
    case True
    then obtain p' where p': "get_new_blocks n p = Inr (take n xs, p')"
      "pool_inv (held + mset (take n xs)) p'" "queue_of (free_block_queue p') (drop n xs)"
      "num_gpu_blocks p' = num_gpu_blocks p"
      and h: "\<And>b. hash_of (blocks p') b =
        (if b \<in> set (take n xs) \<and> enable_caching p then None else hash_of (blocks p) b)"
      using get_new_blocks_spec [OF inv xs(1)] by blast
    have len: "length (blocks p') = num_gpu_blocks p" "length (blocks p) = num_gpu_blocks p"
      using p'(2,4) inv by (simp_all add: pool_inv_def blocks_ok_def)
    have new: "0 < b \<and> b < num_gpu_blocks p \<and> b \<notin># held \<and> ref_cnt (the_block p' b) = 1
        \<and> (enable_caching p \<longrightarrow> block_hash (the_block p' b) = None)" if b: "b \<in> set (take n xs)" for b
    proof -
      have u: "b \<in> unheld held (num_gpu_blocks p)" using xs(3) in_set_takeD [OF b] by simp
      moreover have "count (mset (take n xs)) b = 1"
        using distinct_take [OF xs(2), of n] b by (simp add: distinct_count_atmost_1)
      ultimately show ?thesis using p'(2) len h [of b] b
        by (auto simp: pool_inv_def blocks_ok_def refs_ok_def unheld_def not_in_iff hash_of_def)
    qed
    have "block_hash (the_block p' b) = block_hash (the_block p b)"
      if "b < num_gpu_blocks p" "b \<notin> set (take n xs)" for b
      using h [of b] that len by (simp add: hash_of_def)
    then show ?thesis
      using True p'(1) xs(2) count new fq.count [OF p'(3)]
      by (intro disjI2 exI [of _ "take n xs"] exI [of _ p']) (auto simp: pool_num_free_def)
  next
    case False
    then show ?thesis using get_new_blocks_short [OF xs(1)] count by auto
  qed
qed

theorem allocation_exclusive_witness:
  "(int 2 > pool_num_free sample_pool \<and> (\<exists>msg. get_new_blocks 2 sample_pool = Inl (ValueError msg))) \<or>
   (\<exists>bs p'. get_new_blocks 2 sample_pool = Inr (bs, p') \<and> length bs = 2 \<and> distinct bs
      \<and> (\<forall>b \<in> set bs. 0 < b \<and> b < num_gpu_blocks sample_pool \<and> b \<notin># {#} \<and> ref_cnt (the_block p' b) = 1
            \<and> (enable_caching sample_pool \<longrightarrow> block_hash (the_block p' b) = None))
      \<and> pool_num_free p' = pool_num_free sample_pool - int 2
      \<and> (\<forall>b < num_gpu_blocks sample_pool. b \<notin> set bs \<longrightarrow>
            block_hash (the_block p' b) = block_hash (the_block sample_pool b)))"
  by (rule allocation_exclusive [OF sample_pool_reachable])

text \<open>\<^bold>\<open>C37\<close>. The peeked frontier is the next allocation. In a reachable state with at least \<open>n\<close> free blocks
  \<open>peek_free_block_frontier n\<close> ends with exactly the blocks, in order, that \<open>get_new_blocks n\<close> returns
  in the same state, each with the hash it has before it is evicted.\<close>

theorem frontier_is_next_allocation:
  assumes "pool_reachable (held, p)" "int n \<le> pool_num_free p"
  shows "\<exists>bs p'. get_new_blocks n p = Inr (bs, p')
    \<and> peek_free_block_frontier (int n) p = Inr (map (\<lambda>b. (b, block_hash (the_block p b))) bs)"
proof -
  obtain xs where xs: "queue_of (free_block_queue p) xs" using pool_queue [OF assms(1)] by blast
  then have "n \<le> length xs" using assms(2) fq.count [OF xs] by (simp add: pool_num_free_def)
  then show ?thesis
    using get_new_blocks_spec [OF _ xs, of held n] pool_reachable_inv [OF assms(1)] peek_spec [OF xs, of "int n"]
    by auto
qed

theorem frontier_is_next_allocation_witness:
  "int 2 \<le> pool_num_free sample_pool \<and>
   (\<exists>bs p'. get_new_blocks 2 sample_pool = Inr (bs, p')
    \<and> peek_free_block_frontier (int 2) sample_pool =
        Inr (map (\<lambda>b. (b, block_hash (the_block sample_pool b))) bs))"
proof -
  have "int 2 \<le> pool_num_free sample_pool"
    using fq.count [OF sample_pool_queue(1)] by (simp add: pool_num_free_def)
  then show ?thesis using frontier_is_next_allocation [OF sample_pool_reachable] by blast
qed

text \<open>\<^bold>\<open>C36\<close>. A prefix-cache hit is exact. In a reachable state a hit of \<open>get_cached_block\<close> gives one block per
  group, and the block of a group carries exactly the key of the hash and that group, is a block of
  the pool and is not the null block; a miss means that for some group no block carries the key.
  No other outcome exists but an overflow of a group number.\<close>

theorem cache_hit_exact:
  assumes "pool_reachable (held, p)"
  shows "case get_cached_block h gs p of
      Inr (Some bs) \<Rightarrow> list_all2 (\<lambda>g b. b < num_gpu_blocks p \<and> b \<noteq> 0
        \<and> make_block_hash_with_group_id h g = Inr (the (block_hash (the_block p b)))
        \<and> block_hash (the_block p b) \<noteq> None) gs bs
    | Inr None \<Rightarrow> (\<exists>g \<in> set gs. \<exists>key. make_block_hash_with_group_id h g = Inr key
        \<and> (\<forall>b < num_gpu_blocks p. block_hash (the_block p b) \<noteq> Some key))
    | Inl e \<Rightarrow> e = OverflowError \<and> (\<exists>g \<in> set gs. g \<ge> 2 ^ 32)"
proof (induction gs)
  case Nil
  then show ?case by simp
next
  case (Cons g gs)
  let ?m = "cached_block_hash_to_block p"
  have ok: "hash_ok (blocks p) ?m" "length (blocks p) = num_gpu_blocks p"
    using pool_reachable_inv [OF assms] by (simp_all add: pool_inv_def blocks_ok_def)
  show ?case
  proof (cases "make_block_hash_with_group_id h g")
    case (Inl e)
    then show ?thesis
      by (auto simp: make_block_hash_with_group_id_def to_bytes4_def split: if_splits)
  next
    case (Inr key)
    show ?thesis
    proof (cases "cached_ids ?m key")
      case Nil
      then have "hash_of (blocks p) b \<noteq> Some key" for b using ok(1) unfolding hash_ok_def by (metis list.set(1) empty_iff)
      then have "\<forall>b < num_gpu_blocks p. block_hash (the_block p b) \<noteq> Some key"
        using ok(2) unfolding hash_of_def by metis
      then show ?thesis using Inr Nil ok(1) bm.get [of ?m key]
        by (auto simp: hash_ok_def)
    next
      case (Cons b bs)
      then have h: "hash_of (blocks p) b = Some key" using ok(1) unfolding hash_ok_def by (metis list.set_intros(1))
      then have "b \<noteq> 0" using ok(1) by (intro notI) (simp add: hash_ok_def)
      with h have b: "b < num_gpu_blocks p" "b \<noteq> 0" "block_hash (the_block p b) = Some key"
        using ok(2) by (auto simp: hash_of_def split: if_splits)
      then show ?thesis using Inr Cons ok(1) Cons.IH bm.get [of ?m key]
        by (auto simp: hash_ok_def split: sum.splits option.splits)
    qed
  qed
qed

theorem cache_hit_exact_witness:
  "case get_cached_block [1] [0, 1] sample_pool of
      Inr (Some bs) \<Rightarrow> list_all2 (\<lambda>g b. b < num_gpu_blocks sample_pool \<and> b \<noteq> 0
        \<and> make_block_hash_with_group_id [1] g = Inr (the (block_hash (the_block sample_pool b)))
        \<and> block_hash (the_block sample_pool b) \<noteq> None) [0, 1] bs
    | Inr None \<Rightarrow> (\<exists>g \<in> set [0, 1]. \<exists>key. make_block_hash_with_group_id [1] g = Inr key
        \<and> (\<forall>b < num_gpu_blocks sample_pool. block_hash (the_block sample_pool b) \<noteq> Some key))
    | Inl e \<Rightarrow> e = OverflowError \<and> (\<exists>g \<in> set [0, 1 :: nat]. g \<ge> 2 ^ 32)"
  by (rule cache_hit_exact [OF sample_pool_reachable])

end
