(* ===== verification/Scheduling.thy ===== *)
theory Scheduling
  imports Capacity Config Metrics Block_Pool
begin

section \<open>The scheduling controller\<close>

text \<open>
  The class \<open>SchedulingController\<close> of \<^verbatim>\<open>vllm/tokencake/scheduling.py\<close>: which waiting request may take
  GPU blocks, from which share of the capacity plan, in which order, and which running request is
  preempted. Every method is a function on the record \<open>controller\<close>; methods that can raise return
  a result. The readings of \<open>time.time\<close> and \<open>time.monotonic\<close> are arguments, in the order of the
  calls. Of the KV cache manager the controller sees the record \<open>kv_manager\<close>: the block pool, the
  blocks of each request, and the answers of the coordinator.
\<close>

subsection \<open>What the controller sees\<close>

record alloc_query =
  aq_request_id :: string
  aq_num_tokens :: int
  aq_new_computed_blocks :: "nat list list"
  aq_num_encoder_tokens :: int
  aq_total_computed_tokens :: int
  aq_num_tokens_main_model :: int
  aq_apply_admission_cap :: bool

record kv_manager =
  km_pool :: block_pool
  km_blocks :: "string \<Rightarrow> nat list list"
  km_enable_caching :: bool
  km_max_model_len :: int
  km_full_attention :: bool
  km_empty_blocks :: "nat list list"
  get_num_blocks_to_allocate :: "alloc_query \<Rightarrow> int"
  find_longest_cache_hit :: "bytes list \<Rightarrow> int \<Rightarrow> nat list list \<times> int"

record sched_request =
  request_id :: string
  num_tokens :: int
  num_prompt_tokens :: int
  max_tokens :: int
  num_computed_tokens :: int
  num_output_tokens :: int
  num_preemptions :: int
  arrival_time :: pyfloat
  priority :: int
  has_encoder_inputs :: bool
  skip_reading_prefix_cache :: bool
  req_block_hashes :: "bytes list"

text \<open>The native removal of blocks that an attention window has passed; it is a parameter of the
  methods that call it.\<close>

type_synonym skipper = "string \<Rightarrow> int \<Rightarrow> kv_manager \<Rightarrow> kv_manager"

subsection \<open>Dictionaries and minima\<close>

definition od_get :: "'k \<Rightarrow> ('k, 'v) odict \<Rightarrow> 'v res" where
  "od_get k d = (case map_of d k of None \<Rightarrow> Inl KeyError | Some v \<Rightarrow> Inr v)"

definition dict_of :: "('k \<times> 'v) list \<Rightarrow> ('k, 'v) odict" where
  "dict_of kvs = fold (\<lambda>(k, v) d. AList.update k v d) kvs []"

text \<open>\<open>min(xs, key=...)\<close>: the first element with the least key, an error on no elements.\<close>

definition py_min_by :: "('a \<Rightarrow> 'k::linorder) \<Rightarrow> 'a list \<Rightarrow> 'a res" where
  "py_min_by key xs =
     (case xs of
        [] \<Rightarrow> Inl (ValueError ''min() arg is an empty sequence'')
      | x # ys \<Rightarrow> Inr (foldl (\<lambda>best y. if key y < key best then y else best) x ys))"

subsection \<open>State\<close>

definition adjustment_window :: int where "adjustment_window = 500"

definition sched_history_limit :: nat where "sched_history_limit = 4096"

definition preemption_score_band :: int where "preemption_score_band = 3000"

record controller =
  settings :: scheduling_config
  c_metrics :: tc_metrics
  num_lookahead_tokens :: int
  cache_capacity_precheck :: bool
  progress_reservation :: bool
  reclaim_reservation :: bool
  c_metadata :: "(string, metadata) odict"
  scores :: "(string, int) odict"
  agent_scores :: "(string, int) odict"
  history :: "(string, agent_history) odict"
  started :: "(string, pyfloat) odict"
  charges :: "(nat, string option) odict"
  used :: "string option \<Rightarrow> int"
  plan :: capacity_plan
  reserve_ratio :: pyfloat
  step_count :: int
  waiting_critical :: "string set"
  waiting_scores :: "(string, int) odict"
  shared_available :: int
  reserved_available :: "(string, int) odict"
  accounting_active :: bool
  executed_ranges :: "(string, (int \<times> int) list) odict"
  admitted :: "(string, int) odict"
  growth_commitments :: "(string, int) odict"
  prefill_limits :: "(string, int) odict"
  prefill_growth :: "(string, int) odict"
  growth_wait_started :: "(string, pyfloat) odict"
  reclaim_beneficiaries :: "string set"
  retry_capacity :: "(string, int \<times> int) odict"
  queued_at :: "(string, pyfloat) odict"
  completion_epoch :: int
  reservation_deferred :: "string set"
  cache_preferred :: "string set"
  priority_borrowed :: "string set"

definition controller_init :: "scheduling_config \<Rightarrow> kv_manager \<Rightarrow> tc_metrics \<Rightarrow> int \<Rightarrow> controller" where
  "controller_init s mgr m lookahead =
     (let precheck = (lookahead = 0 \<and> km_full_attention mgr);
          selective = (reserve_generation_tokens s \<and> precheck)
      in \<lparr>settings = s, c_metrics = m,
          num_lookahead_tokens = (if reserve_generation_tokens s then lookahead else 0),
          cache_capacity_precheck = precheck,
          progress_reservation = (selective \<and> generation_reserve_mode s = RM_progress),
          reclaim_reservation = (selective \<and> generation_reserve_mode s = RM_reclaim),
          c_metadata = [], scores = [], agent_scores = [], history = [], started = [], charges = [],
          used = (\<lambda>_. 0), plan = empty_plan, reserve_ratio = reserve_ratio_min s, step_count = 0,
          waiting_critical = {}, waiting_scores = [], shared_available = 0, reserved_available = [],
          accounting_active = False, executed_ranges = [], admitted = [], growth_commitments = [],
          prefill_limits = [], prefill_growth = [], growth_wait_started = [],
          reclaim_beneficiaries = {}, retry_capacity = [], queued_at = [], completion_epoch = 0,
          reservation_deferred = {}, cache_preferred = {}, priority_borrowed = {}\<rparr>)"

definition tally :: "metric \<Rightarrow> controller \<Rightarrow> controller" where
  "tally x c = c\<lparr>c_metrics := count1 x (c_metrics c)\<rparr>"

definition ctl_associate :: "pyfloat \<Rightarrow> string \<Rightarrow> metadata \<Rightarrow> controller \<Rightarrow> controller" where
  "ctl_associate t rid md c =
     c\<lparr>c_metadata := AList.update rid md (c_metadata c), queued_at := AList.update rid t (queued_at c)\<rparr>"

text \<open>\<open>_history\<close> returns the entry of an agent type, created when absent and moved to the end, after
  dropping the oldest entries beyond the limit; the callers then assign its attributes.\<close>

definition touch_history :: "string \<Rightarrow> controller \<Rightarrow> controller" where
  "touch_history key c =
     (let h = move_to_end key (set_default key new_history (history c))
      in c\<lparr>history := drop (length h - sched_history_limit) h\<rparr>)"

definition upd_history :: "string \<Rightarrow> (agent_history \<Rightarrow> agent_history) \<Rightarrow> controller \<Rightarrow> controller" where
  "upd_history key f c =
     (let c1 = touch_history key c in c1\<lparr>history := AList.map_entry key f (history c1)\<rparr>)"

subsection \<open>Demand and uncommitted capacity\<close>

definition block_ids :: "kv_manager \<Rightarrow> string \<Rightarrow> nat list" where
  "block_ids mgr rid =
     remdups (filter (\<lambda>b. \<not> is_null (the_block (km_pool mgr) b)) (concat (km_blocks mgr rid)))"

definition admission_tokens :: "kv_manager \<Rightarrow> sched_request \<Rightarrow> controller \<Rightarrow> int" where
  "admission_tokens mgr r c =
     (let full_tokens = (if reserve_generation_tokens (settings c)
                         then max (num_tokens r) (num_prompt_tokens r + max_tokens r)
                         else num_tokens r)
      in min full_tokens (km_max_model_len mgr))"

definition generation_headroom :: "controller \<Rightarrow> int" where
  "generation_headroom c =
     (case map (\<lambda>(k, growth). max 0 (growth - get_default 0 k (prefill_growth c))) (growth_commitments c) of
        [] \<Rightarrow> 0
      | x # xs \<Rightarrow> foldl min x xs)"

definition dict_sum :: "('k, int) odict \<Rightarrow> int" where
  "dict_sum d = sum_list (map snd d)"

fun beneficiary_growth :: "controller \<Rightarrow> (string, int) odict \<Rightarrow> int res" where
  "beneficiary_growth c [] = Inr 0"
| "beneficiary_growth c ((k, growth) # rest) =
     (if k \<in> reclaim_beneficiaries c then
        rbind (od_get k (prefill_growth c)) (\<lambda>pre.
        rbind (beneficiary_growth c rest) (\<lambda>s. Inr (max 0 (growth - pre) + s)))
      else beneficiary_growth c rest)"

definition committed_blocks :: "controller \<Rightarrow> int res" where
  "committed_blocks c =
     (if progress_reservation c then Inr (dict_sum (prefill_growth c) + generation_headroom c)
      else if reclaim_reservation c then
        rbind (beneficiary_growth c (growth_commitments c)) (\<lambda>s. Inr (dict_sum (prefill_growth c) + s))
      else Inr (dict_sum (growth_commitments c)))"

definition uncommitted_blocks :: "kv_manager \<Rightarrow> controller \<Rightarrow> int res" where
  "uncommitted_blocks mgr c =
     rbind (committed_blocks c) (\<lambda>committed. Inr (pool_num_free (km_pool mgr) - committed))"

definition remaining_growth :: "kv_manager \<Rightarrow> bool \<Rightarrow> sched_request \<Rightarrow> controller \<Rightarrow> int" where
  "remaining_growth mgr input_only r c =
     (let full_tokens = (if input_only
                         then min (get_default (num_tokens r) (request_id r) (prefill_limits c))
                                  (km_max_model_len mgr)
                         else admission_tokens mgr r c)
      in if num_computed_tokens r \<ge> full_tokens then 0
         else get_num_blocks_to_allocate mgr
                \<lparr>aq_request_id = request_id r,
                 aq_num_tokens = min (full_tokens + num_lookahead_tokens c) (km_max_model_len mgr),
                 aq_new_computed_blocks = km_empty_blocks mgr,
                 aq_num_encoder_tokens = get_default 0 (request_id r) (admitted c),
                 aq_total_computed_tokens = num_computed_tokens r,
                 aq_num_tokens_main_model = full_tokens, aq_apply_admission_cap = True\<rparr>)"

definition required_blocks ::
  "kv_manager \<Rightarrow> sched_request \<Rightarrow> int \<Rightarrow> nat list list \<Rightarrow> int \<Rightarrow> int \<Rightarrow> controller \<Rightarrow> int" where
  "required_blocks mgr r computed bs num_encoder tokens c =
     get_num_blocks_to_allocate mgr
       \<lparr>aq_request_id = request_id r,
        aq_num_tokens = min (tokens + num_lookahead_tokens c) (km_max_model_len mgr),
        aq_new_computed_blocks = bs, aq_num_encoder_tokens = num_encoder,
        aq_total_computed_tokens = computed, aq_num_tokens_main_model = tokens,
        aq_apply_admission_cap = True\<rparr>"

definition admission_demand ::
  "kv_manager \<Rightarrow> sched_request \<Rightarrow> int \<Rightarrow> nat list list \<Rightarrow> int \<Rightarrow> controller \<Rightarrow> int" where
  "admission_demand mgr r computed bs num_encoder c =
     (let required = (\<lambda>tokens. required_blocks mgr r computed bs num_encoder tokens c);
          input_tokens = min (num_tokens r) (km_max_model_len mgr)
      in if reclaim_reservation c then required input_tokens
         else
           (let full = required (admission_tokens mgr r c) in
            if \<not> progress_reservation c then full
            else
              (let inputs = required input_tokens;
                   headroom = max 0 (full - inputs);
                   extra = (if growth_commitments c \<noteq> []
                            then min (generation_headroom c) headroom - generation_headroom c
                            else headroom)
               in max 0 (inputs + extra))))"

subsection \<open>Growth of running requests\<close>

definition is_critical :: "metadata \<Rightarrow> controller \<Rightarrow> bool" where
  "is_critical md c \<longleftrightarrow> critical_path md \<or> agent_type md \<in> set (critical (plan c))"

definition record_growth_wait ::
  "pyfloat \<Rightarrow> pyfloat \<Rightarrow> sched_request \<Rightarrow> bool \<Rightarrow> controller \<Rightarrow> bool \<times> controller" where
  "record_growth_wait t1 t2 r allowed c =
     (let rid = request_id r;
          (began, c1) =
            (if allowed
             then (map_of (growth_wait_started c) rid,
                   c\<lparr>growth_wait_started := AList.delete rid (growth_wait_started c)\<rparr>)
             else
               (let c0 = tally M_GENERATION_PROGRESS_DEFERRED c;
                    d = set_default rid t1 (growth_wait_started c0)
                in (map_of d rid, c0\<lparr>growth_wait_started := d\<rparr>)));
          c2 = (case (began, map_of (c_metadata c1) rid) of
                  (Some t0, Some md) \<Rightarrow>
                    if is_critical md c1
                    then c1\<lparr>c_metrics := growth_wait (max 0 (t2 - t0)) (c_metrics c1)\<rparr> else c1
                | _ \<Rightarrow> c1)
      in (allowed, c2))"

definition grown :: "int \<Rightarrow> string \<Rightarrow> string \<Rightarrow> int \<Rightarrow> int" where
  "grown demand rid k n = max 0 (n - (if k = rid then demand else 0))"

definition can_grow ::
  "kv_manager \<Rightarrow> pyfloat \<Rightarrow> pyfloat \<Rightarrow> sched_request \<Rightarrow> int \<Rightarrow> controller \<Rightarrow> (bool \<times> controller) res" where
  "can_grow mgr t1 t2 r num_new_tokens c =
     (if \<not> progress_reservation c then Inr (True, c)
      else
        (let rid = request_id r;
             main_tokens = num_computed_tokens r + num_new_tokens;
             demand = get_num_blocks_to_allocate mgr
               \<lparr>aq_request_id = rid, aq_num_tokens = main_tokens,
                aq_new_computed_blocks = km_empty_blocks mgr, aq_num_encoder_tokens = 0,
                aq_total_computed_tokens = num_computed_tokens r,
                aq_num_tokens_main_model = main_tokens, aq_apply_admission_cap = False\<rparr>
         in if demand = 0 then Inr (record_growth_wait t1 t2 r True c)
            else
              rbind (uncommitted_blocks mgr c) (\<lambda>available.
              rbind (if available < 0 then
                       rbind (py_min_by (\<lambda>(k, growth). (growth, - get_default 0 k (scores c), k))
                                (growth_commitments c))
                         (\<lambda>(beneficiary, _). Inr (rid = beneficiary))
                     else
                       rbind (py_min_by (\<lambda>x. x)
                                (map (\<lambda>(k, growth). grown demand rid k growth
                                    - grown demand rid k (get_default 0 k (prefill_growth c)))
                                  (growth_commitments c)))
                         (\<lambda>remaining_headroom.
                            let inputs = get_default 0 rid (prefill_growth c);
                                released = min demand inputs + generation_headroom c - remaining_headroom
                            in Inr (demand \<le> available + released)))
                (\<lambda>allowed. Inr (record_growth_wait t1 t2 r allowed c)))))"

subsection \<open>Accounting\<close>

text \<open>One step of the reduction of the reserved shares by the excess.\<close>

definition reduce1 :: "string \<Rightarrow> int \<times> (string, int) odict \<Rightarrow> int \<times> (string, int) odict" where
  "reduce1 key = (\<lambda>(excess, avail).
     let reduction = min excess (get_default 0 key avail)
     in (excess - reduction, AList.map_entry key (\<lambda>n. n - reduction) avail))"

definition update_available :: "kv_manager \<Rightarrow> controller \<Rightarrow> controller res" where
  "update_available mgr c =
     (let sh = max 0 (shared (plan c) - used c None);
          av = map (\<lambda>(k, n). (k, max 0 (n - used c (Some k)))) (reserved (plan c))
      in rbind (uncommitted_blocks mgr c) (\<lambda>u.
         if \<not> list_all (\<lambda>(k, n). has_key k (plan_scores (plan c))) av then Inl KeyError
         else
           (let excess = max 0 (sh + dict_sum av - max 0 u);
                reduction = min excess sh;
                order = py_sorted (\<lambda>k. get_default 0 k (plan_scores (plan c))) (map fst av);
                (_, av') = fold reduce1 order (excess - reduction, av)
            in Inr (c\<lparr>shared_available := sh - reduction, reserved_available := av'\<rparr>))))"

definition count_owner :: "(nat, string option) odict \<Rightarrow> string option \<Rightarrow> int" where
  "count_owner d owner = int (length (filter (\<lambda>(b, w). w = owner) d))"

definition release_charges :: "kv_manager \<Rightarrow> controller \<Rightarrow> controller res" where
  "release_charges mgr c =
     (if \<not> accounting_active c then Inr c
      else
        (let d = filter (\<lambda>(b, w). ref_cnt (the_block (km_pool mgr) b) > 0) (charges c)
         in update_available mgr (c\<lparr>charges := d, used := count_owner d\<rparr>)))"

definition prepare_running ::
  "skipper \<Rightarrow> sched_request \<Rightarrow> kv_manager \<Rightarrow> controller \<Rightarrow> (kv_manager \<times> controller) res" where
  "prepare_running skip r mgr c =
     (let mgr' = skip (request_id r) (num_computed_tokens r) mgr
      in if pool_num_free (km_pool mgr) \<noteq> pool_num_free (km_pool mgr')
         then rbind (release_charges mgr' c) (\<lambda>c'. Inr (mgr', c'))
         else Inr (mgr', c))"

definition prefill_budget :: "sched_request list \<Rightarrow> int \<Rightarrow> controller \<Rightarrow> int" where
  "prefill_budget running native_budget c =
     (let limit = decode_prefill_token_budget (settings c)
      in if limit \<noteq> 0 \<and> list_ex (\<lambda>r. num_computed_tokens r \<ge> num_prompt_tokens r) running
         then min native_budget limit else native_budget)"

definition cap_prefill :: "int \<Rightarrow> int \<Rightarrow> controller \<Rightarrow> int \<times> controller" where
  "cap_prefill tokens budget c =
     (if tokens > budget then (budget, tally M_PREFILL_CAPPED c) else (tokens, c))"

subsection \<open>The shares an admission draws on\<close>

type_synonym usage = "(string option \<times> int) list"

definition may_borrow :: "sched_request \<Rightarrow> bool \<Rightarrow> string \<Rightarrow> controller \<Rightarrow> bool" where
  "may_borrow r borrow_reserved owner c \<longleftrightarrow>
     borrow_reserved \<or> owner \<notin> waiting_critical c \<or>
     (case (map_of (waiting_scores c) owner, map_of (scores c) (request_id r)) of
        (Some owner_score, Some score) \<Rightarrow>
          (let margin = priority_borrow_score_margin (settings c)
           in margin \<noteq> 0 \<and> score - owner_score \<ge> margin)
      | _ \<Rightarrow> False)"

fun borrow :: "string list \<Rightarrow> sched_request \<Rightarrow> bool \<Rightarrow> int \<Rightarrow> controller \<Rightarrow> usage option" where
  "borrow [] r br remaining c = (if remaining = 0 then Some [] else None)"
| "borrow (owner # rest) r br remaining c =
     (if may_borrow r br owner c then
        (let borrowed = min remaining (get_default 0 owner (reserved_available c))
         in if remaining - borrowed = 0 then Some [(Some owner, borrowed)]
            else map_option (Cons (Some owner, borrowed)) (borrow rest r br (remaining - borrowed) c))
      else borrow rest r br remaining c)"

definition donors :: "string \<Rightarrow> controller \<Rightarrow> string list" where
  "donors key c =
     py_sorted_desc (\<lambda>k. (get_default 0 k (reserved_available c), get_default 0 k (plan_scores (plan c))))
       (filter (\<lambda>k. k \<noteq> key) (map fst (reserved_available c)))"

text \<open>The sort of the donors reads the score of every agent type with a reservation.\<close>

definition consumption :: "sched_request \<Rightarrow> int \<Rightarrow> bool \<Rightarrow> controller \<Rightarrow> usage option res" where
  "consumption r demand borrow_reserved c =
     (let sh = min demand (shared_available c);
          remaining = demand - sh
      in if remaining = 0 then Inr (Some [(None, sh)])
         else case map_of (c_metadata c) (request_id r) of
                None \<Rightarrow> Inr None
              | Some md \<Rightarrow>
                  (let key = agent_type md;
                       own = (if key \<in> set (critical (plan c))
                              then min remaining (get_default 0 key (reserved_available c)) else 0);
                       prefix = (if key \<in> set (critical (plan c)) then [(None, sh), (Some key, own)]
                                 else [(None, sh)])
                   in if key \<in> set (critical (plan c)) \<and> remaining - own = 0 then Inr (Some prefix)
                      else if \<not> list_all (\<lambda>k. has_key k (plan_scores (plan c))) (donors key c)
                      then Inl KeyError
                      else Inr (map_option (\<lambda>us. prefix @ us)
                             (borrow (donors key c) r borrow_reserved (remaining - own) c))))"

definition capacity_denied :: "controller \<Rightarrow> controller" where
  "capacity_denied c =
     tally (if reserve_generation_tokens (settings c) then M_GENERATION_CAPACITY_DENIED
            else M_PREFILL_CAPACITY_DENIED) c"

definition defer_cache_lookup ::
  "kv_manager \<Rightarrow> sched_request \<Rightarrow> int \<Rightarrow> nat list list \<Rightarrow> controller \<Rightarrow> (bool \<times> controller) res" where
  "defer_cache_lookup mgr r computed bs c =
     (if \<not> cache_capacity_precheck c \<or> \<not> has_key (request_id r) (c_metadata c)
         \<or> has_key (request_id r) (admitted c) \<or> has_encoder_inputs r
      then Inr (False, c)
      else rbind (uncommitted_blocks mgr c) (\<lambda>u.
           if admission_demand mgr r computed bs 0 c \<le> u then Inr (False, c)
           else Inr (True, capacity_denied c)))"

record allocate_args =
  num_new_tokens :: int
  num_new_computed_tokens :: int
  new_computed_blocks :: "nat list list option"
  lookahead_tokens :: int
  num_external_computed_tokens :: int
  num_encoder_tokens :: int
  borrow_reserved :: bool

definition blocks_or_empty :: "kv_manager \<Rightarrow> nat list list option \<Rightarrow> nat list list" where
  "blocks_or_empty mgr bs = (case bs of None \<Rightarrow> km_empty_blocks mgr | Some x \<Rightarrow> x)"

definition allocation_demand ::
  "kv_manager \<Rightarrow> sched_request \<Rightarrow> allocate_args \<Rightarrow> int \<Rightarrow> controller \<Rightarrow> int" where
  "allocation_demand mgr r a computed c =
     (let main_tokens = min computed (km_max_model_len mgr) + num_new_tokens a;
          bs = blocks_or_empty mgr (new_computed_blocks a);
          demand = get_num_blocks_to_allocate mgr
            \<lparr>aq_request_id = request_id r,
             aq_num_tokens = min (main_tokens + lookahead_tokens a) (km_max_model_len mgr),
             aq_new_computed_blocks = bs, aq_num_encoder_tokens = num_encoder_tokens a,
             aq_total_computed_tokens = computed, aq_num_tokens_main_model = main_tokens,
             aq_apply_admission_cap = False\<rparr>
      in max demand (admission_demand mgr r computed bs (num_encoder_tokens a) c))"

definition retry_blocked :: "string \<Rightarrow> int \<Rightarrow> controller \<Rightarrow> bool" where
  "retry_blocked rid available c \<longleftrightarrow>
     (case map_of (retry_capacity c) rid of
        None \<Rightarrow> False
      | Some (capacity, epoch) \<Rightarrow>
          admitted c \<noteq> [] \<and> epoch = completion_epoch c \<and> available \<le> capacity)"

definition borrows_from_waiting :: "usage \<Rightarrow> metadata \<Rightarrow> controller \<Rightarrow> bool" where
  "borrows_from_waiting u md c \<longleftrightarrow>
     list_ex (\<lambda>(owner, n). n \<noteq> 0 \<and> (case owner of None \<Rightarrow> False
        | Some k \<Rightarrow> k \<in> waiting_critical c \<and> k \<noteq> agent_type md)) u"

definition can_allocate ::
  "skipper \<Rightarrow> sched_request \<Rightarrow> allocate_args \<Rightarrow> kv_manager \<Rightarrow> controller \<Rightarrow>
   (bool \<times> kv_manager \<times> controller) res" where
  "can_allocate skip r a mgr c =
     (let rid = request_id r in
      if has_key rid (admitted c) then Inr (True, mgr, c)
      else
        (let computed = num_computed_tokens r + num_new_computed_tokens a + num_external_computed_tokens a;
             mgr' = skip rid computed mgr
         in rbind (if pool_num_free (km_pool mgr) \<noteq> pool_num_free (km_pool mgr')
                   then release_charges mgr' c else Inr c) (\<lambda>c1.
            let demand = allocation_demand mgr' r a computed c1
            in rbind (uncommitted_blocks mgr' c1) (\<lambda>available.
               if demand > available then Inr (False, mgr', capacity_denied c1)
               else if retry_blocked rid available c1 then Inr (False, mgr', tally M_RESUME_DEFERRED c1)
               else rbind (consumption r demand (borrow_reserved a) c1) (\<lambda>u.
                 case u of
                   None \<Rightarrow>
                     (let c2 = tally M_RESERVATION_DENIED c1
                      in Inr (False, mgr',
                           if has_key rid (c_metadata c2)
                           then c2\<lparr>reservation_deferred := insert rid (reservation_deferred c2)\<rparr> else c2))
                 | Some us \<Rightarrow>
                     (case map_of (c_metadata c1) rid of
                        Some md \<Rightarrow>
                          if \<not> borrow_reserved a \<and> borrows_from_waiting us md c1
                          then Inr (True, mgr', c1\<lparr>priority_borrowed := insert rid (priority_borrowed c1)\<rparr>)
                          else Inr (True, mgr', c1)
                      | None \<Rightarrow> Inr (True, mgr', c1)))))))"

subsection \<open>Commit\<close>

text \<open>Charging the new blocks to the owners of the consumed shares, in order.\<close>

fun charge_blocks :: "usage \<Rightarrow> nat list \<Rightarrow> controller \<Rightarrow> controller res" where
  "charge_blocks [] bs c = Inr c"
| "charge_blocks ((owner, n) # rest) bs c =
     (let c1 = c\<lparr>charges := fold (\<lambda>b d. AList.update b owner d) (take (nat n) bs) (charges c),
                 used := (used c)(owner := used c owner + n)\<rparr>
      in rbind (case owner of
                  None \<Rightarrow> Inr (c1\<lparr>shared_available := max 0 (shared_available c1 - n)\<rparr>)
                | Some k \<Rightarrow>
                    rbind (od_get k (reserved_available c1)) (\<lambda>v.
                      Inr (c1\<lparr>reserved_available := AList.update k (v - n) (reserved_available c1)\<rparr>)))
           (charge_blocks rest (drop (nat n) bs)))"

record commit_args =
  is_running :: bool
  commit_encoder_tokens :: int
  new_blocks :: "nat list list option"
  commit_borrow :: bool

definition uncharged_blocks :: "kv_manager \<Rightarrow> sched_request \<Rightarrow> commit_args \<Rightarrow> controller \<Rightarrow> nat list" where
  "uncharged_blocks mgr r a c =
     (let ids = (case (is_running a, new_blocks a) of
                   (True, Some groups) \<Rightarrow>
                     remdups (filter (\<lambda>b. \<not> is_null (the_block (km_pool mgr) b)) (concat groups))
                 | _ \<Rightarrow> block_ids mgr (request_id r))
      in sort (filter (\<lambda>b. \<not> has_key b (charges c)) ids))"

definition commit_history :: "sched_request \<Rightarrow> metadata \<Rightarrow> controller \<Rightarrow> controller" where
  "commit_history r md c =
     (if agent_type md = '''' then c
      else upd_history (agent_type md)
        (\<lambda>h. let h1 = h\<lparr>ah_deferrals := max 0 (ah_deferrals h - 1), ah_importance := importance md\<rparr>
             in if \<not> has_key (request_id r) (started c) then
                  h1\<lparr>ah_samples := ah_samples h1 + 1,
                     ah_input_tokens := ah_input_tokens h1 + num_prompt_tokens r,
                     ah_depth := ah_depth h1 + depth md,
                     ah_out_degree := ah_out_degree h1 + out_degree md,
                     ah_in_degree := ah_in_degree h1 + in_degree md,
                     ah_elapsed := ah_elapsed h1 + application_elapsed_s md,
                     ah_remaining := ah_remaining h1 + remaining_depth md\<rparr>
                else h1) c)"

text \<open>The end of \<open>commit\<close> for a request with metadata: waiting time, metrics and history.\<close>

definition commit_annotated ::
  "pyfloat \<Rightarrow> pyfloat \<Rightarrow> sched_request \<Rightarrow> metadata \<Rightarrow> controller \<Rightarrow> controller" where
  "commit_annotated t1 t2 r md c =
     (let rid = request_id r;
          waited = map_of (queued_at c) rid;
          c1 = c\<lparr>queued_at := AList.delete rid (queued_at c)\<rparr>;
          c2 = (case waited of
                  None \<Rightarrow> c1
                | Some t0 \<Rightarrow>
                    (let b = (if rid \<in> priority_borrowed c1
                              then (tally M_PRIORITY_BORROW_ADMITTED c1)
                                     \<lparr>priority_borrowed := priority_borrowed c1 - {rid}\<rparr>
                              else c1);
                         j = (if get_default 0 rid (scores b) > get_default 0 rid (agent_scores b)
                              then tally M_JOIN_PRIORITY_ADMITTED b else b)
                     in j\<lparr>c_metrics := admission_wait (max 0 (t1 - t0)) (is_critical md j) (c_metrics j)\<rparr>));
          c3 = commit_history r md c2
      in c3\<lparr>started := set_default rid t2 (started c3)\<rparr>)"

text \<open>The marks \<open>commit\<close> leaves once the blocks are charged: admission, prefill limit, growth
  commitments, and the flags it clears.\<close>

definition commit_marks ::
  "kv_manager \<Rightarrow> sched_request \<Rightarrow> commit_args \<Rightarrow> controller \<Rightarrow> controller" where
  "commit_marks mgr r a c1 =
     (let rid = request_id r;
          c2 = c1\<lparr>admitted := AList.update rid
                    (max (get_default 0 rid (admitted c1)) (commit_encoder_tokens a)) (admitted c1),
                  prefill_limits := set_default rid (num_tokens r) (prefill_limits c1)\<rparr>;
          c3 = c2\<lparr>growth_commitments :=
                    AList.update rid (remaining_growth mgr False r c2) (growth_commitments c2)\<rparr>;
          c4 = (if progress_reservation c3 \<or> reclaim_reservation c3
                then c3\<lparr>prefill_growth :=
                       AList.update rid (remaining_growth mgr True r c3) (prefill_growth c3)\<rparr>
                else c3);
          c5 = c4\<lparr>retry_capacity := AList.delete rid (retry_capacity c4),
                  reservation_deferred := reservation_deferred c4 - {rid}\<rparr>;
          c6 = (if commit_borrow a \<and> \<not> is_running a then tally M_WORK_CONSERVING_ADMITTED c5 else c5);
          c7 = (if \<not> is_running a \<and> rid \<in> cache_preferred c6
                then (tally M_CACHE_AFFINITY_ADMITTED c6)
                       \<lparr>cache_preferred := cache_preferred c6 - {rid}\<rparr>
                else c6)
      in c7)"

definition commit ::
  "kv_manager \<Rightarrow> pyfloat \<Rightarrow> pyfloat \<Rightarrow> sched_request \<Rightarrow> commit_args \<Rightarrow> controller \<Rightarrow> controller res" where
  "commit mgr t1 t2 r a c =
     (let rid = request_id r;
          bs = uncharged_blocks mgr r a c
      in rbind (consumption r (int (length bs)) (commit_borrow a) c) (\<lambda>u0.
         let u = (if u0 = None \<and> (is_running a \<or> has_key rid (admitted c))
                  then Some [(None, int (length bs))] else u0)
         in case u of
              None \<Rightarrow> Inl AssertionError
            | Some us \<Rightarrow>
                rbind (charge_blocks us bs c) (\<lambda>c1.
                rbind (update_available mgr (commit_marks mgr r a c1)) (\<lambda>c2.
                case map_of (c_metadata c2) rid of
                  None \<Rightarrow> Inr c2
                | Some md \<Rightarrow> Inr (commit_annotated t1 t2 r md c2)))))"

definition ctl_defer :: "sched_request \<Rightarrow> controller \<Rightarrow> controller" where
  "ctl_defer r c =
     (let c1 = tally M_DEFERRED c
      in case map_of (c_metadata c1) (request_id r) of
           Some md \<Rightarrow> if agent_type md \<noteq> ''''
             then upd_history (agent_type md) (\<lambda>h. h\<lparr>ah_deferrals := ah_deferrals h + 1\<rparr>) c1 else c1
         | None \<Rightarrow> c1)"

subsection \<open>Preemption and completion\<close>

definition forget_admission :: "string \<Rightarrow> controller \<Rightarrow> controller" where
  "forget_admission rid c =
     c\<lparr>admitted := AList.delete rid (admitted c),
       growth_commitments := AList.delete rid (growth_commitments c),
       prefill_limits := AList.delete rid (prefill_limits c),
       prefill_growth := AList.delete rid (prefill_growth c),
       reclaim_beneficiaries := reclaim_beneficiaries c - {rid}\<rparr>"

definition preempt ::
  "kv_manager \<Rightarrow> pyfloat \<Rightarrow> pyfloat \<Rightarrow> sched_request \<Rightarrow> bool \<Rightarrow> controller \<Rightarrow> controller res" where
  "preempt mgr t1 t2 r physical c =
     (let rid = request_id r;
          c1 = snd (record_growth_wait t1 t1 r True c)
      in rbind (release_charges mgr (forget_admission rid c1)) (\<lambda>c2.
         let c3 = tally M_PREEMPTED c2
         in rbind (if physical then
                     (let c4 = tally M_PHYSICAL_PREEMPTED c3
                      in rbind (uncommitted_blocks mgr c4) (\<lambda>u.
                           Inr (c4\<lparr>retry_capacity :=
                             AList.update rid (u, completion_epoch c4) (retry_capacity c4)\<rparr>)))
                   else Inr c3) (\<lambda>c5.
            let c6 = c5\<lparr>queued_at := AList.update rid t2 (queued_at c5)\<rparr>
            in Inr (case map_of (c_metadata c6) rid of
                      Some md \<Rightarrow> if agent_type md \<noteq> ''''
                        then upd_history (agent_type md) (\<lambda>h. h\<lparr>ah_preemptions := ah_preemptions h + 1\<rparr>) c6
                        else c6
                    | None \<Rightarrow> c6))))"

definition finish_history :: "pyfloat \<Rightarrow> sched_request \<Rightarrow> metadata \<Rightarrow> pyfloat \<Rightarrow> controller \<Rightarrow> controller" where
  "finish_history t2 r md t0 c =
     upd_history (agent_type md)
       (\<lambda>h. h\<lparr>ah_importance := importance md, ah_output_tokens := ah_output_tokens h + num_output_tokens r,
             ah_completed := ah_completed h + 1, ah_duration := ah_duration h + max 0 (t2 - t0)\<rparr>) c"

definition ctl_finish :: "pyfloat \<Rightarrow> pyfloat \<Rightarrow> sched_request \<Rightarrow> controller \<Rightarrow> controller" where
  "ctl_finish t1 t2 r c =
     (let rid = request_id r;
          c1 = snd (record_growth_wait t1 t1 r True c);
          was_admitted = has_key rid (admitted c1);
          c2 = (forget_admission rid c1)
                 \<lparr>retry_capacity := AList.delete rid (retry_capacity c1),
                  queued_at := AList.delete rid (queued_at c1)\<rparr>;
          c3 = (if was_admitted then c2\<lparr>completion_epoch := completion_epoch c2 + 1\<rparr> else c2);
          md = map_of (c_metadata c3) rid;
          t0 = map_of (started c3) rid;
          c4 = c3\<lparr>executed_ranges := AList.delete rid (executed_ranges c3),
                  c_metadata := AList.delete rid (c_metadata c3), started := AList.delete rid (started c3),
                  scores := AList.delete rid (scores c3), agent_scores := AList.delete rid (agent_scores c3)\<rparr>
      in case (md, t0) of
           (Some m, Some t) \<Rightarrow> if agent_type m \<noteq> '''' then finish_history t2 r m t c4 else c4
         | _ \<Rightarrow> c4)"

subsection \<open>Observed work\<close>

definition count_by :: "metric \<Rightarrow> int \<Rightarrow> controller \<Rightarrow> controller res" where
  "count_by x n c = rbind (count_metric x n (c_metrics c)) (\<lambda>m. Inr (c\<lparr>c_metrics := m\<rparr>))"

definition matched_blocks :: "kv_manager \<Rightarrow> nat list list \<Rightarrow> nat list" where
  "matched_blocks mgr groups =
     remdups (filter (\<lambda>b. \<not> is_null (the_block (km_pool mgr) b)) (concat groups))"

definition cache_hits ::
  "kv_manager \<Rightarrow> sched_request \<Rightarrow> int \<Rightarrow> int \<Rightarrow> nat list list option \<Rightarrow> controller \<Rightarrow> controller res" where
  "cache_hits mgr r gpu cpu bs c =
     rbind (count_by M_GPU_HIT_TOKENS gpu c) (\<lambda>c1.
     rbind (count_by M_CPU_HIT_TOKENS cpu c1) (\<lambda>c2.
     rbind (case bs of
              None \<Rightarrow> Inr c2
            | Some groups \<Rightarrow>
                (let matched = matched_blocks mgr groups;
                     sh = int (length (filter (\<lambda>b. ref_cnt (the_block (km_pool mgr) b) > 1) matched))
                 in rbind (count_by M_GPU_SHARED_HIT_BLOCKS sh c2)
                      (count_by M_GPU_EXCLUSIVE_HIT_BLOCKS (int (length matched) - sh)))) (\<lambda>c3.
     if num_preemptions r \<noteq> 0 then
       rbind (count_by M_RESUME_GPU_HIT_TOKENS gpu c3) (count_by M_RESUME_CPU_HIT_TOKENS cpu)
     else Inr c3)))"

definition overlap_tokens :: "int \<times> int \<Rightarrow> (int \<times> int) list \<Rightarrow> int" where
  "overlap_tokens se rs = sum_list (map (\<lambda>(a, b). max 0 (min (snd se) b - max (fst se) a)) rs)"

definition merge1 :: "int \<times> int \<Rightarrow> (int \<times> int) list \<Rightarrow> (int \<times> int) list" where
  "merge1 = (\<lambda>(a, b) merged.
     if merged \<noteq> [] \<and> a \<le> snd (last merged)
     then butlast merged @ [(fst (last merged), max (snd (last merged)) b)]
     else merged @ [(a, b)])"

definition merge_ranges :: "(int \<times> int) list \<Rightarrow> (int \<times> int) list" where
  "merge_ranges rs = fold merge1 (py_sorted (\<lambda>x. x) rs) []"

definition executed1 ::
  "(string, int) odict \<Rightarrow> string set \<Rightarrow> string set \<Rightarrow> string \<times> int \<Rightarrow> controller \<Rightarrow> controller res" where
  "executed1 starts failed_loads result_ids = (\<lambda>(rid, n) c.
     if \<not> has_key rid (c_metadata c) \<or> rid \<in> failed_loads \<or> rid \<notin> result_ids then Inr c
     else rbind (od_get rid starts) (\<lambda>start.
          let ranges = get_default [] rid (executed_ranges c);
              c0 = c\<lparr>executed_ranges := set_default rid [] (executed_ranges c)\<rparr>;
              repeated = overlap_tokens (start, start + n) ranges
          in rbind (count_by M_EXECUTED_TOKENS n c0) (\<lambda>c1.
             rbind (count_by M_RECOMPUTED_TOKENS repeated c1) (\<lambda>c2.
             Inr (c2\<lparr>executed_ranges :=
               AList.update rid (merge_ranges (ranges @ [(start, start + n)])) (executed_ranges c2)\<rparr>)))))"

record scheduled_output =
  cached_reqs :: "(string \<times> int) list"
  new_reqs :: "(string \<times> int) list"
  num_scheduled_tokens :: "(string, int) odict"

definition executed ::
  "scheduled_output \<Rightarrow> string set \<Rightarrow> string set \<Rightarrow> controller \<Rightarrow> controller res" where
  "executed out result_ids failed_loads c =
     rfold (executed1 (dict_of (cached_reqs out @ new_reqs out)) failed_loads result_ids)
       (num_scheduled_tokens out) c"

subsection \<open>Order of admission\<close>

type_synonym order_rank = "int \<times> int \<times> int \<times> pyfloat \<times> string"

definition order_key :: "controller \<Rightarrow> sched_request \<Rightarrow> order_rank" where
  "order_key c r =
     (let s = get_default 0 (request_id r) (scores c)
      in (- s, - get_default s (request_id r) (agent_scores c), priority r, arrival_time r, request_id r))"

definition active_prefix_affinity :: "kv_manager \<Rightarrow> controller \<Rightarrow> sched_request \<Rightarrow> pyfloat \<times> int" where
  "active_prefix_affinity mgr c r =
     (if num_computed_tokens r \<noteq> 0 \<or> skip_reading_prefix_cache r \<or> has_encoder_inputs r then (0, 0)
      else
        (let (groups, computed) = find_longest_cache_hit mgr (req_block_hashes r) (num_tokens r - 1);
             sh = int (length (remdups (filter (\<lambda>b. \<not> is_null (the_block (km_pool mgr) b)
                     \<and> ref_cnt (the_block (km_pool mgr) b) > 0) (concat groups))))
         in if sh = 0 then (0, 0)
            else
              (let demand = admission_demand mgr r computed groups 0 c
               in if sh < demand then (0, 0)
                  else (of_int sh / of_int (max 1 (sh + demand)), sh))))"

text \<open>The outer loop cuts the ordered candidates into bands of scores, each at most \<open>band\<close> below its
  first element.\<close>

function score_bands :: "('a \<Rightarrow> int) \<Rightarrow> int \<Rightarrow> 'a list \<Rightarrow> 'a list list" where
  "score_bands score band [] = []"
| "score_bands score band (x # xs) =
     (x # takeWhile (\<lambda>y. score y \<ge> score x - band) xs)
     # score_bands score band (dropWhile (\<lambda>y. score y \<ge> score x - band) xs)"
  by pat_completeness auto
termination by (relation "measure (\<lambda>(s, b, xs). length xs)") (auto simp: less_Suc_eq_le length_dropWhile_le)

definition promoted :: "(sched_request \<times> 'q) list \<Rightarrow> (sched_request \<times> 'q) list \<Rightarrow> string set" where
  "promoted grp preferred =
     (let ids = (\<lambda>xs. map (\<lambda>x. request_id (fst x)) xs);
          positions = dict_of (zip (ids grp) [0..<length grp])
      in set (map fst (filter (\<lambda>(rid, i). get_default 0 rid positions > i)
                (zip (ids preferred) [0..<length preferred]))))"

definition order_candidates ::
  "kv_manager \<Rightarrow> (sched_request \<times> 'q) list \<Rightarrow> controller \<Rightarrow> ((sched_request \<times> 'q) list \<times> controller) res" where
  "order_candidates mgr candidates c =
     (if \<not> list_all (\<lambda>x. has_key (request_id (fst x)) (scores c)) candidates then Inl KeyError
      else
        (let ordered = py_sorted (\<lambda>x. order_key c (fst x)) candidates;
             band = cache_affinity_score_band (settings c);
             capacity = int (length (blocks (km_pool mgr))) - 1
         in if band = 0 \<or> \<not> km_enable_caching mgr then Inr (ordered, c)
            else rbind (uncommitted_blocks mgr c) (\<lambda>u.
              if of_int u > of_int capacity * (1 - gpu_usage_high (settings c)) then Inr (ordered, c)
              else
                (let groups = score_bands (\<lambda>x. get_default 0 (request_id (fst x)) (scores c)) band ordered;
                     prefer = py_sorted_desc (\<lambda>x. active_prefix_affinity mgr c (fst x))
                 in Inr (concat (map prefer groups),
                      c\<lparr>cache_preferred := cache_preferred c
                          \<union> \<Union> (set (map (\<lambda>g. promoted g (prefer g)) groups))\<rparr>)))))"

datatype scheduling_policy = FCFS | PRIORITY

definition request_before :: "sched_request \<Rightarrow> sched_request \<Rightarrow> bool" where
  "request_before a b \<longleftrightarrow> (priority a, arrival_time a, request_id a) < (priority b, arrival_time b, request_id b)"

text \<open>\<open>heapq.merge\<close> of two iterables takes from the second only what is smaller than the head of the
  first.\<close>

fun heap_merge :: "(sched_request \<times> 'q) list \<Rightarrow> (sched_request \<times> 'q) list \<Rightarrow> (sched_request \<times> 'q) list" where
  "heap_merge [] ys = ys"
| "heap_merge xs [] = xs"
| "heap_merge (x # xs) (y # ys) =
     (if request_before (fst y) (fst x) then y # heap_merge (x # xs) ys else x # heap_merge xs (y # ys))"

definition annotated_prefix ::
  "(sched_request \<times> 'q) list \<Rightarrow> (sched_request \<times> 'q) list \<Rightarrow> scheduling_policy \<Rightarrow> controller \<Rightarrow>
   (sched_request \<times> 'q) list" where
  "annotated_prefix waiting skipped_reqs policy c =
     takeWhile (\<lambda>x. has_key (request_id (fst x)) (c_metadata c))
       (if policy = FCFS then skipped_reqs @ waiting else heap_merge skipped_reqs waiting)"

subsection \<open>The victim of a preemption\<close>

definition released_blocks :: "kv_manager \<Rightarrow> sched_request \<Rightarrow> int" where
  "released_blocks mgr r =
     int (length (filter (\<lambda>b. ref_cnt (the_block (km_pool mgr) b) = 1) (block_ids mgr (request_id r))))"

definition victim_cost ::
  "kv_manager \<Rightarrow> (sched_request \<Rightarrow> int) option \<Rightarrow> controller \<Rightarrow> sched_request \<Rightarrow>
   bool \<times> pyfloat \<times> int \<times> int \<times> int \<times> int \<times> pyfloat \<times> string" where
  "victim_cost mgr recompute_cost c r =
     (let computed = (case recompute_cost of None \<Rightarrow> num_computed_tokens r | Some f \<Rightarrow> f r);
          rel = released_blocks mgr r
      in (of_int (num_output_tokens r) \<ge> 9 / 10 * (of_int (max_tokens r) :: pyfloat),
          of_int computed / of_int (max 1 rel), computed, - rel,
          get_default 0 (request_id r) (scores c), - priority r, - arrival_time r, request_id r))"

definition needed_blocks ::
  "kv_manager \<Rightarrow> sched_request \<Rightarrow> int \<Rightarrow> int \<Rightarrow> controller \<Rightarrow> int res" where
  "needed_blocks mgr r new_tokens lookahead c =
     (let main_tokens = num_computed_tokens r + new_tokens;
          needed = get_num_blocks_to_allocate mgr
            \<lparr>aq_request_id = request_id r,
             aq_num_tokens = min (main_tokens + lookahead) (km_max_model_len mgr),
             aq_new_computed_blocks = km_empty_blocks mgr, aq_num_encoder_tokens = 0,
             aq_total_computed_tokens = num_computed_tokens r, aq_num_tokens_main_model = main_tokens,
             aq_apply_admission_cap = False\<rparr> - pool_num_free (km_pool mgr)
      in if reclaim_reservation c
         then rbind (uncommitted_blocks mgr c) (\<lambda>u. Inr (max needed (- u)))
         else Inr needed)"

definition low_scored :: "sched_request list \<Rightarrow> controller \<Rightarrow> sched_request list res" where
  "low_scored running c =
     (let scored = filter (\<lambda>r. has_key (request_id r) (scores c)) running;
          score = (\<lambda>r. get_default 0 (request_id r) (scores c))
      in rbind (py_min_by (\<lambda>x. x) (map score scored)) (\<lambda>lowest.
         Inr (filter (\<lambda>r. score r \<le> lowest + preemption_score_band) scored)))"

definition narrowed :: "kv_manager \<Rightarrow> sched_request \<Rightarrow> int \<Rightarrow> sched_request list \<Rightarrow> sched_request list" where
  "narrowed mgr r needed candidates =
     (let sufficient = filter (\<lambda>x. x \<noteq> r \<and> released_blocks mgr x \<ge> needed) candidates;
          positive = filter (\<lambda>x. released_blocks mgr x > 0) candidates
      in if sufficient \<noteq> [] then sufficient
         else if positive \<noteq> [] then positive else candidates)"

definition note_beneficiary :: "kv_manager \<Rightarrow> sched_request \<Rightarrow> controller \<Rightarrow> controller res" where
  "note_beneficiary mgr r c =
     (if reclaim_reservation c \<and> request_id r \<notin> reclaim_beneficiaries c
      then update_available mgr (tally M_RECLAIM_BENEFICIARY
             (c\<lparr>reclaim_beneficiaries := insert (request_id r) (reclaim_beneficiaries c)\<rparr>))
      else Inr c)"

definition victim ::
  "kv_manager \<Rightarrow> sched_request \<Rightarrow> sched_request list \<Rightarrow> int \<Rightarrow> int \<Rightarrow> (sched_request \<Rightarrow> int) option \<Rightarrow>
   controller \<Rightarrow> (sched_request option \<times> controller) res" where
  "victim mgr r running new_tokens lookahead recompute_cost c =
     rbind (note_beneficiary mgr r c) (\<lambda>c1.
     if \<not> has_key (request_id r) (c_metadata c1) then Inr (None, c1)
     else
       rbind (low_scored running c1) (\<lambda>candidates.
       rbind (needed_blocks mgr r new_tokens lookahead c1) (\<lambda>needed.
       rbind (py_min_by (victim_cost mgr recompute_cost c1) (narrowed mgr r needed candidates)) (\<lambda>v.
         Inr (Some v, c1)))))"

subsection \<open>The start of a scheduling step\<close>

definition clear_step :: "controller \<Rightarrow> controller" where
  "clear_step c =
     c\<lparr>reservation_deferred := {}, cache_preferred := {}, priority_borrowed := {}, waiting_scores := []\<rparr>"

definition clear_all :: "controller \<Rightarrow> controller" where
  "clear_all c =
     c\<lparr>charges := [], used := (\<lambda>_. 0), scores := [], agent_scores := [], admitted := [],
       growth_commitments := [], prefill_limits := [], prefill_growth := [], growth_wait_started := [],
       reclaim_beneficiaries := {}, retry_capacity := [], accounting_active := False\<rparr>"

definition adopt_running :: "sched_request list \<Rightarrow> controller \<Rightarrow> controller" where
  "adopt_running running c =
     fold (\<lambda>r c. c\<lparr>admitted := set_default (request_id r) 0 (admitted c),
                   prefill_limits := set_default (request_id r) (num_tokens r) (prefill_limits c)\<rparr>) running c"

definition refresh_growth :: "kv_manager \<Rightarrow> sched_request list \<Rightarrow> controller \<Rightarrow> controller" where
  "refresh_growth mgr requests c =
     (let live = filter (\<lambda>r. has_key (request_id r) (admitted c)) requests;
          c1 = c\<lparr>growth_commitments :=
                 dict_of (map (\<lambda>r. (request_id r, remaining_growth mgr False r c)) live)\<rparr>
      in if progress_reservation c \<or> reclaim_reservation c
         then c1\<lparr>prefill_growth := dict_of (map (\<lambda>r. (request_id r, remaining_growth mgr True r c1)) live)\<rparr>
         else c1)"

definition fresh_scores :: "pyfloat \<Rightarrow> sched_request list \<Rightarrow> controller \<Rightarrow> (string, int) odict" where
  "fresh_scores now requests c =
     dict_of (concat (map (\<lambda>r. case map_of (c_metadata c) (request_id r) of
                               None \<Rightarrow> []
                             | Some md \<Rightarrow> [(request_id r, request_score md (arrival_time r) now)]) requests))"

text \<open>Requests that wait for the same join of one application inherit the highest score among them.\<close>

definition join_key :: "controller \<Rightarrow> string \<Rightarrow> (pyfloat \<times> string) option" where
  "join_key c rid =
     (case map_of (c_metadata c) rid of
        None \<Rightarrow> None
      | Some md \<Rightarrow> if application_started_at_s md > 0 \<and> join_group md \<noteq> ''''
                   then Some (application_started_at_s md, join_group md) else None)"

definition join_highest :: "controller \<Rightarrow> (string, int) odict \<Rightarrow> (pyfloat \<times> string, int) odict" where
  "join_highest c base =
     fold (\<lambda>(rid, score) d. case join_key c rid of
             None \<Rightarrow> d
           | Some g \<Rightarrow> AList.update g (max (get_default score g d) score) d) base []"

definition inherit_scores :: "controller \<Rightarrow> (string, int) odict \<Rightarrow> (string, int) odict" where
  "inherit_scores c base =
     (let highest = join_highest c base
      in fold (\<lambda>(rid, score) d. case join_key c rid of
                 None \<Rightarrow> d
               | Some g \<Rightarrow> AList.update rid (get_default score g highest) d) base base)"

definition rescore :: "pyfloat \<Rightarrow> sched_request list \<Rightarrow> controller \<Rightarrow> controller" where
  "rescore now requests c =
     (let base = fresh_scores now requests c
      in c\<lparr>agent_scores := base,
           scores := (if inherit_join_priority (settings c) then inherit_scores c base else base)\<rparr>)"

definition adopt_blocks :: "kv_manager \<Rightarrow> sched_request list \<Rightarrow> controller \<Rightarrow> controller" where
  "adopt_blocks mgr requests c =
     (if accounting_active c then c
      else c\<lparr>charges := fold (\<lambda>b d. set_default b None d)
                          (concat (map (\<lambda>r. block_ids mgr (request_id r)) requests)) (charges c),
             accounting_active := True\<rparr>)"

record waiting_tally =
  waiting_counts :: "(string, int) odict"
  waiting_time :: "(string, pyfloat) odict"

definition tally_waiting1 ::
  "pyfloat \<Rightarrow> sched_request \<Rightarrow> waiting_tally \<times> controller \<Rightarrow> (waiting_tally \<times> controller) res" where
  "tally_waiting1 now r = (\<lambda>(w, c).
     case map_of (c_metadata c) (request_id r) of
       None \<Rightarrow> Inr (w, c)
     | Some md \<Rightarrow>
         if agent_type md = '''' then Inr (w, c)
         else rbind (od_get (request_id r) (scores c)) (\<lambda>score.
              let key = agent_type md
              in Inr (w\<lparr>waiting_counts :=
                          AList.update key (get_default 0 key (waiting_counts w) + 1) (waiting_counts w),
                        waiting_time :=
                          AList.update key (get_default 0 key (waiting_time w)
                            + max 0 (now - arrival_time r)) (waiting_time w)\<rparr>,
                      c\<lparr>waiting_scores :=
                          AList.update key (max (get_default score key (waiting_scores c)) score)
                            (waiting_scores c)\<rparr>)))"

definition agent_demand ::
  "kv_manager \<Rightarrow> sched_request list \<Rightarrow> controller \<Rightarrow> (string, pyfloat) odict \<times> (string, int) odict" where
  "agent_demand mgr requests c =
     fold (\<lambda>r (imp, us).
             case map_of (c_metadata c) (request_id r) of
               None \<Rightarrow> (imp, us)
             | Some md \<Rightarrow>
                 if agent_type md = '''' then (imp, us)
                 else (AList.update (agent_type md) (max (get_default 0 (agent_type md) imp) (importance md)) imp,
                       AList.update (agent_type md) (get_default 0 (agent_type md) us
                         + int (length (block_ids mgr (request_id r)))) us))
       requests (map (\<lambda>(k, h). (k, ah_importance h)) (history c), [])"

definition adjusted_ratio :: "kv_manager \<Rightarrow> controller \<Rightarrow> pyfloat" where
  "adjusted_ratio mgr c =
     (let s = settings c;
          u = pool_usage (km_pool mgr);
          moved = (if u \<ge> gpu_usage_high s then reserve_ratio c + reserve_adjustment_step s
                   else if u \<le> gpu_usage_low s then reserve_ratio c - reserve_adjustment_step s
                   else reserve_ratio c)
      in min (reserve_ratio_max s) (max (reserve_ratio_min s) moved))"

definition replan ::
  "kv_manager \<Rightarrow> sched_request list \<Rightarrow> waiting_tally \<Rightarrow> controller \<Rightarrow> controller res" where
  "replan mgr requests w c =
     (if plan_scores (plan c) = [] \<or> step_count c mod adjustment_window = 0 then
        (let (imp, us) = agent_demand mgr requests c;
             sc = map (\<lambda>(k, v). (k, history_score (get_default new_history k (history c)) v
                        (get_default 0 k (waiting_counts w))
                        (get_default 0 k (waiting_time w)
                          / of_int (max 1 (get_default 0 k (waiting_counts w)))))) imp;
             rr = adjusted_ratio mgr c
         in rbind (partition_capacity sc imp us (int (length (blocks (km_pool mgr))) - 1) rr
                     (critical_ratio (settings c)))
              (\<lambda>p. Inr (c\<lparr>reserve_ratio := rr, plan := p\<rparr>)))
      else Inr c)"

definition begin_step ::
  "kv_manager \<Rightarrow> pyfloat \<Rightarrow> sched_request list \<Rightarrow> sched_request list \<Rightarrow> controller \<Rightarrow> (bool \<times> controller) res" where
  "begin_step mgr now waiting running c0 =
     (let c = clear_step c0 in
      if c_metadata c = [] then Inr (False, clear_all c)
      else
        (let requests = waiting @ running;
             c1 = rescore now requests (refresh_growth mgr requests (adopt_running running c));
             c2 = adopt_blocks mgr requests (c1\<lparr>step_count := step_count c1 + 1\<rparr>)
         in rbind (rfold (tally_waiting1 now) waiting (\<lparr>waiting_counts = [], waiting_time = []\<rparr>, c2)) (\<lambda>(w, c3).
            rbind (replan mgr requests w c3) (\<lambda>c4.
            let c5 = c4\<lparr>waiting_critical := set (critical (plan c4)) \<inter> fst ` set (waiting_counts w)\<rparr>
            in rbind (release_charges mgr c5) (\<lambda>c6. Inr (True, c6))))))"

subsection \<open>Sample values\<close>

definition sample_kv_manager :: kv_manager where
  "sample_kv_manager =
     \<lparr>km_pool = sample_pool, km_blocks = (\<lambda>_. []), km_enable_caching = True, km_max_model_len = 100,
      km_full_attention = True, km_empty_blocks = [], get_num_blocks_to_allocate = (\<lambda>_. 0),
      find_longest_cache_hit = (\<lambda>_ _. ([], 0))\<rparr>"

definition sample_req :: "string \<Rightarrow> sched_request" where
  "sample_req rid =
     \<lparr>request_id = rid, num_tokens = 8, num_prompt_tokens = 8, max_tokens = 4, num_computed_tokens = 0,
      num_output_tokens = 0, num_preemptions = 0, arrival_time = 1, priority = 0,
      has_encoder_inputs = False, skip_reading_prefix_cache = False, req_block_hashes = []\<rparr>"

definition sample_ctl :: controller where
  "sample_ctl = (controller_init scheduling_defaults sample_kv_manager metrics_init 0)
     \<lparr>c_metadata := [(''a'', metadata_defaults ''x''), (''b'', metadata_defaults ''y'')],
      scores := [(''a'', 10), (''b'', 20)]\<rparr>"

lemma sample_pool_free: "pool_num_free sample_pool = 3"
  using fq.count [OF sample_pool_queue(1)] by (simp add: pool_num_free_def)

end
