(* ===== verification/Executed_Ranges.thy ===== *)
theory Executed_Ranges
  imports Scheduling
begin

section \<open>Executed and recomputed tokens\<close>

text \<open>
  The bookkeeping of \<open>SchedulingController.executed\<close>: for every request the token positions that
  returned model work has covered, as a list of ranges kept sorted, disjoint and apart. The lemmas
  relate the lists to the sets of positions they denote.
\<close>

definition covered :: "(int \<times> int) list \<Rightarrow> int set" where
  "covered rs = (\<Union>(a, b) \<in> set rs. {a..<b})"

definition ranges_wf :: "(int \<times> int) list \<Rightarrow> bool" where
  "ranges_wf rs \<longleftrightarrow> list_all (\<lambda>(a, b). a \<le> b) rs \<and> sorted_wrt (\<lambda>x y. snd x < fst y) rs"

lemma covered_simps [simp]:
  "covered [] = {}" "covered ((a, b) # rs) = {a..<b} \<union> covered rs"
  "covered (rs @ rs') = covered rs \<union> covered rs'"
  by (auto simp: covered_def)

lemma covered_cong: "set rs = set rs' \<Longrightarrow> covered rs = covered rs'"
  by (simp add: covered_def)

lemma ranges_wf_snoc:
  "ranges_wf (rs @ [(a, b)]) \<longleftrightarrow> ranges_wf rs \<and> a \<le> b \<and> (\<forall>x \<in> set rs. snd x < a)"
  by (auto simp: ranges_wf_def sorted_wrt_append)

lemma merge1_spec:
  assumes "ranges_wf acc" "a \<le> b" "acc \<noteq> [] \<longrightarrow> fst (last acc) \<le> a"
  shows "ranges_wf (merge1 (a, b) acc) \<and> covered (merge1 (a, b) acc) = covered acc \<union> {a..<b}
    \<and> fst (last (merge1 (a, b) acc)) \<le> a \<and> merge1 (a, b) acc \<noteq> []"
proof (cases acc rule: rev_cases)
  case Nil
  then show ?thesis using assms(2) by (simp add: merge1_def ranges_wf_def)
next
  case (snoc rs x)
  obtain l h where x: "x = (l, h)" by force
  have acc: "acc = rs @ [(l, h)]" "ranges_wf rs" "l \<le> h" "\<forall>y \<in> set rs. snd y < l" "l \<le> a"
    using assms snoc x by (auto simp: ranges_wf_snoc)
  show ?thesis
  proof (cases "a \<le> h")
    case True
    then have "{l..<h} \<union> {a..<b} = {l..<max h b}" using acc(3,5) assms(2) by auto
    then show ?thesis using True acc assms(2) by (simp add: merge1_def ranges_wf_snoc Un_assoc)
  next
    case False
    then have "\<forall>y \<in> set acc. snd y < a" using acc by fastforce
    then have "ranges_wf (acc @ [(a, b)])" using assms(1,2) by (simp add: ranges_wf_snoc)
    moreover have "merge1 (a, b) acc = acc @ [(a, b)]" using False acc(1) by (simp add: merge1_def)
    ultimately show ?thesis by simp
  qed
qed

lemma merge_fold:
  assumes "sorted xs" "list_all (\<lambda>(a, b). a \<le> b) xs" "ranges_wf acc"
    "acc \<noteq> [] \<longrightarrow> (\<forall>x \<in> set xs. fst (last acc) \<le> fst x)"
  shows "ranges_wf (fold merge1 xs acc) \<and> covered (fold merge1 xs acc) = covered acc \<union> covered xs"
  using assms
proof (induction xs arbitrary: acc)
  case Nil
  then show ?case by simp
next
  case (Cons x xs)
  obtain a b where x: "x = (a, b)" by force
  have step: "ranges_wf (merge1 (a, b) acc)" "covered (merge1 (a, b) acc) = covered acc \<union> {a..<b}"
    "fst (last (merge1 (a, b) acc)) \<le> a"
    using merge1_spec [of acc a b] Cons.prems by (auto simp: x)
  have "\<forall>y \<in> set xs. fst (last (merge1 (a, b) acc)) \<le> fst y"
    using Cons.prems(1) step(3) by (fastforce simp: x less_eq_prod_def)
  then show ?case using Cons.IH [OF _ _ step(1)] Cons.prems step(2) by (auto simp: x)
qed

lemma merge_ranges_spec:
  assumes "list_all (\<lambda>(a, b). a \<le> b) rs"
  shows "ranges_wf (merge_ranges rs)" "covered (merge_ranges rs) = covered rs"
proof -
  have "sorted (sort rs)" "list_all (\<lambda>(a, b). a \<le> b) (sort rs)" using assms by (simp_all add: list_all_iff)
  then show "ranges_wf (merge_ranges rs)" "covered (merge_ranges rs) = covered rs"
    using merge_fold [of "sort rs" "[]"] covered_cong [of "sort rs" rs]
    by (simp_all add: merge_ranges_def py_sorted_def ranges_wf_def)
qed

lemma overlap_card:
  assumes "ranges_wf rs"
  shows "overlap_tokens (s, e) rs = int (card (covered rs \<inter> {s..<e}))"
  using assms
proof (induction rs)
  case Nil
  then show ?case by (simp add: overlap_tokens_def)
next
  case (Cons x rs)
  obtain a b where x: "x = (a, b)" by force
  have "c > b" if "(c, d) \<in> set rs" for c d using Cons.prems that by (auto simp: ranges_wf_def x)
  then have disj: "{a..<b} \<inter> covered rs = {}" by (fastforce simp: covered_def)
  have "finite (covered rs)" by (auto simp: covered_def)
  moreover have "({a..<b} \<union> covered rs) \<inter> {s..<e} = {max a s..<min b e} \<union> (covered rs \<inter> {s..<e})" by auto
  moreover have "{max a s..<min b e} \<inter> (covered rs \<inter> {s..<e}) = {}" using disj by auto
  ultimately have "card (covered (x # rs) \<inter> {s..<e}) = card {max a s..<min b e} + card (covered rs \<inter> {s..<e})"
    by (simp add: x card_Un_disjoint)
  moreover have "ranges_wf rs" using Cons.prems by (simp add: ranges_wf_def)
  moreover have "int (card {max a s..<min b e}) = max 0 (min e b - max s a)" by auto
  ultimately show ?case using Cons.IH by (simp add: overlap_tokens_def x)
qed

subsection \<open>One model step\<close>

definition ranges_of :: "controller \<Rightarrow> string \<Rightarrow> (int \<times> int) list" where
  "ranges_of c rid = get_default [] rid (executed_ranges c)"

definition exec_inv :: "controller \<Rightarrow> bool" where
  "exec_inv c \<longleftrightarrow> (\<forall>rid. ranges_wf (ranges_of c rid))"

text \<open>A request whose work of this step counts: it has metadata, its load did not fail and the
  model returned a result for it.\<close>

definition observed :: "controller \<Rightarrow> string set \<Rightarrow> string set \<Rightarrow> string \<Rightarrow> bool" where
  "observed c result_ids failed_loads rid \<longleftrightarrow>
     has_key rid (c_metadata c) \<and> rid \<notin> failed_loads \<and> rid \<in> result_ids"

definition step_range :: "(string, int) odict \<Rightarrow> string \<times> int \<Rightarrow> int set" where
  "step_range starts = (\<lambda>(rid, n). {get_default 0 rid starts..<get_default 0 rid starts + n})"

lemma ranges_of_update:
  "ranges_of (c\<lparr>executed_ranges := AList.update rid rs (executed_ranges c)\<rparr>) k =
     (if k = rid then rs else ranges_of c k)"
  by (simp add: ranges_of_def get_default_def update_conv)

lemma ranges_of_default:
  "ranges_of (c\<lparr>executed_ranges := set_default rid [] (executed_ranges c)\<rparr>) k = ranges_of c k"
  by (auto simp: ranges_of_def get_default_def set_default_def has_key_def update_conv split: option.splits)

lemma count_by_spec:
  "0 \<le> n \<Longrightarrow> count_by x n c = Inr (c\<lparr>c_metrics := (c_metrics c)
     \<lparr>counters := (counters (c_metrics c))(x := counters (c_metrics c) x + n)\<rparr>\<rparr>)"
  by (simp add: count_by_def count_metric_def)

lemma overlap_nonneg: "0 \<le> overlap_tokens se rs"
  by (induction rs) (auto simp: overlap_tokens_def)

lemma executed1_spec:
  assumes "exec_inv c" "observed c result_ids failed_loads rid" "map_of starts rid = Some start" "0 \<le> n"
  shows "\<exists>c'. executed1 starts failed_loads result_ids (rid, n) c = Inr c'
    \<and> exec_inv c' \<and> c_metadata c' = c_metadata c
    \<and> (\<forall>k. covered (ranges_of c' k) = (if k = rid then covered (ranges_of c k) \<union> {start..<start + n}
          else covered (ranges_of c k)))
    \<and> (\<forall>x. counters (c_metrics c') x = counters (c_metrics c) x
        + (if x = M_EXECUTED_TOKENS then n else 0)
        + (if x = M_RECOMPUTED_TOKENS then int (card (covered (ranges_of c rid) \<inter> {start..<start + n})) else 0))"
proof -
  let ?rs = "ranges_of c rid" and ?new = "merge_ranges (ranges_of c rid @ [(start, start + n)])"
  have wf: "ranges_wf ?rs" using assms(1) by (simp add: exec_inv_def)
  then have "list_all (\<lambda>(a, b). a \<le> b) (?rs @ [(start, start + n)])" using assms(4) by (simp add: ranges_wf_def)
  then have new: "ranges_wf ?new" "covered ?new = covered ?rs \<union> {start..<start + n}"
    using merge_ranges_spec [of "?rs @ [(start, start + n)]"] by simp_all
  let ?c = "c\<lparr>executed_ranges := AList.update rid ?new (set_default rid [] (executed_ranges c)),
    c_metrics := (c_metrics c)\<lparr>counters := (counters (c_metrics c))
      (M_EXECUTED_TOKENS := counters (c_metrics c) M_EXECUTED_TOKENS + n,
       M_RECOMPUTED_TOKENS := counters (c_metrics c) M_RECOMPUTED_TOKENS + overlap_tokens (start, start + n) ?rs)\<rparr>\<rparr>"
  have "executed1 starts failed_loads result_ids (rid, n) c = Inr ?c"
    using assms(2-4) overlap_nonneg [of "(start, start + n)" ?rs]
    by (simp add: executed1_def observed_def od_get_def count_by_spec Let_def ranges_of_def)
  moreover have "ranges_of ?c k = (if k = rid then ?new else ranges_of c k)" for k
    by (auto simp: ranges_of_def get_default_def set_default_def has_key_def update_conv split: option.splits)
  ultimately show ?thesis
    using new assms(1) overlap_card [OF wf] by (auto simp: exec_inv_def)
qed

definition step_items ::
  "controller \<Rightarrow> string set \<Rightarrow> string set \<Rightarrow> (string \<times> int) list \<Rightarrow> (string \<times> int) list" where
  "step_items c result_ids failed_loads items =
     filter (\<lambda>(rid, n). observed c result_ids failed_loads rid) items"

definition covered_after :: "controller \<Rightarrow> (string, int) odict \<Rightarrow> (string \<times> int) list \<Rightarrow> string \<Rightarrow> int set" where
  "covered_after c starts items k =
     covered (ranges_of c k) \<union> (\<Union>(rid, n) \<in> set items. if rid = k then step_range starts (rid, n) else {})"

definition repeated_tokens :: "controller \<Rightarrow> (string, int) odict \<Rightarrow> (string \<times> int) list \<Rightarrow> int" where
  "repeated_tokens c starts items =
     sum_list (map (\<lambda>(rid, n). int (card (covered (ranges_of c rid) \<inter> step_range starts (rid, n)))) items)"

lemma executed_loop:
  assumes "exec_inv c" "wf_od items"
    and "\<And>rid n. (rid, n) \<in> set items \<Longrightarrow> observed c result_ids failed_loads rid \<Longrightarrow> has_key rid starts \<and> 0 \<le> n"
  shows "\<exists>c'. rfold (executed1 starts failed_loads result_ids) items c = Inr c' \<and> exec_inv c'
    \<and> (\<forall>k. covered (ranges_of c' k) = covered_after c starts (step_items c result_ids failed_loads items) k)
    \<and> counters (c_metrics c') M_EXECUTED_TOKENS = counters (c_metrics c) M_EXECUTED_TOKENS
        + sum_list (map snd (step_items c result_ids failed_loads items))
    \<and> counters (c_metrics c') M_RECOMPUTED_TOKENS = counters (c_metrics c) M_RECOMPUTED_TOKENS
        + repeated_tokens c starts (step_items c result_ids failed_loads items)"
  using assms
proof (induction items arbitrary: c)
  case Nil
  then show ?case by (simp add: step_items_def covered_after_def repeated_tokens_def)
next
  case (Cons item items)
  obtain rid n where item: "item = (rid, n)" by force
  have wf: "wf_od items" "rid \<notin> fst ` set items" using Cons.prems(2) by (auto simp: wf_od_def item)
  show ?case
  proof (cases "observed c result_ids failed_loads rid")
    case False
    then have "executed1 starts failed_loads result_ids (rid, n) c = Inr c"
      by (auto simp: executed1_def observed_def)
    moreover have "step_items c result_ids failed_loads (item # items) = step_items c result_ids failed_loads items"
      using False by (simp add: step_items_def item)
    ultimately show ?thesis using Cons.IH [OF Cons.prems(1) wf(1)] Cons.prems(3) item by auto
  next
    case True
    then obtain start where start: "map_of starts rid = Some start" and n: "0 \<le> n"
      using Cons.prems(3) [of rid n] item by (auto simp: has_key_def)
    obtain c1 where c1: "executed1 starts failed_loads result_ids (rid, n) c = Inr c1" "exec_inv c1"
      "c_metadata c1 = c_metadata c"
      and cov: "\<And>k. covered (ranges_of c1 k) = (if k = rid then covered (ranges_of c k) \<union> {start..<start + n}
          else covered (ranges_of c k))"
      and cnt: "\<And>x. counters (c_metrics c1) x = counters (c_metrics c) x
        + (if x = M_EXECUTED_TOKENS then n else 0)
        + (if x = M_RECOMPUTED_TOKENS then int (card (covered (ranges_of c rid) \<inter> {start..<start + n})) else 0)"
      using executed1_spec [OF Cons.prems(1) True start n] by blast
    have obs: "observed c1 = observed c" using c1(3) by (simp add: observed_def fun_eq_iff)
    have items: "step_items c1 = step_items c" by (simp add: step_items_def obs fun_eq_iff)
    have rng: "step_range starts (rid, n) = {start..<start + n}" by (simp add: step_range_def get_default_def start)
    let ?items = "step_items c result_ids failed_loads items"
    have sub: "set ?items \<subseteq> set items" by (auto simp: step_items_def)
    have "repeated_tokens c1 starts ?items = repeated_tokens c starts ?items"
      unfolding repeated_tokens_def using wf(2) sub by (intro arg_cong [of _ _ sum_list] map_cong) (force simp: cov)+
    moreover have "covered_after c1 starts ?items k = covered_after c starts ((rid, n) # ?items) k" for k
      by (auto simp: covered_after_def cov rng)
    moreover have "\<exists>c'. rfold (executed1 starts failed_loads result_ids) items c1 = Inr c' \<and> exec_inv c'
        \<and> (\<forall>k. covered (ranges_of c' k) = covered_after c1 starts ?items k)
        \<and> counters (c_metrics c') M_EXECUTED_TOKENS = counters (c_metrics c1) M_EXECUTED_TOKENS
            + sum_list (map snd ?items)
        \<and> counters (c_metrics c') M_RECOMPUTED_TOKENS = counters (c_metrics c1) M_RECOMPUTED_TOKENS
            + repeated_tokens c1 starts ?items"
      using Cons.IH [OF c1(2) wf(1)] Cons.prems(3) unfolding obs items item by fastforce
    moreover have "step_items c result_ids failed_loads (item # items) = (rid, n) # ?items"
      using True by (simp add: step_items_def item)
    ultimately show ?thesis
      using c1(1) cnt rng by (auto simp: item repeated_tokens_def)
  qed
qed

subsection \<open>Properties\<close>

definition sample_controller :: controller where
  "sample_controller = (controller_init scheduling_defaults sample_kv_manager metrics_init 0)
     \<lparr>c_metadata := [(''r'', metadata_defaults ''x'')], executed_ranges := [(''r'', [(0, 4)])]\<rparr>"

definition sample_output :: scheduled_output where
  "sample_output = \<lparr>cached_reqs = [(''r'', 2)], new_reqs = [], num_scheduled_tokens = [(''r'', 6)]\<rparr>"

text \<open>\<^bold>\<open>C33\<close>. Executed and recomputed tokens. For the requests whose work counts, \<open>executed\<close> raises
  nothing when every one has a start position. Afterwards the ranges of each request cover exactly
  the positions covered before and those of this step, still sorted and apart; the counter of
  executed tokens grows by the scheduled tokens, and the counter of recomputed tokens by exactly
  the number of positions of this step that had been covered before.\<close>

theorem executed_counts_recomputation:
  assumes "exec_inv c" "wf_od (num_scheduled_tokens out)"
    and "starts = dict_of (cached_reqs out @ new_reqs out)"
    and "\<And>rid n. (rid, n) \<in> set (num_scheduled_tokens out) \<Longrightarrow> observed c result_ids failed_loads rid \<Longrightarrow>
      has_key rid starts \<and> 0 \<le> n"
    and "items = step_items c result_ids failed_loads (num_scheduled_tokens out)"
  shows "\<exists>c'. executed out result_ids failed_loads c = Inr c' \<and> exec_inv c'
    \<and> (\<forall>k. covered (ranges_of c' k) = covered_after c starts items k)
    \<and> counters (c_metrics c') M_EXECUTED_TOKENS =
        counters (c_metrics c) M_EXECUTED_TOKENS + sum_list (map snd items)
    \<and> counters (c_metrics c') M_RECOMPUTED_TOKENS =
        counters (c_metrics c) M_RECOMPUTED_TOKENS + repeated_tokens c starts items"
  unfolding executed_def assms(3,5)
  by (rule executed_loop [OF assms(1,2)]) (use assms(3,4) in blast)

theorem executed_counts_recomputation_witness:
  "\<exists>c'. executed sample_output {''r''} {} sample_controller = Inr c' \<and> exec_inv c'
    \<and> (\<forall>k. covered (ranges_of c' k) =
         covered_after sample_controller (dict_of [(''r'', 2)]) [(''r'', 6)] k)
    \<and> counters (c_metrics c') M_EXECUTED_TOKENS =
        counters (c_metrics sample_controller) M_EXECUTED_TOKENS + 6
    \<and> counters (c_metrics c') M_RECOMPUTED_TOKENS =
        counters (c_metrics sample_controller) M_RECOMPUTED_TOKENS
        + repeated_tokens sample_controller (dict_of [(''r'', 2)]) [(''r'', 6)]"
proof -
  have inv: "exec_inv sample_controller"
    by (simp add: exec_inv_def ranges_of_def get_default_def sample_controller_def ranges_wf_def)
  have obs: "observed sample_controller {''r''} {} ''r''"
    by (simp add: observed_def sample_controller_def has_key_def)
  have items: "[(''r'', 6)] = step_items sample_controller {''r''} {} (num_scheduled_tokens sample_output)"
    using obs by (simp add: step_items_def sample_output_def)
  have "\<exists>c'. executed sample_output {''r''} {} sample_controller = Inr c' \<and> exec_inv c'
    \<and> (\<forall>k. covered (ranges_of c' k) =
         covered_after sample_controller (dict_of [(''r'', 2)]) [(''r'', 6)] k)
    \<and> counters (c_metrics c') M_EXECUTED_TOKENS =
        counters (c_metrics sample_controller) M_EXECUTED_TOKENS + sum_list (map snd [(''r'', 6)])
    \<and> counters (c_metrics c') M_RECOMPUTED_TOKENS =
        counters (c_metrics sample_controller) M_RECOMPUTED_TOKENS
        + repeated_tokens sample_controller (dict_of [(''r'', 2)]) [(''r'', 6)]"
    by (rule executed_counts_recomputation [OF inv _ _ _ items])
      (auto simp: sample_output_def dict_of_def has_key_def)
  then show ?thesis by simp
qed

end
