(* ===== verification/Admission_Order.thy ===== *)
theory Admission_Order
  imports Scheduling
begin

section \<open>Order of admission and choice of a victim\<close>

text \<open>
  Two decisions of the controller: the order in which waiting requests are tried, where requests
  with a shared prefix in use may overtake others inside a band of scores, and the running request
  that is preempted when a block cannot be allocated.
\<close>

subsection \<open>Score bands\<close>

lemma concat_score_bands: "concat (score_bands score band xs) = xs"
  by (induction score band xs rule: score_bands.induct) simp_all

lemma score_band_spread:
  assumes "sorted_wrt (\<lambda>x y. score y \<le> score x) xs" "g \<in> set (score_bands score band xs)" "x \<in> set g" "y \<in> set g"
    "0 \<le> band"
  shows "score y \<le> score x + band"
  using assms
proof (induction score band xs rule: score_bands.induct)
  case (1 score band)
  then show ?case by simp
next
  case (2 score band z zs)
  let ?P = "\<lambda>y. score y \<ge> score z - band"
  show ?case
  proof (cases "g = z # takeWhile ?P zs")
    case True
    have "score z - band \<le> score x" using 2(4,6) True by (auto dest: set_takeWhileD)
    moreover have "score y \<le> score z" using 2(2,5) True by (auto dest: set_takeWhileD)
    ultimately show ?thesis by simp
  next
    case False
    then have "g \<in> set (score_bands score band (dropWhile ?P zs))" using 2(3) by simp
    moreover have "sorted_wrt (\<lambda>x y. score y \<le> score x) (dropWhile ?P zs)"
      using 2(2) by (metis dropWhile_eq_drop list.simps(15) sorted_wrt_drop sorted_wrt.simps(2))
    ultimately show ?thesis using 2(1,4,5,6) by blast
  qed
qed

text \<open>Reordering every band by itself keeps the members of the bands, and an element can overtake
  another only inside their band.\<close>

lemma sorted_wrt_concat_groups:
  assumes "sorted_wrt R (concat gs)" "\<And>g x y. g \<in> set gs \<Longrightarrow> x \<in> set g \<Longrightarrow> y \<in> set g \<Longrightarrow> S x y"
    and "\<And>x y. R x y \<Longrightarrow> S x y" and "\<And>g. set (f g) = set g"
  shows "sorted_wrt S (concat (map f gs))"
  using assms(1,2)
proof (induction gs)
  case Nil
  then show ?case by simp
next
  case (Cons g gs)
  have "sorted_wrt S (f g)"
    using Cons.prems(2) [of g] assms(4) [of g]
    by (auto simp: sorted_wrt_iff_nth_less) (metis nth_mem order.strict_trans)
  moreover have "sorted_wrt S (concat (map f gs))"
    using Cons by (auto simp: sorted_wrt_append)
  moreover have "\<forall>x \<in> set (f g). \<forall>y \<in> set (concat (map f gs)). S x y"
    using Cons.prems(1) assms(3,4) by (auto simp: sorted_wrt_append)
  ultimately show ?case by (simp add: sorted_wrt_append)
qed

definition candidate_score :: "controller \<Rightarrow> sched_request \<times> 'q \<Rightarrow> int" where
  "candidate_score c x = get_default 0 (request_id (fst x)) (scores c)"

lemma ordered_by_score:
  "sorted_wrt (\<lambda>x y. candidate_score c y \<le> candidate_score c x) (py_sorted (\<lambda>x. order_key c (fst x)) xs)"
proof -
  have "sorted_wrt (\<lambda>x y. order_key c (fst x) \<le> order_key c (fst y)) (py_sorted (\<lambda>x. order_key c (fst x)) xs)"
    using sorted_sort_key [of "\<lambda>x. order_key c (fst x)" xs] by (simp add: py_sorted_def sorted_map)
  then show ?thesis
    by (rule sorted_wrt_mono_rel [rotated]) (auto simp: order_key_def candidate_score_def Let_def less_eq_prod_def)
qed

lemma mset_concat_prefer: "(\<And>g. mset (f g) = mset g) \<Longrightarrow> mset (concat (map f gs)) = mset (concat gs)"
  by (induction gs) simp_all

subsection \<open>Minima\<close>

lemma foldl_min_by:
  "let v = foldl (\<lambda>best y. if (key y :: 'k::linorder) < key best then y else best) x ys in
   v \<in> insert x (set ys) \<and> (\<forall>y \<in> insert x (set ys). key v \<le> key y)"
proof (induction ys arbitrary: x)
  case Nil
  then show ?case by simp
next
  case (Cons y ys)
  let ?b = "if key y < key x then y else x"
  have b: "key ?b \<le> key x" "key ?b \<le> key y" "?b \<in> {x, y}" by auto
  then show ?case using Cons.IH [of ?b] by (auto simp: Let_def simp del: if_split)
qed

lemma py_min_by_spec: "py_min_by key xs = Inr v \<Longrightarrow> v \<in> set xs \<and> (\<forall>y \<in> set xs. key v \<le> key y)"
  using foldl_min_by [of key] by (auto simp: py_min_by_def Let_def split: list.splits)

lemma py_min_by_total: "xs \<noteq> [] \<Longrightarrow> \<exists>v. py_min_by key xs = Inr v"
  by (auto simp: py_min_by_def split: list.splits)

lemma narrowed_subset: "set (narrowed mgr r needed cs) \<subseteq> set cs"
  by (auto simp: narrowed_def Let_def)

lemma narrowed_nonempty: "cs \<noteq> [] \<Longrightarrow> narrowed mgr r needed cs \<noteq> []"
  by (auto simp: narrowed_def Let_def)

subsection \<open>Properties\<close>

text \<open>A running request the preemption may choose from: it has a score within the band above every
  other scored running request.\<close>

definition request_scored :: "controller \<Rightarrow> sched_request \<Rightarrow> bool" where
  "request_scored c x \<longleftrightarrow> has_key (request_id x) (scores c)"

definition low_score :: "controller \<Rightarrow> sched_request list \<Rightarrow> sched_request \<Rightarrow> bool" where
  "low_score c running x \<longleftrightarrow> x \<in> set running \<and> request_scored c x
     \<and> list_all (\<lambda>y. request_scored c y \<longrightarrow>
         get_default 0 (request_id x) (scores c) \<le> get_default 0 (request_id y) (scores c) + 3000) running"

lemma low_scored_spec:
  assumes "r \<in> set running" "request_scored c r"
  shows "\<exists>cs. low_scored running c = Inr cs \<and> cs \<noteq> [] \<and> (\<forall>x. x \<in> set cs \<longleftrightarrow> low_score c running x)"
proof -
  let ?score = "\<lambda>x. get_default 0 (request_id x) (scores c)"
  let ?cs = "filter (\<lambda>x. has_key (request_id x) (scores c)) running"
  have "map ?score ?cs \<noteq> []" using assms by (auto simp: request_scored_def filter_empty_conv)
  from py_min_by_total [OF this, of "\<lambda>x. x"]
  obtain m where m: "py_min_by (\<lambda>x. x) (map ?score ?cs) = Inr m" ..
  then have min: "m \<in> set (map ?score ?cs)" "\<forall>y \<in> set ?cs. m \<le> ?score y"
    using py_min_by_spec [OF m] by auto
  let ?low = "filter (\<lambda>x. ?score x \<le> m + preemption_score_band) ?cs"
  have "low_scored running c = Inr ?low" using m by (simp add: low_scored_def Let_def)
  moreover have "?low \<noteq> []" using min(1) by (auto simp: filter_empty_conv preemption_score_band_def)
  moreover have "x \<in> set ?low \<longleftrightarrow> low_score c running x" for x
  proof -
    obtain y where "y \<in> set ?cs" "?score y = m" using min(1) by auto
    then have "?score x \<le> m + 3000 \<longleftrightarrow> (\<forall>y \<in> set ?cs. ?score x \<le> ?score y + 3000)"
      using min(2) by force
    then show ?thesis
      by (auto simp: low_score_def request_scored_def list_all_iff preemption_score_band_def)
  qed
  ultimately show ?thesis by blast
qed



text \<open>\<^bold>\<open>C31\<close>. Cache affinity does not break priorities. When every candidate has a score,
  \<open>order_candidates\<close> returns all candidates, each once, and no candidate is placed before another
  whose score exceeds its own by more than the configured band; without a band the scores descend.
  Of the controller only the set of promoted requests changes.\<close>

theorem candidate_order_bounded:
  assumes "list_all (\<lambda>x. request_scored c (fst x)) cs" "uncommitted_blocks mgr c = Inr u"
    and "0 \<le> cache_affinity_score_band (settings c)"
  shows "\<exists>res c'. order_candidates mgr cs c = Inr (res, c') \<and> mset res = mset cs
    \<and> sorted_wrt (\<lambda>x y. candidate_score c y \<le> candidate_score c x + cache_affinity_score_band (settings c)) res
    \<and> c'\<lparr>cache_preferred := cache_preferred c\<rparr> = c"
proof -
  let ?band = "cache_affinity_score_band (settings c)"
  let ?ordered = "py_sorted (\<lambda>x. order_key c (fst x)) cs"
  let ?gs = "score_bands (\<lambda>x. get_default 0 (request_id (fst x)) (scores c)) ?band ?ordered"
  let ?f = "py_sorted_desc (\<lambda>x. active_prefix_affinity mgr c (fst x))"
  have plain: "sorted_wrt (\<lambda>x y. candidate_score c y \<le> candidate_score c x + ?band) ?ordered"
    using assms(3) by (intro sorted_wrt_mono_rel [OF _ ordered_by_score]) auto
  have gs: "?gs = score_bands (candidate_score c) ?band ?ordered" by (simp add: candidate_score_def [abs_def])
  have "sorted_wrt (\<lambda>x y. candidate_score c y \<le> candidate_score c x + ?band) (concat (map ?f ?gs))"
  proof (rule sorted_wrt_concat_groups)
    show "sorted_wrt (\<lambda>x y. candidate_score c y \<le> candidate_score c x) (concat ?gs)"
      unfolding concat_score_bands by (rule ordered_by_score)
    show "candidate_score c y \<le> candidate_score c x + ?band"
      if "g \<in> set ?gs" "x \<in> set g" "y \<in> set g" for g x y
      using score_band_spread [OF ordered_by_score _ _ _ assms(3)] that unfolding gs by blast
    show "candidate_score c y \<le> candidate_score c x + ?band"
      if "candidate_score c y \<le> candidate_score c x" for x y using that assms(3) by simp
  qed simp
  moreover have "mset (concat (map ?f ?gs)) = mset cs"
    using mset_concat_prefer [of ?f ?gs] by (simp add: concat_score_bands py_sorted_def)
  ultimately show ?thesis
    using assms(1,2) plain
    by (auto simp: order_candidates_def Let_def request_scored_def list_all_iff py_sorted_def)
qed

theorem candidate_order_bounded_witness:
  "\<exists>res c'. order_candidates sample_kv_manager [(sample_req ''a'', 0 :: nat), (sample_req ''b'', 1)] sample_ctl =
      Inr (res, c') \<and> mset res = mset [(sample_req ''a'', 0), (sample_req ''b'', 1)]
    \<and> sorted_wrt (\<lambda>x y. candidate_score sample_ctl y
        \<le> candidate_score sample_ctl x + cache_affinity_score_band (settings sample_ctl)) res
    \<and> c'\<lparr>cache_preferred := cache_preferred sample_ctl\<rparr> = sample_ctl"
proof (rule candidate_order_bounded)
  show "uncommitted_blocks sample_kv_manager sample_ctl = Inr 3"
    using sample_pool_free
    by (simp add: uncommitted_blocks_def committed_blocks_def dict_sum_def sample_ctl_def controller_init_def
        Let_def scheduling_defaults_def sample_kv_manager_def)
qed (simp_all add: sample_ctl_def sample_req_def request_scored_def has_key_def controller_init_def Let_def
    scheduling_defaults_def)

end
