(* ===== verification/Accounting.thy ===== *)
theory Accounting
  imports Scheduling
begin

section \<open>Accounting of the capacity plan\<close>

text \<open>
  The shares of the capacity plan that are still available, the shares an admission draws on, and
  the charges of allocated blocks to their owners.
\<close>

abbreviation share_score :: "controller \<Rightarrow> string \<Rightarrow> pyfloat" where
  "share_score c k \<equiv> get_default 0 k (plan_scores (plan c))"

abbreviation share :: "(string, int) odict \<Rightarrow> string \<Rightarrow> int" where
  "share d k \<equiv> get_default 0 k d"

subsection \<open>Reduction of the available shares\<close>

lemma get_default_map_entry:
  "get_default z k (AList.map_entry k' f d) =
     (if k = k' \<and> has_key k d then f (get_default z k d) else get_default z k d)"
  by (auto simp: get_default_def has_key_def AList.map_of_map_entry split: option.splits)

lemma dict_sum_map_entry:
  "wf_od d \<Longrightarrow> has_key k d \<Longrightarrow> dict_sum (AList.map_entry k (\<lambda>n. n - x) d) = dict_sum d - x"
  by (induction d) (auto simp: dict_sum_def wf_od_def has_key_def split: if_splits)

lemma map_entry_keys [simp]: "map fst (AList.map_entry k f d) = map fst d"
  by (induction d) auto

lemma has_key_map_entry [simp]: "has_key k (AList.map_entry k' f d) = has_key k d"
  by (auto simp: has_key_def AList.map_of_map_entry split: option.splits)

lemma reduce1_spec:
  assumes "wf_od av" "has_key k av" "0 \<le> ex" "0 \<le> share av k" "reduce1 k (ex, av) = (ex', av')"
  shows "map fst av' = map fst av \<and> 0 \<le> ex' \<and> ex' \<le> ex \<and> dict_sum av' = dict_sum av - (ex - ex')
    \<and> (\<forall>j. j \<noteq> k \<longrightarrow> share av' j = share av j) \<and> share av' k = share av k - (ex - ex')
    \<and> 0 \<le> share av' k \<and> (ex' > 0 \<longrightarrow> share av' k = 0)"
  using assms by (auto simp: reduce1_def Let_def dict_sum_map_entry get_default_map_entry)

lemma reduce_loop:
  assumes "wf_od av" "distinct ks" "\<And>k. k \<in> set ks \<Longrightarrow> has_key k av" "0 \<le> ex" "\<And>k. 0 \<le> share av k"
    and "fold reduce1 ks (ex, av) = (ex', av')"
  shows "map fst av' = map fst av \<and> 0 \<le> ex' \<and> ex' \<le> ex \<and> dict_sum av' = dict_sum av - (ex - ex')
    \<and> (\<forall>k. 0 \<le> share av' k \<and> share av' k \<le> share av k) \<and> (ex' > 0 \<longrightarrow> (\<forall>k \<in> set ks. share av' k = 0))
    \<and> (\<forall>k. k \<notin> set ks \<longrightarrow> share av' k = share av k) \<and> (ex = 0 \<longrightarrow> (\<forall>k. share av' k = share av k))
    \<and> sorted_wrt (\<lambda>j k. share av' k < share av k \<longrightarrow> share av' j = 0) ks"
  using assms
proof (induction ks arbitrary: ex av)
  case Nil
  then show ?case by simp
next
  case (Cons k ks)
  obtain ex1 av1 where 1: "reduce1 k (ex, av) = (ex1, av1)" by force
  have s: "map fst av1 = map fst av" "0 \<le> ex1" "ex1 \<le> ex" "dict_sum av1 = dict_sum av - (ex - ex1)"
    "\<And>j. j \<noteq> k \<Longrightarrow> share av1 j = share av j" "share av1 k = share av k - (ex - ex1)" "0 \<le> share av1 k"
    "ex1 > 0 \<longrightarrow> share av1 k = 0"
    using reduce1_spec [OF Cons.prems(1) Cons.prems(3) Cons.prems(4) Cons.prems(5) 1] by auto
  have wf1: "wf_od av1" using Cons.prems(1) s(1) by (simp add: wf_od_def)
  have keys1: "has_key j av1" if "j \<in> set ks" for j
    using Cons.prems(3) [of j] that s(1) by (metis has_key_iff list.set_intros(2) list.set_map)
  have pos1: "0 \<le> share av1 j" for j using s(5,7) Cons.prems(5) by (cases "j = k") auto
  have 2: "fold reduce1 ks (ex1, av1) = (ex', av')" using Cons.prems(6) 1 by simp
  have ih: "map fst av' = map fst av1" "0 \<le> ex'" "dict_sum av' = dict_sum av1 - (ex1 - ex')"
    "\<And>j. 0 \<le> share av' j \<and> share av' j \<le> share av1 j" "ex' > 0 \<longrightarrow> (\<forall>j \<in> set ks. share av' j = 0)"
    "\<And>j. j \<notin> set ks \<Longrightarrow> share av' j = share av1 j" "ex1 = 0 \<longrightarrow> (\<forall>j. share av' j = share av1 j)"
    "sorted_wrt (\<lambda>i j. share av' j < share av1 j \<longrightarrow> share av' i = 0) ks" "ex' \<le> ex1"
    using Cons.IH [OF wf1 _ keys1 s(2) pos1 2] Cons.prems(2) by auto
  have k: "share av' k = share av1 k" using ih(6) Cons.prems(2) by simp
  have first: "share av' k = 0" if "j \<in> set ks" "share av' j < share av j" for j
  proof -
    have "share av1 j = share av j" using s(5) [of j] Cons.prems(2) that(1) by auto
    then have "ex1 \<noteq> 0" using ih(7) that(2) by auto
    then show ?thesis using s(2,8) k by auto
  qed
  have "sorted_wrt (\<lambda>i j. share av' j < share av j \<longrightarrow> share av' i = 0) ks"
    using ih(8) s(5) Cons.prems(2) by (auto simp: sorted_wrt_iff_nth_less) (metis nth_mem order.strict_trans)
  moreover have "share av' j \<le> share av j" for j
    using ih(4) [of j] s(3,5,6) by (cases "j = k") auto
  moreover have "ex' > 0 \<longrightarrow> share av' k = 0" using ih(9) s(8) k by auto
  moreover have "ex = 0 \<longrightarrow> (\<forall>j. share av' j = share av j)"
    using s(2,3,5,6) ih(7) by (metis diff_zero order_antisym)
  ultimately show ?case using s ih first by auto
qed

lemma dict_sum_nonneg: "wf_od d \<Longrightarrow> (\<And>k. 0 \<le> share d k) \<Longrightarrow> 0 \<le> dict_sum d"
proof -
  assume wf: "wf_od d" and pos: "\<And>k. 0 \<le> share d k"
  have "0 \<le> v" if "(k, v) \<in> set d" for k v
    using pos [of k] that wf by (simp add: get_default_def wf_od_def)
  then show ?thesis by (auto simp: dict_sum_def intro!: sum_list_nonneg)
qed

lemma dict_sum_zero:
  "wf_od d \<Longrightarrow> (\<And>k. has_key k d \<Longrightarrow> share d k = 0) \<Longrightarrow> dict_sum d = 0"
proof -
  assume wf: "wf_od d" and z: "\<And>k. has_key k d \<Longrightarrow> share d k = 0"
  have "v = 0" if "(k, v) \<in> set d" for k v
    using z [of k] that wf by (auto simp: get_default_def has_key_def wf_od_def)
  then have "map snd d = map (\<lambda>_. 0) d" by auto
  then show ?thesis unfolding dict_sum_def by (metis sum_list_0)
qed

lemma sorted_before:
  assumes "sorted (map f ks)" "j \<in> set ks" "k \<in> set ks" "(f j :: 'k::linorder) < f k" "sorted_wrt R ks"
  shows "R j k"
proof -
  obtain i i' where i: "i < length ks" "ks ! i = j" "i' < length ks" "ks ! i' = k"
    using assms(2,3) by (metis in_set_conv_nth)
  then have "i < i'" using assms(1,4) by (metis length_map linorder_not_le nth_map sorted_nth_mono)
  then show ?thesis using assms(5) i by (auto simp: sorted_wrt_iff_nth_less)
qed

text \<open>What is left of the shares of the plan by the charged blocks, before free memory is considered.\<close>

definition open_shared :: "controller \<Rightarrow> int" where
  "open_shared c = max 0 (shared (plan c) - used c None)"

definition open_reserved :: "controller \<Rightarrow> (string, int) odict" where
  "open_reserved c = map (\<lambda>(k, n). (k, max 0 (n - used c (Some k)))) (reserved (plan c))"

definition plan_ok :: "controller \<Rightarrow> bool" where
  "plan_ok c \<longleftrightarrow> wf_od (reserved (plan c))
     \<and> list_all (\<lambda>(k, n). has_key k (plan_scores (plan c))) (reserved (plan c))"

lemma open_reserved_ok:
  "map fst (open_reserved c) = map fst (reserved (plan c))" "0 \<le> share (open_reserved c) k"
proof -
  show keys: "map fst (open_reserved c) = map fst (reserved (plan c))"
    by (simp add: open_reserved_def comp_def split_beta)
  show "0 \<le> share (open_reserved c) k"
    by (auto simp: get_default_def open_reserved_def dest!: map_of_SomeD split: option.splits)
qed

lemma update_available_spec:
  assumes "plan_ok c" "uncommitted_blocks mgr c = Inr u"
  shows "\<exists>c'. update_available mgr c = Inr c'
    \<and> c' = c\<lparr>shared_available := shared_available c', reserved_available := reserved_available c'\<rparr>
    \<and> 0 \<le> shared_available c' \<and> shared_available c' \<le> open_shared c
    \<and> map fst (reserved_available c') = map fst (reserved (plan c))
    \<and> (\<forall>k. 0 \<le> share (reserved_available c') k \<and> share (reserved_available c') k \<le> share (open_reserved c) k)
    \<and> shared_available c' + dict_sum (reserved_available c') =
        min (open_shared c + dict_sum (open_reserved c)) (max 0 u)
    \<and> (\<forall>k. share (reserved_available c') k < share (open_reserved c) k \<longrightarrow> shared_available c' = 0
        \<and> (\<forall>j. has_key j (reserved (plan c)) \<and> share_score c j < share_score c k \<longrightarrow>
              share (reserved_available c') j = 0))"
proof -
  let ?sh = "open_shared c" and ?av = "open_reserved c"
  let ?ex = "max 0 (?sh + dict_sum ?av - max 0 u)"
  let ?ks = "py_sorted (\<lambda>k. get_default 0 k (plan_scores (plan c))) (map fst ?av)"
  obtain ex' av' where f: "fold reduce1 ?ks (?ex - min ?ex ?sh, ?av) = (ex', av')" by force
  have wf: "wf_od ?av" using assms(1) by (simp add: plan_ok_def wf_od_def open_reserved_ok)
  have d: "distinct ?ks" using wf by (simp add: wf_od_def)
  have keys: "has_key k ?av" if "k \<in> set ?ks" for k using that by (simp add: has_key_iff)
  have sh: "0 \<le> ?sh" by (simp add: open_shared_def)
  have r: "map fst av' = map fst ?av" "0 \<le> ex'" "dict_sum av' = dict_sum ?av - (?ex - min ?ex ?sh - ex')"
    "\<And>k. 0 \<le> share av' k \<and> share av' k \<le> share ?av k" "ex' > 0 \<longrightarrow> (\<forall>k \<in> set ?ks. share av' k = 0)"
    "?ex - min ?ex ?sh = 0 \<longrightarrow> (\<forall>k. share av' k = share ?av k)"
    "sorted_wrt (\<lambda>j k. share av' k < share ?av k \<longrightarrow> share av' j = 0) ?ks"
    "\<And>k. k \<notin> set ?ks \<Longrightarrow> share av' k = share ?av k"
    using reduce_loop [OF wf d keys _ open_reserved_ok(2) f] by auto
  let ?c = "c\<lparr>shared_available := ?sh - min ?ex ?sh, reserved_available := av'\<rparr>"
  have "list_all (\<lambda>(k, n). has_key k (plan_scores (plan c))) ?av"
    using assms(1) by (auto simp: plan_ok_def open_reserved_def list_all_iff)
  then have upd: "update_available mgr c = Inr ?c"
    using assms(2) f by (simp add: update_available_def open_shared_def open_reserved_def Let_def)
  have "ex' = 0"
  proof (rule ccontr)
    assume "ex' \<noteq> 0"
    then have "dict_sum av' = 0"
      using r(1,2,5) wf by (intro dict_sum_zero) (auto simp: wf_od_def has_key_iff set_map [symmetric] simp del: set_map)
    moreover have "0 \<le> dict_sum ?av" using wf open_reserved_ok(2) by (rule dict_sum_nonneg)
    ultimately show False using r(2,3) sh \<open>ex' \<noteq> 0\<close> by (auto simp: min_def max_def split: if_splits)
  qed
  then have total: "?sh - min ?ex ?sh + dict_sum av' = min (?sh + dict_sum ?av) (max 0 u)"
    using r(3) sh by (auto simp: min_def max_def split: if_splits)
  have order: "share av' j = 0"
    if "share av' k < share ?av k" "has_key j (reserved (plan c))" "share_score c j < share_score c k" for j k
  proof -
    have "sorted (map (share_score c) ?ks)" by (simp add: py_sorted_def)
    moreover have "j \<in> set ?ks" using that(2) open_reserved_ok(1) [of c] by (metis has_key_iff list.set_map py_sorted_simps(1))
    moreover have "k \<in> set ?ks" using r(8) [of k] that(1) by auto
    ultimately show ?thesis using sorted_before [OF _ _ _ that(3) r(7)] that(1) by auto
  qed
  have first: "?sh - min ?ex ?sh = 0" if "share av' k < share ?av k" for k
    using r(6) that sh by (cases "?ex \<le> ?sh") auto
  show ?thesis
  proof (intro exI [of _ ?c] conjI allI impI)
    fix k j
    assume k: "share (reserved_available ?c) k < share ?av k"
    then show "shared_available ?c = 0" using first [of k] by simp
    assume "has_key j (reserved (plan c)) \<and> share_score c j < share_score c k"
    then show "share (reserved_available ?c) j = 0" using order [of k j] k by simp
  next
    show "update_available mgr c = Inr ?c" by (rule upd)
    show "0 \<le> shared_available ?c" "shared_available ?c \<le> open_shared c" using sh by simp_all
    show "map fst (reserved_available ?c) = map fst (reserved (plan c))"
      using r(1) open_reserved_ok(1) [of c] by simp
    show "shared_available ?c + dict_sum (reserved_available ?c) =
        min (open_shared c + dict_sum (open_reserved c)) (max 0 u)" using total by simp
    show "0 \<le> share (reserved_available ?c) k" "share (reserved_available ?c) k \<le> share (open_reserved c) k" for k
      using r(4) [of k] by simp_all
  qed simp
qed

subsection \<open>Consumption\<close>

definition avail_ok :: "controller \<Rightarrow> bool" where
  "avail_ok c \<longleftrightarrow> 0 \<le> shared_available c \<and> wf_od (reserved_available c)
     \<and> list_all (\<lambda>(k, n). 0 \<le> n \<and> has_key k (plan_scores (plan c))) (reserved_available c)
     \<and> list_all (\<lambda>k. has_key k (reserved_available c)) (critical (plan c))"

definition available_of :: "controller \<Rightarrow> string option \<Rightarrow> int" where
  "available_of c owner = (case owner of None \<Rightarrow> shared_available c | Some k \<Rightarrow> share (reserved_available c) k)"

lemma avail_ok_share: "avail_ok c \<Longrightarrow> 0 \<le> share (reserved_available c) k"
  by (auto simp: avail_ok_def list_all_iff get_default_def dest!: map_of_SomeD split: option.splits)

definition lendable :: "sched_request \<Rightarrow> bool \<Rightarrow> string list \<Rightarrow> controller \<Rightarrow> int" where
  "lendable r br ks c = sum_list (map (share (reserved_available c)) (filter (\<lambda>k. may_borrow r br k c) ks))"

lemma lendable_nonneg: "avail_ok c \<Longrightarrow> 0 \<le> lendable r br ks c"
  by (auto simp: lendable_def intro!: sum_list_nonneg avail_ok_share)

lemma borrow_complete:
  assumes "avail_ok c" "0 \<le> rem"
  shows "borrow ks r br rem c = None \<longleftrightarrow> lendable r br ks c < rem"
  using assms(2)
proof (induction ks arbitrary: rem)
  case Nil
  then show ?case by (auto simp: lendable_def)
next
  case (Cons k ks)
  let ?n = "min rem (share (reserved_available c) k)"
  have n: "0 \<le> ?n" "0 \<le> rem - ?n" using avail_ok_share [OF assms(1), of k] Cons.prems by auto
  show ?case
    using Cons.IH [OF n(2)] Cons.IH [OF Cons.prems] lendable_nonneg [OF assms(1), of r br ks] n
    by (auto simp: lendable_def Let_def min_def split: if_splits)
qed

lemma borrow_sound:
  assumes "avail_ok c" "0 \<le> rem" "borrow ks r br rem c = Some us" "distinct ks"
  shows "sum_list (map snd us) = rem \<and> distinct (map fst us)
    \<and> (\<forall>(w, n) \<in> set us. 0 \<le> n \<and> n \<le> available_of c w \<and> (\<exists>k \<in> set ks. w = Some k \<and> may_borrow r br k c))"
  using assms(2-4)
proof (induction ks arbitrary: rem us)
  case Nil
  then show ?case by (auto split: if_splits)
next
  case (Cons k ks)
  let ?n = "min rem (share (reserved_available c) k)"
  have n: "0 \<le> ?n" "0 \<le> rem - ?n" using avail_ok_share [OF assms(1), of k] Cons.prems by auto
  consider (skip) "\<not> may_borrow r br k c" "borrow ks r br rem c = Some us"
    | (last) "may_borrow r br k c" "rem - ?n = 0" "us = [(Some k, ?n)]"
    | (more) us' where "may_borrow r br k c" "us = (Some k, ?n) # us'" "borrow ks r br (rem - ?n) c = Some us'"
    using Cons.prems(2) by (auto simp: Let_def split: if_splits)
  then show ?case
  proof cases
    case skip
    then show ?thesis using Cons.IH [OF Cons.prems(1) skip(2)] Cons.prems(3) by fastforce
  next
    case last
    then show ?thesis using n by (auto simp: available_of_def)
  next
    case more
    have ih: "sum_list (map snd us') = rem - ?n" "distinct (map fst us')"
      "\<forall>(w, n) \<in> set us'. 0 \<le> n \<and> n \<le> available_of c w \<and> (\<exists>k \<in> set ks. w = Some k \<and> may_borrow r br k c)"
      using Cons.IH [OF n(2) more(3)] Cons.prems(3) by auto
    then have "Some k \<notin> fst ` set us'" using Cons.prems(3) by fastforce
    then show ?thesis using ih more(1,2) n by (fastforce simp: available_of_def)
  qed
qed

lemma donors_simps: "set (donors key c) = fst ` set (reserved_available c) - {key}"
  "wf_od (reserved_available c) \<Longrightarrow> distinct (donors key c)"
  by (auto simp: donors_def py_sorted_desc_def wf_od_def)

text \<open>The capacity a request may draw on: shared blocks, the reservation of its own agent type and
  what the other types may lend.\<close>

definition own_share :: "metadata \<Rightarrow> controller \<Rightarrow> int" where
  "own_share md c =
     (if agent_type md \<in> set (critical (plan c)) then share (reserved_available c) (agent_type md) else 0)"

definition drawable :: "sched_request \<Rightarrow> bool \<Rightarrow> controller \<Rightarrow> int" where
  "drawable r br c = shared_available c +
     (case map_of (c_metadata c) (request_id r) of
        None \<Rightarrow> 0
      | Some md \<Rightarrow> own_share md c + lendable r br (donors (agent_type md) c) c)"

definition owner_allowed :: "sched_request \<Rightarrow> bool \<Rightarrow> controller \<Rightarrow> string option \<Rightarrow> bool" where
  "owner_allowed r br c w \<longleftrightarrow>
     (case w of
        None \<Rightarrow> True
      | Some k \<Rightarrow> has_key k (reserved_available c) \<and>
          (case map_of (c_metadata c) (request_id r) of
             None \<Rightarrow> False
           | Some md \<Rightarrow> if k = agent_type md then k \<in> set (critical (plan c)) else may_borrow r br k c))"

definition usage_ok :: "sched_request \<Rightarrow> int \<Rightarrow> bool \<Rightarrow> controller \<Rightarrow> usage \<Rightarrow> bool" where
  "usage_ok r demand br c us \<longleftrightarrow> sum_list (map snd us) = demand \<and> distinct (map fst us)
     \<and> list_all (\<lambda>(w, n). 0 \<le> n \<and> n \<le> available_of c w \<and> owner_allowed r br c w) us"

lemma own_share_nonneg: "avail_ok c \<Longrightarrow> 0 \<le> own_share md c"
  by (simp add: own_share_def avail_ok_share)

lemma consumption_spec:
  assumes "avail_ok c" "0 \<le> demand"
  shows "case consumption r demand br c of
      Inl e \<Rightarrow> False
    | Inr None \<Rightarrow> drawable r br c < demand
    | Inr (Some us) \<Rightarrow> demand \<le> drawable r br c \<and> usage_ok r demand br c us"
proof -
  let ?sh = "min demand (shared_available c)"
  have sh: "0 \<le> ?sh" "0 \<le> demand - ?sh" using assms by (auto simp: avail_ok_def)
  show ?thesis
  proof (cases "demand - ?sh = 0")
    case True
    have "0 \<le> drawable r br c - shared_available c"
      using own_share_nonneg [OF assms(1)] lendable_nonneg [OF assms(1)]
      by (auto simp: drawable_def split: option.splits)
    then show ?thesis using True sh
      by (auto simp: consumption_def Let_def usage_ok_def available_of_def owner_allowed_def)
  next
    case False
    show ?thesis
    proof (cases "map_of (c_metadata c) (request_id r)")
      case None
      then show ?thesis using False sh by (auto simp: consumption_def Let_def drawable_def)
    next
      case (Some md)
      let ?k = "agent_type md" and ?rem = "demand - ?sh"
      let ?own = "if ?k \<in> set (critical (plan c)) then min ?rem (share (reserved_available c) ?k) else 0"
      let ?ks = "donors ?k c"
      have own: "0 \<le> ?own" "0 \<le> ?rem - ?own" "?own = min ?rem (own_share md c)"
        using sh avail_ok_share [OF assms(1), of ?k] by (auto simp: own_share_def)
      have ks: "list_all (\<lambda>k. has_key k (plan_scores (plan c))) ?ks" "distinct ?ks"
        using assms(1) by (auto simp: avail_ok_def list_all_iff donors_simps)
      have keys: "has_key k (reserved_available c)" if "k \<in> set ?ks \<or> k \<in> set (critical (plan c))" for k
        using that assms(1) by (auto simp: avail_ok_def list_all_iff donors_simps has_key_iff)
      let ?pre = "if ?k \<in> set (critical (plan c)) then [(None, ?sh), (Some ?k, ?own)] else [(None, ?sh)]"
      have draw: "drawable r br c = shared_available c + own_share md c + lendable r br ?ks c"
        by (simp add: drawable_def Some)
      have full: "?sh = shared_available c" using False by auto
      have pre: "sum_list (map snd ?pre) = ?sh + ?own" "distinct (map fst ?pre)"
        "list_all (\<lambda>(w, n). 0 \<le> n \<and> n \<le> available_of c w \<and> owner_allowed r br c w) ?pre"
        "set (map fst ?pre) \<subseteq> {None, Some ?k}"
        using sh own keys [of ?k] by (auto simp: available_of_def owner_allowed_def Some)
      show ?thesis
      proof (cases "?k \<in> set (critical (plan c)) \<and> ?rem - ?own = 0")
        case True
        have "consumption r demand br c = Inr (Some ?pre)"
          unfolding consumption_def Let_def Some option.case by (simp only: if_not_P [OF False] if_P [OF True])
        moreover have "sum_list (map snd ?pre) = demand" unfolding pre(1) using conjunct2 [OF True] by linarith
        moreover have "demand \<le> drawable r br c"
          using conjunct2 [OF True] own(3) full draw lendable_nonneg [OF assms(1), of r br ?ks] by linarith
        ultimately show ?thesis using pre(2,3) by (simp only: usage_ok_def sum.case option.case simp_thms)
      next
        case more: False
        have cons: "consumption r demand br c = Inr (map_option (\<lambda>us. ?pre @ us) (borrow ?ks r br (?rem - ?own) c))"
          using ks(1) unfolding consumption_def Let_def Some option.case
          by (simp only: if_not_P [OF False] if_not_P [OF more] simp_thms if_False)
        show ?thesis
        proof (cases "borrow ?ks r br (?rem - ?own) c")
          case None
          then have l: "lendable r br ?ks c < ?rem - ?own" using borrow_complete [OF assms(1) own(2)] by simp
          then have "?own = own_share md c"
            using own(3) lendable_nonneg [OF assms(1), of r br ?ks] by linarith
          then have "drawable r br c < demand" using l full draw by linarith
          then show ?thesis unfolding cons None by simp
        next
          case (Some us)
          then have l: "?rem - ?own \<le> lendable r br ?ks c"
            using borrow_complete [OF assms(1) own(2), of ?ks r br] by (simp add: not_less)
          have us: "sum_list (map snd us) = ?rem - ?own" "distinct (map fst us)"
            "\<forall>(w, n) \<in> set us. 0 \<le> n \<and> n \<le> available_of c w \<and> (\<exists>k \<in> set ?ks. w = Some k \<and> may_borrow r br k c)"
            using borrow_sound [OF assms(1) own(2) Some ks(2)] by blast+
          have "owner_allowed r br c w" if "(w, n) \<in> set us" for w n
            using us(3) that keys donors_simps(1) \<open>map_of (c_metadata c) (request_id r) = Some md\<close>
            by (fastforce simp: owner_allowed_def)
          moreover have "w \<notin> {None, Some ?k}" if "(w, n) \<in> set us" for w n
            using us(3) that donors_simps(1) by fastforce
          then have "set (map fst ?pre) \<inter> set (map fst us) = {}" using pre(4) by fastforce
          ultimately have "usage_ok r demand br c (?pre @ us)"
            using pre(1-3) us unfolding usage_ok_def list_all_append map_append sum_list_append distinct_append
            by (auto simp: list_all_iff simp del: if_split)
          moreover have "demand \<le> drawable r br c" using l own(3) full draw by linarith
          ultimately show ?thesis unfolding cons Some by simp
        qed
      qed
    qed
  qed
qed

subsection \<open>Charging blocks\<close>

definition acct_ok :: "controller \<Rightarrow> bool" where
  "acct_ok c \<longleftrightarrow> wf_od (charges c) \<and> used c = count_owner (charges c)"

lemma fold_update_fresh:
  "distinct bs \<Longrightarrow> (\<And>b. b \<in> set bs \<Longrightarrow> \<not> has_key b d) \<Longrightarrow>
   fold (\<lambda>b d. AList.update b w d) bs d = d @ map (\<lambda>b. (b, w)) bs"
proof (induction bs arbitrary: d)
  case Nil
  then show ?case by simp
next
  case (Cons b bs)
  have "AList.update b w d = d @ [(b, w)]" using Cons.prems(2) [of b] by (simp add: update_fresh has_key_iff)
  moreover have "fold (\<lambda>b d. AList.update b w d) bs (d @ [(b, w)]) = (d @ [(b, w)]) @ map (\<lambda>b. (b, w)) bs"
    using Cons.prems by (intro Cons.IH) (auto simp: has_key_iff)
  ultimately show ?case by simp
qed

lemma count_owner_append: "count_owner (d @ e) w = count_owner d w + count_owner e w"
  by (simp add: count_owner_def)

lemma count_owner_same: "count_owner (map (\<lambda>b. (b, w)) bs) v = (if v = w then int (length bs) else 0)"
  by (induction bs) (auto simp: count_owner_def)

lemma acct_ok_charge:
  assumes "acct_ok c" "distinct bs" "\<And>b. b \<in> set bs \<Longrightarrow> \<not> has_key b (charges c)" "n = int (length bs)"
  shows "acct_ok (c\<lparr>charges := fold (\<lambda>b d. AList.update b w d) bs (charges c),
      used := (used c)(w := used c w + n)\<rparr>)"
proof -
  have "wf_od (charges c @ map (\<lambda>b. (b, w)) bs)"
    using assms(1-3) by (auto simp: acct_ok_def wf_od_def has_key_iff comp_def)
  then show ?thesis using assms
    by (auto simp: acct_ok_def fold_update_fresh count_owner_append count_owner_same fun_eq_iff)
qed

text \<open>The parts of the state that charging leaves alone.\<close>

definition charge_frame :: "controller \<Rightarrow> controller \<Rightarrow> bool" where
  "charge_frame c c' \<longleftrightarrow> plan c' = plan c \<and> c_metadata c' = c_metadata c \<and> accounting_active c' = accounting_active c
     \<and> growth_commitments c' = growth_commitments c \<and> prefill_growth c' = prefill_growth c
     \<and> progress_reservation c' = progress_reservation c \<and> reclaim_reservation c' = reclaim_reservation c
     \<and> reclaim_beneficiaries c' = reclaim_beneficiaries c"

lemma charge_blocks_spec:
  assumes "acct_ok c" "distinct bs" "\<And>b. b \<in> set bs \<Longrightarrow> \<not> has_key b (charges c)"
    and "sum_list (map snd us) = int (length bs)" "list_all (\<lambda>(w, n). 0 \<le> n) us"
    and "list_all (\<lambda>(w, n). case w of None \<Rightarrow> True | Some k \<Rightarrow> has_key k (reserved_available c)) us"
  shows "\<exists>c'. charge_blocks us bs c = Inr c' \<and> acct_ok c' \<and> charge_frame c c'
    \<and> fst ` set (charges c') = fst ` set (charges c) \<union> set bs
    \<and> (\<forall>b w. map_of (charges c) b = Some w \<longrightarrow> map_of (charges c') b = Some w)"
  using assms
proof (induction us arbitrary: bs c)
  case Nil
  then show ?case by (simp add: charge_frame_def)
next
  case (Cons u us)
  obtain w n where u: "u = (w, n)" by force
  have n: "0 \<le> n" "sum_list (map snd us) = int (length bs) - n" using Cons.prems(4,5) by (simp_all add: u)
  have "0 \<le> sum_list (map snd us)" using Cons.prems(5) by (fastforce simp: u list_all_iff intro!: sum_list_nonneg)
  then have le: "nat n \<le> length bs" using n by simp
  let ?t = "take (nat n) bs" and ?d = "drop (nat n) bs"
  let ?c = "c\<lparr>charges := fold (\<lambda>b d. AList.update b w d) ?t (charges c), used := (used c)(w := used c w + n)\<rparr>"
  have ch: "fold (\<lambda>b d. AList.update b w d) ?t (charges c) = charges c @ map (\<lambda>b. (b, w)) ?t"
    using Cons.prems(2,3) by (intro fold_update_fresh) (auto dest: in_set_takeD)
  have acct: "acct_ok ?c"
    using Cons.prems(1-3) n(1) le by (intro acct_ok_charge) (auto dest: in_set_takeD)
  obtain c1 where c1: "(case w of None \<Rightarrow> Inr (?c\<lparr>shared_available := max 0 (shared_available ?c - n)\<rparr>)
      | Some k \<Rightarrow> rbind (od_get k (reserved_available ?c)) (\<lambda>v.
          Inr (?c\<lparr>reserved_available := AList.update k (v - n) (reserved_available ?c)\<rparr>))) = Inr c1"
    "charges c1 = charges c @ map (\<lambda>b. (b, w)) ?t" "used c1 = used ?c" "charge_frame c c1"
    "\<And>k. has_key k (reserved_available c) \<Longrightarrow> has_key k (reserved_available c1)"
    using Cons.prems(6) unfolding ch
    by (cases w) (auto simp: u od_get_def has_key_def charge_frame_def update_conv)
  have "acct_ok c1" using acct c1(2,3) by (simp add: acct_ok_def ch)
  moreover have "distinct ?d" "length ?d = length bs - nat n" using Cons.prems(2) by simp_all
  moreover have "\<not> has_key b (charges c1)" if "b \<in> set ?d" for b
    using that Cons.prems(3) [of b] in_set_dropD [OF that] set_take_disj_set_drop_if_distinct [OF Cons.prems(2), of "nat n" "nat n"]
    by (auto simp: c1(2) has_key_iff)
  moreover have "list_all (\<lambda>(w, n). case w of None \<Rightarrow> True | Some k \<Rightarrow> has_key k (reserved_available c1)) us"
    using Cons.prems(6) c1(5) by (auto simp: list_all_iff split: option.splits)
  ultimately obtain c2 where c2: "charge_blocks us ?d c1 = Inr c2" "acct_ok c2" "charge_frame c1 c2"
    "fst ` set (charges c2) = fst ` set (charges c1) \<union> set ?d"
    "\<forall>b w. map_of (charges c1) b = Some w \<longrightarrow> map_of (charges c2) b = Some w"
    using Cons.IH [of c1 ?d] n le Cons.prems(5) by auto
  have "set bs = set ?t \<union> set ?d" by (metis append_take_drop_id set_append)
  then have "fst ` set (charges c2) = fst ` set (charges c) \<union> set bs"
    using c2(4) by (auto simp: c1(2) image_Un image_image)
  moreover have "map_of (charges c) b = Some v \<longrightarrow> map_of (charges c2) b = Some v" for b v
    using c2(5) by (auto simp: c1(2) map_add_def)
  moreover have "charge_blocks (u # us) bs c = Inr c2"
    using c1(1) c2(1) by (simp add: u Let_def)
  ultimately show ?case using c2(2,3) c1(4) by (auto simp: charge_frame_def)
qed

subsection \<open>Commit\<close>

lemma uncharged_blocks_spec:
  "distinct (uncharged_blocks mgr r a c)"
  "b \<in> set (uncharged_blocks mgr r a c) \<Longrightarrow> \<not> has_key b (charges c)"
  "\<not> is_running a \<Longrightarrow> set (block_ids mgr (request_id r)) \<subseteq> set (uncharged_blocks mgr r a c) \<union> fst ` set (charges c)"
  by (auto simp: uncharged_blocks_def Let_def block_ids_def has_key_iff split: bool.splits option.splits)

lemma upd_history_frame [simp]:
  "charges (upd_history k f c) = charges c" "used (upd_history k f c) = used c"
  by (simp_all add: upd_history_def touch_history_def Let_def)

lemma tally_frame [simp]:
  "charges (tally x c) = charges c" "used (tally x c) = used c" "admitted (tally x c) = admitted c"
  "plan (tally x c) = plan c" "c_metadata (tally x c) = c_metadata c"
  by (simp_all add: tally_def)

lemma commit_annotated_frame:
  "charges (commit_annotated t1 t2 r md c) = charges c" "used (commit_annotated t1 t2 r md c) = used c"
  by (auto simp: commit_annotated_def commit_history_def Let_def split: option.splits)

lemma update_available_frame:
  "update_available mgr c = Inr c' \<Longrightarrow> charges c' = charges c \<and> used c' = used c \<and> c_metadata c' = c_metadata c"
  by (auto simp: update_available_def Let_def rbind_eq_Inr split: if_splits prod.splits)

text \<open>The shares a commit charges: what \<open>_consumption\<close> grants, or shared debt for accepted work.\<close>

lemma commit_usage:
  assumes "avail_ok c" "consumption r (int (length bs)) br c = Inr u0"
    and "(if u0 = None \<and> debt then Some [(None, int (length bs))] else u0) = Some us"
  shows "sum_list (map snd us) = int (length bs) \<and> list_all (\<lambda>(w, n). 0 \<le> n) us
    \<and> list_all (\<lambda>(w, n). case w of None \<Rightarrow> True | Some k \<Rightarrow> has_key k (reserved_available c)) us"
proof (cases u0)
  case None
  then show ?thesis using assms(3) by (auto split: if_splits)
next
  case (Some us0)
  then have ok: "usage_ok r (int (length bs)) br c us"
    using consumption_spec [OF assms(1), of "int (length bs)" r br] assms(2,3) by auto
  have "(case w of None \<Rightarrow> True | Some k \<Rightarrow> has_key k (reserved_available c))" if "(w, n) \<in> set us" for w n
    using ok that by (cases w) (fastforce simp: usage_ok_def list_all_iff owner_allowed_def)+
  moreover have "0 \<le> n" if "(w, n) \<in> set us" for w n
    using ok that by (fastforce simp: usage_ok_def list_all_iff)
  ultimately show ?thesis using ok by (auto simp: usage_ok_def list_all_iff)
qed

lemma commit_marks_frame:
  "charges (commit_marks mgr r a c) = charges c" "used (commit_marks mgr r a c) = used c"
  "admitted (commit_marks mgr r a c) =
     AList.update (request_id r) (max (get_default 0 (request_id r) (admitted c)) (commit_encoder_tokens a)) (admitted c)"
  by (simp_all add: commit_marks_def Let_def)

text \<open>What a commit that returns has done: it charged the shares it was granted.\<close>

lemma commit_stages:
  assumes "commit mgr t1 t2 r a c = Inr c'"
  obtains u0 us c1 where "consumption r (int (length (uncharged_blocks mgr r a c))) (commit_borrow a) c = Inr u0"
    "(if u0 = None \<and> (is_running a \<or> has_key (request_id r) (admitted c))
        then Some [(None, int (length (uncharged_blocks mgr r a c)))] else u0) = Some us"
    "charge_blocks us (uncharged_blocks mgr r a c) c = Inr c1" "charges c' = charges c1" "used c' = used c1"
proof -
  let ?bs = "uncharged_blocks mgr r a c"
  obtain u0 where u0: "consumption r (int (length ?bs)) (commit_borrow a) c = Inr u0"
    using assms by (auto simp: commit_def Let_def rbind_eq_Inr)
  obtain us where us: "(if u0 = None \<and> (is_running a \<or> has_key (request_id r) (admitted c))
        then Some [(None, int (length ?bs))] else u0) = Some us"
    using assms u0 by (cases "if u0 = None \<and> (is_running a \<or> has_key (request_id r) (admitted c))
        then Some [(None, int (length ?bs))] else u0") (simp_all add: commit_def Let_def)
  obtain c1 c2 where c1: "charge_blocks us ?bs c = Inr c1" and c2: "update_available mgr (commit_marks mgr r a c1) = Inr c2"
    and c': "c' = (case map_of (c_metadata c2) (request_id r) of
      None \<Rightarrow> c2 | Some md \<Rightarrow> commit_annotated t1 t2 r md c2)"
    using assms by (auto simp: commit_def Let_def u0 us rbind_eq_Inr split: option.splits)
  have "charges c' = charges c1" "used c' = used c1"
    using update_available_frame [OF c2] c' by (auto simp: commit_annotated_frame commit_marks_frame split: option.splits)
  with u0 us c1 show thesis by (rule that)
qed

lemma commit_charges:
  assumes "acct_ok c" "avail_ok c" "commit mgr t1 t2 r a c = Inr c'"
  shows "acct_ok c' \<and> fst ` set (charges c') = fst ` set (charges c) \<union> set (uncharged_blocks mgr r a c)
    \<and> (\<forall>b w. map_of (charges c) b = Some w \<longrightarrow> map_of (charges c') b = Some w)"
proof -
  obtain u0 us c1 where u0: "consumption r (int (length (uncharged_blocks mgr r a c))) (commit_borrow a) c = Inr u0"
    and us: "(if u0 = None \<and> (is_running a \<or> has_key (request_id r) (admitted c))
        then Some [(None, int (length (uncharged_blocks mgr r a c)))] else u0) = Some us"
    and c1: "charge_blocks us (uncharged_blocks mgr r a c) c = Inr c1"
    and same: "charges c' = charges c1" "used c' = used c1"
    using assms(3) by (rule commit_stages)
  have "distinct (uncharged_blocks mgr r a c)"
    "\<And>b. b \<in> set (uncharged_blocks mgr r a c) \<Longrightarrow> \<not> has_key b (charges c)"
    by (simp_all add: uncharged_blocks_spec)
  then show ?thesis
    using charge_blocks_spec [OF assms(1), of "uncharged_blocks mgr r a c" us]
      commit_usage [OF assms(2) u0 us] c1 same by (auto simp: acct_ok_def)
qed


lemma consumption_le:
  assumes "avail_ok c" "consumption r demand br c = Inr (Some us)" "0 \<le> n" "n \<le> demand"
  shows "\<exists>us'. consumption r n br c = Inr (Some us')"
proof -
  have "0 \<le> demand" using assms(3,4) by simp
  from consumption_spec [OF assms(1) this, of r br] have "n \<le> drawable r br c" using assms(2,4) by simp
  then show ?thesis using consumption_spec [OF assms(1,3), of r br]
    by (auto split: sum.splits option.splits)
qed

text \<open>Marking a request as a priority borrower changes nothing an admission depends on.\<close>

lemma priority_borrowed_irrelevant:
  "may_borrow r br k (c\<lparr>priority_borrowed := P\<rparr>) = may_borrow r br k c"
  "borrow ks r br n (c\<lparr>priority_borrowed := P\<rparr>) = borrow ks r br n c"
  "consumption r n br (c\<lparr>priority_borrowed := P\<rparr>) = consumption r n br c"
  "allocation_demand mgr r a tokens (c\<lparr>priority_borrowed := P\<rparr>) = allocation_demand mgr r a tokens c"
proof -
  show may: "may_borrow r br k (c\<lparr>priority_borrowed := P\<rparr>) = may_borrow r br k c" for k
    by (simp add: may_borrow_def Let_def split: option.splits)
  show "borrow ks r br n (c\<lparr>priority_borrowed := P\<rparr>) = borrow ks r br n c" for ks n
    by (induction ks arbitrary: n) (simp_all add: may Let_def)
  moreover have "donors k (c\<lparr>priority_borrowed := P\<rparr>) = donors k c" for k by (simp add: donors_def)
  ultimately show "consumption r n br (c\<lparr>priority_borrowed := P\<rparr>) = consumption r n br c"
    by (simp add: consumption_def Let_def cong: option.case_cong if_cong)
  show "allocation_demand mgr r a tokens (c\<lparr>priority_borrowed := P\<rparr>) = allocation_demand mgr r a tokens c"
  proof -
    have "required_blocks mgr r k bs e n (c\<lparr>priority_borrowed := P\<rparr>) = required_blocks mgr r k bs e n c"
      "admission_tokens mgr r (c\<lparr>priority_borrowed := P\<rparr>) = admission_tokens mgr r c"
      "generation_headroom (c\<lparr>priority_borrowed := P\<rparr>) = generation_headroom c" for k bs e n
      by (simp_all add: required_blocks_def admission_tokens_def generation_headroom_def)
    then have "admission_demand mgr r k bs e (c\<lparr>priority_borrowed := P\<rparr>) = admission_demand mgr r k bs e c" for k bs e
      by (simp add: admission_demand_def cong: if_cong)
    then show ?thesis by (simp only: allocation_demand_def)
  qed
qed

text \<open>A grant of \<open>can_allocate\<close> to a request that was not admitted rests on the shares it can draw on.\<close>

lemma can_allocate_granted:
  assumes "can_allocate skip r a mgr c = Inr (True, mgr', c')" "\<not> has_key (request_id r) (admitted c)"
  shows "\<exists>us. consumption r (allocation_demand mgr' r a (num_computed_tokens r + num_new_computed_tokens a
      + num_external_computed_tokens a) c') (borrow_reserved a) c' = Inr (Some us)"
proof -
  let ?comp = "num_computed_tokens r + num_new_computed_tokens a + num_external_computed_tokens a"
  let ?mgr = "skip (request_id r) ?comp mgr"
  obtain c1 u where c1: "(if pool_num_free (km_pool mgr) \<noteq> pool_num_free (km_pool ?mgr)
        then release_charges ?mgr c else Inr c) = Inr c1"
    and u: "uncommitted_blocks ?mgr c1 = Inr u" "allocation_demand ?mgr r a ?comp c1 \<le> u" "\<not> retry_blocked (request_id r) u c1"
    using assms by (auto simp: can_allocate_def Let_def rbind_eq_Inr split: if_splits)
  note run = assms(1) [unfolded can_allocate_def Let_def if_not_P [OF assms(2)] c1 rbind_Inr u(1)
      if_not_P [OF u(3)] if_not_P [OF u(2) [folded not_less]]]
  obtain us where us: "consumption r (allocation_demand ?mgr r a ?comp c1) (borrow_reserved a) c1 = Inr (Some us)"
    using run by (auto simp: rbind_eq_Inr split: option.splits)
  have "mgr' = ?mgr \<and> (c' = c1 \<or> (\<exists>P. c' = c1\<lparr>priority_borrowed := P\<rparr>))"
    using run [unfolded us rbind_Inr option.case] by (auto split: option.splits if_splits)
  with us have "\<exists>us. consumption r (allocation_demand mgr' r a ?comp c1) (borrow_reserved a) c1 = Inr (Some us)"
    "c' = c1 \<or> (\<exists>P. c' = c1\<lparr>priority_borrowed := P\<rparr>)" by auto
  then show ?thesis by (auto simp: priority_borrowed_irrelevant)
qed


subsection \<open>Commitments\<close>

text \<open>Under the reclaim policy every growth commitment has its prefill part, so that the committed
  blocks can always be summed.\<close>

definition growth_ok :: "controller \<Rightarrow> bool" where
  "growth_ok c \<longleftrightarrow> (reclaim_reservation c \<longrightarrow> fst ` set (growth_commitments c) \<subseteq> fst ` set (prefill_growth c))"

lemma beneficiary_growth_total:
  "fst ` set g \<subseteq> fst ` set (prefill_growth c) \<Longrightarrow> \<exists>n. beneficiary_growth c g = Inr n"
proof (induction g)
  case Nil
  then show ?case by simp
next
  case (Cons x g)
  obtain k n where x: "x = (k, n)" by force
  have "\<exists>m. od_get k (prefill_growth c) = Inr m"
    using Cons.prems by (auto simp: x od_get_def map_of_eq_None_iff split: option.splits)
  then show ?case using Cons by (auto simp: x)
qed

lemma uncommitted_total: "growth_ok c \<Longrightarrow> \<exists>n. uncommitted_blocks mgr c = Inr n"
  using beneficiary_growth_total [of "growth_commitments c" c]
  by (auto simp: growth_ok_def uncommitted_blocks_def committed_blocks_def)

lemma update_available_total:
  assumes "plan_ok c" "growth_ok c" "set (critical (plan c)) \<subseteq> fst ` set (reserved (plan c))"
  shows "\<exists>c'. update_available mgr c = Inr c' \<and> avail_ok c'
    \<and> c' = c\<lparr>shared_available := shared_available c', reserved_available := reserved_available c'\<rparr>"
proof -
  obtain u where u: "uncommitted_blocks mgr c = Inr u" using uncommitted_total [OF assms(2)] by blast
  obtain c' where c': "update_available mgr c = Inr c'"
    "c' = c\<lparr>shared_available := shared_available c', reserved_available := reserved_available c'\<rparr>"
    "0 \<le> shared_available c'" "map fst (reserved_available c') = map fst (reserved (plan c))"
    "\<And>k. 0 \<le> share (reserved_available c') k"
    using update_available_spec [OF assms(1) u] by blast
  have p: "plan c' = plan c" by (subst c'(2)) simp
  have keys: "fst ` set (reserved_available c') = fst ` set (reserved (plan c))" using c'(4) by (metis list.set_map)
  have wf: "wf_od (reserved_available c')" using assms(1) c'(4) by (simp add: plan_ok_def wf_od_def)
  have "0 \<le> n \<and> has_key k (plan_scores (plan c))" if "(k, n) \<in> set (reserved_available c')" for k n
  proof
    show "0 \<le> n" using c'(5) [of k] that wf by (simp add: get_default_def wf_od_def)
    have "k \<in> fst ` set (reserved (plan c))" using that keys by force
    then show "has_key k (plan_scores (plan c))" using assms(1) by (auto simp: plan_ok_def list_all_iff)
  qed
  then have "avail_ok c'" unfolding avail_ok_def p
    using c'(3) wf assms(3) keys by (auto simp: list_all_iff has_key_iff)
  then show ?thesis using c'(1,2) by blast
qed

end
