(* ===== verification/Controller_Machine.thy ===== *)
theory Controller_Machine
  imports Accounting
begin

section \<open>The scheduling controller as a state machine\<close>

text \<open>
  The operations of \<open>SchedulingController\<close> as steps of a machine whose state is the controller; the
  scheduler that calls them, the KV cache manager and the clock are the environment of a step. Every
  reachable controller keeps its accounting: owners are counted as charged, the plan and the
  available shares fit together, and the committed blocks can be summed.
\<close>

subsection \<open>The invariant\<close>

definition plan_fit :: "controller \<Rightarrow> bool" where
  "plan_fit c \<longleftrightarrow> plan_ok c \<and> set (critical (plan c)) \<subseteq> fst ` set (reserved (plan c))"

definition ctl_ok :: "controller \<Rightarrow> bool" where
  "ctl_ok c \<longleftrightarrow> acct_ok c \<and> plan_fit c \<and> avail_ok c \<and> growth_ok c \<and> wf_od (history c)"

text \<open>The invariant does not depend on the other fields.\<close>

lemma ctl_ok_frame [simp]:
  "ctl_ok (c\<lparr>c_metrics := x0\<rparr>) = ctl_ok c"
  "ctl_ok (c\<lparr>c_metadata := x1\<rparr>) = ctl_ok c"
  "ctl_ok (c\<lparr>queued_at := x2\<rparr>) = ctl_ok c"
  "ctl_ok (c\<lparr>scores := x3\<rparr>) = ctl_ok c"
  "ctl_ok (c\<lparr>agent_scores := x4\<rparr>) = ctl_ok c"
  "ctl_ok (c\<lparr>started := x5\<rparr>) = ctl_ok c"
  "ctl_ok (c\<lparr>step_count := x6\<rparr>) = ctl_ok c"
  "ctl_ok (c\<lparr>waiting_critical := x7\<rparr>) = ctl_ok c"
  "ctl_ok (c\<lparr>waiting_scores := x8\<rparr>) = ctl_ok c"
  "ctl_ok (c\<lparr>executed_ranges := x9\<rparr>) = ctl_ok c"
  "ctl_ok (c\<lparr>admitted := x10\<rparr>) = ctl_ok c"
  "ctl_ok (c\<lparr>prefill_limits := x11\<rparr>) = ctl_ok c"
  "ctl_ok (c\<lparr>growth_wait_started := x12\<rparr>) = ctl_ok c"
  "ctl_ok (c\<lparr>reclaim_beneficiaries := x13\<rparr>) = ctl_ok c"
  "ctl_ok (c\<lparr>retry_capacity := x14\<rparr>) = ctl_ok c"
  "ctl_ok (c\<lparr>completion_epoch := x15\<rparr>) = ctl_ok c"
  "ctl_ok (c\<lparr>reservation_deferred := x16\<rparr>) = ctl_ok c"
  "ctl_ok (c\<lparr>cache_preferred := x17\<rparr>) = ctl_ok c"
  "ctl_ok (c\<lparr>priority_borrowed := x18\<rparr>) = ctl_ok c"
  "ctl_ok (c\<lparr>reserve_ratio := x19\<rparr>) = ctl_ok c"
  by (simp_all add: ctl_ok_def acct_ok_def plan_fit_def plan_ok_def avail_ok_def growth_ok_def)

lemma ctl_ok_tally [simp]: "ctl_ok (tally x c) = ctl_ok c"
  by (simp add: tally_def)

lemma wf_od_set_default [simp]: "wf_od d \<Longrightarrow> wf_od (set_default k v d)"
  by (simp add: set_default_def)

lemma wf_od_drop_oldest [simp]: "wf_od d \<Longrightarrow> wf_od (drop n d)"
  by (simp add: wf_od_def drop_map [symmetric])

lemma wf_od_map_entry [simp]: "wf_od (AList.map_entry k f d) = wf_od d"
  by (simp add: wf_od_def)

lemma ctl_ok_upd_history [simp]: "ctl_ok c \<Longrightarrow> ctl_ok (upd_history k f c)"
  by (simp add: upd_history_def touch_history_def Let_def
      ctl_ok_def acct_ok_def plan_fit_def plan_ok_def avail_ok_def growth_ok_def)

lemma count_by_keeps: "count_by x n c = Inr c' \<Longrightarrow> ctl_ok c' = ctl_ok c"
  by (auto simp: count_by_def rbind_eq_Inr)

subsection \<open>Releasing charges\<close>

lemma update_available_ok:
  assumes "plan_fit c" "growth_ok c" "acct_ok c" "wf_od (history c)"
  shows "\<exists>c'. update_available mgr c = Inr c' \<and> ctl_ok c'
    \<and> c' = c\<lparr>shared_available := shared_available c', reserved_available := reserved_available c'\<rparr>"
proof -
  obtain c' where c': "update_available mgr c = Inr c'" "avail_ok c'"
    "c' = c\<lparr>shared_available := shared_available c', reserved_available := reserved_available c'\<rparr>"
    using update_available_total [of c mgr] assms(1,2) by (auto simp: plan_fit_def)
  have same: "charges c' = charges c" "used c' = used c" "plan c' = plan c" "reclaim_reservation c' = reclaim_reservation c"
    "growth_commitments c' = growth_commitments c" "prefill_growth c' = prefill_growth c" "history c' = history c"
    by (subst c'(3); simp)+
  then have "ctl_ok c'" using assms c'(2)
    by (simp add: ctl_ok_def acct_ok_def plan_fit_def plan_ok_def growth_ok_def)
  then show ?thesis using c'(1,3) by blast
qed

lemma acct_ok_recount: "wf_od d \<Longrightarrow> acct_ok (c\<lparr>charges := d, used := count_owner d\<rparr>)"
  by (simp add: acct_ok_def)

lemma release_active:
  assumes "plan_fit c" "growth_ok c" "wf_od (charges c)" "wf_od (history c)" "accounting_active c"
  shows "\<exists>c'. release_charges mgr c = Inr c' \<and> ctl_ok c'"
proof -
  let ?d = "filter (\<lambda>(b, w). ref_cnt (the_block (km_pool mgr) b) > 0) (charges c)"
  let ?c = "c\<lparr>charges := ?d, used := count_owner ?d\<rparr>"
  have "plan_fit ?c" "growth_ok ?c" "acct_ok ?c" "wf_od (history ?c)"
    using assms by (simp_all add: plan_fit_def plan_ok_def growth_ok_def acct_ok_def)
  then show ?thesis using update_available_ok [of ?c mgr] assms(5) by (auto simp: release_charges_def Let_def)
qed

lemma release_ok:
  assumes "ctl_ok c"
  shows "\<exists>c'. release_charges mgr c = Inr c' \<and> ctl_ok c'"
proof (cases "accounting_active c")
  case True
  then show ?thesis using assms by (intro release_active) (simp_all add: ctl_ok_def acct_ok_def)
next
  case False
  then show ?thesis using assms by (simp add: release_charges_def)
qed

lemma release_keeps: "ctl_ok c \<Longrightarrow> release_charges mgr c = Inr c' \<Longrightarrow> ctl_ok c'"
  using release_ok [of c mgr] by auto


subsection \<open>Operations that leave the accounts alone\<close>

lemma record_growth_wait_keeps [simp]: "ctl_ok (snd (record_growth_wait t1 t2 r b c)) = ctl_ok c"
  by (simp add: record_growth_wait_def Let_def split: option.splits)

lemma can_grow_keeps: "can_grow mgr t1 t2 r n c = Inr (b, c') \<Longrightarrow> ctl_ok c' = ctl_ok c"
proof -
  assume "can_grow mgr t1 t2 r n c = Inr (b, c')"
  then have "c' = c \<or> (\<exists>a. record_growth_wait t1 t2 r a c = (b, c'))"
    by (auto simp: can_grow_def Let_def rbind_eq_Inr split: if_splits)
  then show ?thesis by (metis record_growth_wait_keeps snd_conv)
qed

lemma cap_prefill_keeps: "cap_prefill n m c = (k, c') \<Longrightarrow> ctl_ok c' = ctl_ok c"
  by (auto simp: cap_prefill_def split: if_splits)

lemma capacity_denied_keeps [simp]: "ctl_ok (capacity_denied c) = ctl_ok c"
  by (simp add: capacity_denied_def)

lemma defer_cache_lookup_keeps: "defer_cache_lookup mgr r n bs c = Inr (b, c') \<Longrightarrow> ctl_ok c' = ctl_ok c"
  by (auto simp: defer_cache_lookup_def rbind_eq_Inr split: if_splits)

lemma order_candidates_keeps:
  assumes "order_candidates mgr xs c = Inr (ys, c')"
  shows "ctl_ok c' = ctl_ok c"
proof -
  have "c' = c \<or> (\<exists>P. c' = c\<lparr>cache_preferred := P\<rparr>)"
    using assms unfolding order_candidates_def Let_def
    by (simp only: rbind_eq_Inr sum.inject prod.inject sum.distinct simp_thms split: if_split_asm) blast+
  then show ?thesis by auto
qed

lemma ctl_defer_keeps: "ctl_ok c \<Longrightarrow> ctl_ok (ctl_defer r c)"
  by (auto simp: ctl_defer_def Let_def split: option.splits)

lemma cache_hits_keeps: "cache_hits mgr r g n bs c = Inr c' \<Longrightarrow> ctl_ok c' = ctl_ok c"
  by (auto simp: cache_hits_def rbind_eq_Inr Let_def dest!: count_by_keeps split: if_splits option.splits)

lemma executed_keeps: "executed out rs fs c = Inr c' \<Longrightarrow> ctl_ok c \<Longrightarrow> ctl_ok c'"
  unfolding executed_def
  by (erule rfold_invariant [where P = ctl_ok])
     (auto simp: executed1_def rbind_eq_Inr Let_def dest!: count_by_keeps split: if_splits)

lemma keys_delete: "fst ` set (AList.delete k d) = fst ` set d - {k}"
  by (metis delete_keys list.set_map set_removeAll)

lemma forget_admission_keeps: "ctl_ok c \<Longrightarrow> ctl_ok (forget_admission rid c)"
  unfolding forget_admission_def ctl_ok_def acct_ok_def plan_fit_def plan_ok_def avail_ok_def growth_ok_def
  by (simp add: keys_delete) blast

lemma ctl_finish_keeps: "ctl_ok c \<Longrightarrow> ctl_ok (ctl_finish t1 t2 r c)"
  by (auto simp: ctl_finish_def Let_def finish_history_def forget_admission_keeps split: option.splits)

lemma preempt_keeps:
  assumes "preempt mgr t1 t2 r b c = Inr c'" "ctl_ok c"
  shows "ctl_ok c'"
proof -
  obtain c2 where c2: "release_charges mgr (forget_admission (request_id r) (snd (record_growth_wait t1 t1 r True c))) = Inr c2"
    using assms(1) by (auto simp: preempt_def Let_def rbind_eq_Inr)
  have ok: "ctl_ok c2" using release_keeps [OF _ c2] assms(2) by (simp add: forget_admission_keeps)
  show ?thesis using assms(1) [unfolded preempt_def Let_def c2 rbind_Inr] ok
    by (cases b) (auto simp: rbind_eq_Inr split: if_splits option.splits)
qed

lemma prepare_running_keeps: "prepare_running skip r mgr c = Inr (mgr', c') \<Longrightarrow> ctl_ok c \<Longrightarrow> ctl_ok c'"
  by (auto simp: prepare_running_def Let_def rbind_eq_Inr split: if_splits dest: release_keeps)

lemma note_beneficiary_keeps: "note_beneficiary mgr r c = Inr c' \<Longrightarrow> ctl_ok c \<Longrightarrow> ctl_ok c'"
proof -
  assume 1: "note_beneficiary mgr r c = Inr c'" "ctl_ok c"
  let ?c = "tally M_RECLAIM_BENEFICIARY (c\<lparr>reclaim_beneficiaries := insert (request_id r) (reclaim_beneficiaries c)\<rparr>)"
  have "ctl_ok ?c" using 1(2) by simp
  then have "\<exists>c''. update_available mgr ?c = Inr c'' \<and> ctl_ok c''"
    using update_available_ok [of ?c mgr] unfolding ctl_ok_def by blast
  then show ?thesis using 1 by (auto simp: note_beneficiary_def split: if_splits)
qed

lemma victim_keeps: "victim mgr r rs n m f c = Inr (v, c') \<Longrightarrow> ctl_ok c \<Longrightarrow> ctl_ok c'"
  by (auto simp: victim_def rbind_eq_Inr split: if_splits dest: note_beneficiary_keeps)


subsection \<open>Admission\<close>

lemma can_allocate_keeps:
  assumes "can_allocate skip r a mgr c = Inr (b, mgr', c')" "ctl_ok c"
  shows "ctl_ok c'"
proof (cases "has_key (request_id r) (admitted c)")
  case True
  then show ?thesis using assms by (simp add: can_allocate_def Let_def)
next
  case False
  let ?comp = "num_computed_tokens r + num_new_computed_tokens a + num_external_computed_tokens a"
  let ?mgr = "skip (request_id r) ?comp mgr"
  obtain c1 where c1: "(if pool_num_free (km_pool mgr) \<noteq> pool_num_free (km_pool ?mgr)
        then release_charges ?mgr c else Inr c) = Inr c1"
    using assms(1) False by (auto simp: can_allocate_def Let_def rbind_eq_Inr split: if_splits)
  have ok: "ctl_ok c1" using c1 assms(2) release_keeps by (auto split: if_splits)
  obtain u where u: "uncommitted_blocks ?mgr c1 = Inr u"
    using uncommitted_total ok by (auto simp: ctl_ok_def)
  note run = assms(1) [unfolded can_allocate_def Let_def if_not_P [OF False] c1 rbind_Inr u]
  let ?use = "consumption r (allocation_demand ?mgr r a ?comp c1) (borrow_reserved a) c1"
  consider e where "?use = Inl e" | "?use = Inr None" | us where "?use = Inr (Some us)"
    by (metis option.exhaust sum.exhaust)
  then show ?thesis
  proof cases
    case 1
    then show ?thesis using run ok by (auto split: if_split_asm)
  next
    case 2
    then show ?thesis using run ok by (auto split: if_split_asm)
  next
    case 3
    then show ?thesis using run ok by (auto split: if_split_asm option.splits)
  qed
qed

lemma charge_blocks_history: "charge_blocks us bs c = Inr c' \<Longrightarrow> history c' = history c"
  by (induction us arbitrary: bs c) (auto simp: Let_def rbind_eq_Inr split: option.splits)

lemma charge_blocks_admitted: "charge_blocks us bs c = Inr c' \<Longrightarrow> admitted c' = admitted c"
  by (induction us arbitrary: bs c) (auto simp: Let_def rbind_eq_Inr split: option.splits)

lemma commit_marks_keeps:
  "plan_fit (commit_marks mgr r a c) = plan_fit c" "acct_ok (commit_marks mgr r a c) = acct_ok c"
  "history (commit_marks mgr r a c) = history c" "growth_ok c \<Longrightarrow> growth_ok (commit_marks mgr r a c)"
  by (auto simp: commit_marks_def Let_def plan_fit_def plan_ok_def acct_ok_def growth_ok_def tally_def
      dom_update split: if_splits)

lemma commit_annotated_keeps: "ctl_ok c \<Longrightarrow> ctl_ok (commit_annotated t1 t2 r md c)"
  by (auto simp: commit_annotated_def commit_history_def Let_def split: option.splits if_splits)

lemma commit_annotated_admitted: "admitted (commit_annotated t1 t2 r md c) = admitted c"
  by (auto simp: commit_annotated_def commit_history_def upd_history_def touch_history_def Let_def
      split: option.splits)

text \<open>Once the shares of a commit are granted, it succeeds.\<close>

lemma commit_granted:
  assumes "ctl_ok c" "consumption r (int (length (uncharged_blocks mgr r a c))) (commit_borrow a) c = Inr u0"
    and "(if u0 = None \<and> (is_running a \<or> has_key (request_id r) (admitted c))
        then Some [(None, int (length (uncharged_blocks mgr r a c)))] else u0) = Some us"
  shows "\<exists>c'. commit mgr t1 t2 r a c = Inr c' \<and> ctl_ok c' \<and> has_key (request_id r) (admitted c')"
proof -
  let ?bs = "uncharged_blocks mgr r a c"
  have bs: "distinct ?bs" "\<And>b. b \<in> set ?bs \<Longrightarrow> \<not> has_key b (charges c)"
    by (simp_all add: uncharged_blocks_spec)
  have c: "acct_ok c" "plan_fit c" "avail_ok c" "growth_ok c" "wf_od (history c)"
    using assms(1) by (simp_all add: ctl_ok_def)
  obtain c1 where c1: "charge_blocks us ?bs c = Inr c1" "acct_ok c1" "charge_frame c c1"
    using charge_blocks_spec [OF c(1) bs] commit_usage [OF c(3) assms(2,3)] by blast
  have frame: "plan_fit c1" "growth_ok c1" "wf_od (history c1)"
    using c c1(3) charge_blocks_history [OF c1(1)]
    by (simp_all add: charge_frame_def plan_fit_def plan_ok_def growth_ok_def)
  let ?m = "commit_marks mgr r a c1"
  obtain c2 where c2: "update_available mgr ?m = Inr c2" "ctl_ok c2"
    "c2 = ?m\<lparr>shared_available := shared_available c2, reserved_available := reserved_available c2\<rparr>"
    using update_available_ok [of ?m mgr] frame c1(2) by (auto simp: commit_marks_keeps)
  have adm: "has_key (request_id r) (admitted c2)"
    by (subst c2(3)) (simp add: commit_marks_frame has_key_def update_conv)
  have "commit mgr t1 t2 r a c = Inr (case map_of (c_metadata c2) (request_id r) of
      None \<Rightarrow> c2 | Some md \<Rightarrow> commit_annotated t1 t2 r md c2)"
    unfolding commit_def Let_def assms(2) rbind_Inr assms(3) option.case c1(1) c2(1)
    by (simp split: option.splits)
  then show ?thesis using c2(2) adm
    by (auto simp: commit_annotated_keeps commit_annotated_admitted split: option.splits)
qed

lemma commit_keeps:
  assumes "commit mgr t1 t2 r a c = Inr c'" "ctl_ok c"
  shows "ctl_ok c'"
  using assms(1)
proof (rule commit_stages)
  fix u0 us
  assume "consumption r (int (length (uncharged_blocks mgr r a c))) (commit_borrow a) c = Inr u0"
    "(if u0 = None \<and> (is_running a \<or> has_key (request_id r) (admitted c))
        then Some [(None, int (length (uncharged_blocks mgr r a c)))] else u0) = Some us"
  from commit_granted [OF assms(2) this, of t1 t2] show "ctl_ok c'" using assms(1) by auto
qed


subsection \<open>The start of a step\<close>

lemma apportion_keys: "map fst (apportion n ws) = map fst ws"
proof -
  have "map fst (fold (\<lambda>(k, v) d. AList.map_entry k (\<lambda>c. c + 1) d) ys d) = map fst d"
    for ys :: "(string \<times> pyfloat) list" and d :: "(string, int) odict"
    by (induction ys arbitrary: d) auto
  then show ?thesis by (simp add: apportion_def exact_shares_def Let_def comp_def split_beta)
qed

lemma partition_fit:
  assumes "partition_capacity sc imp us n rr cr = Inr p" "wf_od sc"
  shows "plan_scores p = sc" "wf_od (reserved p)" "fst ` set (reserved p) = set (critical p)"
    "fst ` set (reserved p) \<subseteq> fst ` set sc"
proof -
  obtain n' ws where p: "plan_scores p = sc" "reserved p = apportion n' ws"
    "map fst ws = py_sorted (\<lambda>k. k) (critical p)"
    "critical p = take (nat (max 1 (py_int (real (length sc) * cr)))) (map fst (py_sorted_desc (\<lambda>(k, v). (v, lookup_or 0 imp k, k)) sc))"
    using assms(1) by (auto simp: partition_capacity_def Let_def comp_def split: if_splits)
  have d: "distinct (critical p)"
    using wf_od_py_sorted_desc [of "\<lambda>(k, v). (v, lookup_or 0 imp k, k)" sc] assms(2)
    unfolding p(4) by (auto simp: wf_od_def)
  have sub: "set (critical p) \<subseteq> fst ` set sc" unfolding p(4) by (auto dest!: in_set_takeD)
  have keys: "map fst (reserved p) = py_sorted (\<lambda>k. k) (critical p)" by (simp add: p(2,3) apportion_keys)
  then show eq: "fst ` set (reserved p) = set (critical p)" by (metis list.set_map py_sorted_simps(1))
  show "plan_scores p = sc" by (rule p(1))
  show "wf_od (reserved p)" using d by (simp add: wf_od_def keys)
  show "fst ` set (reserved p) \<subseteq> fst ` set sc" using eq sub by simp
qed

lemma agent_demand_wf:
  assumes "wf_od (history c)"
  shows "wf_od (fst (agent_demand mgr rs c))"
proof -
  have "wf_od (fst (fold (\<lambda>r (imp, us).
             case map_of (c_metadata c) (request_id r) of
               None \<Rightarrow> (imp, us)
             | Some md \<Rightarrow>
                 if agent_type md = '''' then (imp, us)
                 else (AList.update (agent_type md) (max (get_default 0 (agent_type md) imp) (importance md)) imp,
                       AList.update (agent_type md) (get_default 0 (agent_type md) us
                         + int (length (block_ids mgr (request_id r)))) us)) rs s))" if "wf_od (fst s)" for s
    using that by (induction rs arbitrary: s) (auto split: option.splits)
  then show ?thesis using assms unfolding agent_demand_def by (simp add: wf_od_def comp_def split_beta)
qed

lemma replan_fit:
  assumes "replan mgr rs w c = Inr c'" "plan_fit c" "wf_od (history c)"
  shows "plan_fit c' \<and> (\<exists>rr p. c' = c\<lparr>reserve_ratio := rr, plan := p\<rparr>)"
proof (cases "c' = c")
  case True
  have "c = c\<lparr>reserve_ratio := reserve_ratio c, plan := plan c\<rparr>" by simp
  then show ?thesis using assms(2) True by blast
next
  case False
  obtain imp us where d: "agent_demand mgr rs c = (imp, us)" by force
  let ?f = "\<lambda>(k, v). (k, history_score (get_default new_history k (history c)) v (get_default 0 k (waiting_counts w))
    (get_default 0 k (waiting_time w) / of_int (max 1 (get_default 0 k (waiting_counts w)))))"
  obtain p where p: "partition_capacity (map ?f imp) imp us (int (length (blocks (km_pool mgr))) - 1)
      (adjusted_ratio mgr c) (critical_ratio (settings c)) = Inr p"
    and c': "c' = c\<lparr>reserve_ratio := adjusted_ratio mgr c, plan := p\<rparr>"
    using assms(1) False by (auto simp: replan_def d Let_def rbind_eq_Inr split: if_splits)
  have "wf_od (map ?f imp)"
    using agent_demand_wf [OF assms(3), of mgr rs] by (simp add: d wf_od_def comp_def split_beta)
  note fit = partition_fit [OF p this]
  have "has_key k (plan_scores p)" if "(k, n) \<in> set (reserved p)" for k n
    using that fit(1,4) by (force simp: has_key_iff)
  then have "plan_fit c'" using fit(2,3) by (auto simp: c' plan_fit_def plan_ok_def list_all_iff)
  then show ?thesis using c' by blast
qed


text \<open>What holds before the charges are recounted: the available shares may be stale.\<close>

definition recountable :: "controller \<Rightarrow> bool" where
  "recountable c \<longleftrightarrow> plan_fit c \<and> growth_ok c \<and> wf_od (charges c) \<and> wf_od (history c)"

lemma recountable_frame [simp]:
  "recountable (c\<lparr>scores := x1\<rparr>) = recountable c" "recountable (c\<lparr>agent_scores := x2\<rparr>) = recountable c"
  "recountable (c\<lparr>step_count := x3\<rparr>) = recountable c" "recountable (c\<lparr>waiting_scores := x4\<rparr>) = recountable c"
  "recountable (c\<lparr>waiting_critical := x5\<rparr>) = recountable c" "recountable (c\<lparr>admitted := x6\<rparr>) = recountable c"
  "recountable (c\<lparr>prefill_limits := x7\<rparr>) = recountable c" "recountable (c\<lparr>reservation_deferred := x8\<rparr>) = recountable c"
  "recountable (c\<lparr>cache_preferred := x9\<rparr>) = recountable c" "recountable (c\<lparr>priority_borrowed := x10\<rparr>) = recountable c"
  "recountable (c\<lparr>accounting_active := x11\<rparr>) = recountable c" "recountable (c\<lparr>reserve_ratio := x12\<rparr>) = recountable c"
  by (simp_all add: recountable_def plan_fit_def plan_ok_def growth_ok_def)

lemma adopt_running_recountable: "recountable (adopt_running rs c) = recountable c"
  unfolding adopt_running_def by (induction rs arbitrary: c) simp_all

lemma dict_of_keys: "fst ` set (dict_of xs) = fst ` set xs"
proof -
  have "fst ` set (fold (\<lambda>(k, v) d. AList.update k v d) xs d) = fst ` set d \<union> fst ` set xs" for d
    by (induction xs arbitrary: d) (simp_all add: dom_update split_beta)
  then show ?thesis by (simp add: dict_of_def)
qed

lemma refresh_growth_recountable: "recountable c \<Longrightarrow> recountable (refresh_growth mgr rs c)"
  by (auto simp: refresh_growth_def Let_def recountable_def plan_fit_def plan_ok_def growth_ok_def dict_of_keys
      image_image)

lemma adopt_blocks_recountable: "recountable c \<Longrightarrow> recountable (adopt_blocks mgr rs c)"
proof -
  have "wf_od (fold (\<lambda>b d. set_default b None d) bs d)" if "wf_od d" for bs and d :: "(nat, string option) odict"
    using that by (induction bs arbitrary: d) simp_all
  then show "recountable c \<Longrightarrow> recountable (adopt_blocks mgr rs c)"
    by (simp add: adopt_blocks_def recountable_def plan_fit_def plan_ok_def growth_ok_def)
qed

lemma begin_step_keeps:
  assumes "begin_step mgr now waiting running c = Inr (b, c')" "ctl_ok c"
  shows "ctl_ok c'"
proof (cases "c_metadata c = []")
  case True
  then have "c' = clear_all (clear_step c)" using assms(1) by (simp add: begin_step_def Let_def clear_step_def)
  then show ?thesis using assms(2)
    by (simp add: clear_all_def clear_step_def ctl_ok_def acct_ok_def plan_fit_def plan_ok_def avail_ok_def growth_ok_def
        count_owner_def fun_eq_iff)
next
  case False
  let ?rs = "waiting @ running"
  let ?c1 = "rescore now ?rs (refresh_growth mgr ?rs (adopt_running running (clear_step c)))"
  let ?c2 = "adopt_blocks mgr ?rs (?c1\<lparr>step_count := step_count ?c1 + 1\<rparr>)"
  obtain w c3 c4 where c3: "rfold (tally_waiting1 now) waiting (\<lparr>waiting_counts = [], waiting_time = []\<rparr>, ?c2) = Inr (w, c3)"
    and c4: "replan mgr ?rs w c3 = Inr c4"
    and c': "release_charges mgr (c4\<lparr>waiting_critical := set (critical (plan c4)) \<inter> fst ` set (waiting_counts w)\<rparr>) = Inr c'"
    using assms(1) False by (auto simp: begin_step_def Let_def rbind_eq_Inr clear_step_def)
  have "recountable (clear_step c)"
    using assms(2) by (simp add: clear_step_def recountable_def ctl_ok_def acct_ok_def plan_fit_def plan_ok_def growth_ok_def)
  then have c2: "recountable ?c2 \<and> accounting_active ?c2"
    by (simp add: adopt_blocks_recountable rescore_def Let_def refresh_growth_recountable adopt_running_recountable)
      (simp add: adopt_blocks_def)
  have "case (w, c3) of (w, c) \<Rightarrow> recountable c \<and> accounting_active c"
    using c3 by (rule rfold_invariant [where P = "\<lambda>(w, c). recountable c \<and> accounting_active c"])
      (use c2 in \<open>auto simp: tally_waiting1_def rbind_eq_Inr Let_def split: option.splits if_splits prod.splits\<close>)
  then have c3': "recountable c3" "accounting_active c3" by simp_all
  obtain rr p where c4': "plan_fit c4" "c4 = c3\<lparr>reserve_ratio := rr, plan := p\<rparr>"
    using replan_fit [OF c4] c3'(1) by (auto simp: recountable_def)
  have "recountable c4" "accounting_active c4"
    using c4' c3' by (auto simp: recountable_def growth_ok_def)
  then show ?thesis
    using release_active [of "c4\<lparr>waiting_critical := set (critical (plan c4)) \<inter> fst ` set (waiting_counts w)\<rparr>" mgr] c'
    by (auto simp: recountable_def plan_fit_def plan_ok_def growth_ok_def)
qed


subsection \<open>The machine\<close>

inductive ctl_step :: "controller \<Rightarrow> controller \<Rightarrow> bool" where
  step_associate: "ctl_step c (ctl_associate t rid md c)"
| step_begin: "begin_step mgr now waiting running c = Inr (b, c') \<Longrightarrow> ctl_step c c'"
| step_grow: "can_grow mgr t1 t2 r n c = Inr (b, c') \<Longrightarrow> ctl_step c c'"
| step_prepare: "prepare_running skip r mgr c = Inr (mgr', c') \<Longrightarrow> ctl_step c c'"
| step_cap: "cap_prefill n m c = (k, c') \<Longrightarrow> ctl_step c c'"
| step_order: "order_candidates mgr (xs :: (sched_request \<times> nat) list) c = Inr (ys, c') \<Longrightarrow> ctl_step c c'"
| step_lookup: "defer_cache_lookup mgr r n bs c = Inr (b, c') \<Longrightarrow> ctl_step c c'"
| step_allocate: "can_allocate skip r a mgr c = Inr (b, mgr', c') \<Longrightarrow> ctl_step c c'"
| step_commit: "commit mgr t1 t2 r ca c = Inr c' \<Longrightarrow> ctl_step c c'"
| step_defer: "ctl_step c (ctl_defer r c)"
| step_preempt: "preempt mgr t1 t2 r b c = Inr c' \<Longrightarrow> ctl_step c c'"
| step_finish: "ctl_step c (ctl_finish t1 t2 r c)"
| step_hits: "cache_hits mgr r gpu cpu gs c = Inr c' \<Longrightarrow> ctl_step c c'"
| step_executed: "executed out result_ids failed c = Inr c' \<Longrightarrow> ctl_step c c'"
| step_victim: "victim mgr r running n m cost c = Inr (v, c') \<Longrightarrow> ctl_step c c'"

inductive ctl_reachable :: "controller \<Rightarrow> bool" where
  ctl_start: "ctl_reachable (controller_init s mgr m lookahead)"
| ctl_more: "ctl_reachable c \<Longrightarrow> ctl_step c c' \<Longrightarrow> ctl_reachable c'"

lemma ctl_ok_init: "ctl_ok (controller_init s mgr m lookahead)"
  by (simp add: controller_init_def Let_def ctl_ok_def acct_ok_def plan_fit_def plan_ok_def avail_ok_def growth_ok_def
      empty_plan_def count_owner_def fun_eq_iff)

lemma ctl_step_keeps: "ctl_step c c' \<Longrightarrow> ctl_ok c \<Longrightarrow> ctl_ok c'"
proof (induction rule: ctl_step.induct)
  case (step_associate c t rid md)
  then show ?case by (simp add: ctl_associate_def)
qed (simp_all add: begin_step_keeps can_grow_keeps prepare_running_keeps cap_prefill_keeps order_candidates_keeps
    defer_cache_lookup_keeps can_allocate_keeps commit_keeps ctl_defer_keeps preempt_keeps ctl_finish_keeps
    cache_hits_keeps executed_keeps victim_keeps)

lemma ctl_reachable_ok: "ctl_reachable c \<Longrightarrow> ctl_ok c"
  by (induction rule: ctl_reachable.induct) (auto intro: ctl_ok_init ctl_step_keeps)

lemma init_reachable_begin:
  "begin_step mgr now waiting running (ctl_associate t rid md (controller_init s mgr' m l)) = Inr (b, c) \<Longrightarrow>
   ctl_reachable c"
  by (blast intro: ctl_reachable.intros ctl_step.intros)


subsection \<open>A run of the machine\<close>

abbreviation sample_fresh :: controller where
  "sample_fresh \<equiv> ctl_associate 0 ''a'' (metadata_defaults ''app'')
     (controller_init scheduling_defaults sample_kv_manager metrics_init 0)"

text \<open>The first step of a controller with one associated request and nothing queued: the whole
  pool is shared.\<close>

lemma sample_release:
  assumes "plan c = \<lparr>critical = [], plan_scores = [], reserved = [], shared = 3\<rparr>" "charges c = []"
    "\<not> progress_reservation c" "\<not> reclaim_reservation c" "growth_commitments c = []" "accounting_active c"
  shows "release_charges sample_kv_manager c =
    Inr (c\<lparr>charges := [], used := count_owner [], shared_available := 3, reserved_available := []\<rparr>)"
  using assms sample_pool_free
  by (simp add: release_charges_def update_available_def uncommitted_blocks_def committed_blocks_def dict_sum_def
      sample_kv_manager_def count_owner_def py_sorted_def)

lemma sample_plan:
  "partition_capacity [] [] [] 3 r cr = Inr \<lparr>critical = [], plan_scores = [], reserved = [], shared = 3\<rparr>"
  by (simp add: partition_capacity_def Let_def apportion_def exact_shares_def py_sorted_def py_sorted_desc_def py_upto_def)

lemma sample_replan:
  assumes "plan c = empty_plan" "history c = []"
  shows "replan sample_kv_manager [] \<lparr>waiting_counts = [], waiting_time = []\<rparr> c = Inr (c\<lparr>reserve_ratio := adjusted_ratio sample_kv_manager c,
    plan := \<lparr>critical = [], plan_scores = [], reserved = [], shared = 3\<rparr>\<rparr>)"
proof -
  have "length (blocks sample_pool) = 4"
    using sample_pool_reachable sample_pool_queue(2) pool_reachable_inv by (fastforce simp: pool_inv_def blocks_ok_def)
  then have "int (length (blocks (km_pool sample_kv_manager))) - 1 = 3"
    by (simp add: sample_kv_manager_def)
  then show ?thesis using assms by (simp add: replan_def agent_demand_def empty_plan_def sample_plan)
qed

lemma sample_begin:
  "\<exists>c. begin_step sample_kv_manager 1 [] [] sample_fresh = Inr (True, c)
   \<and> shared_available c = 3 \<and> reserved_available c = [] \<and> admitted c = [] \<and> charges c = []
   \<and> \<not> progress_reservation c \<and> \<not> reclaim_reservation c \<and> growth_commitments c = [] \<and> retry_capacity c = []
   \<and> c_metadata c = [(''a'', metadata_defaults ''app'')]"
  by (simp add: begin_step_def Let_def clear_step_def scheduling_defaults_def ctl_associate_def controller_init_def adopt_running_def
      refresh_growth_def rescore_def adopt_blocks_def dict_of_def fresh_scores_def inherit_scores_def sample_replan sample_release)


definition sample_started :: controller where
  "sample_started = (case begin_step sample_kv_manager 1 [] [] sample_fresh of
     Inr (b, c) \<Rightarrow> c | Inl e \<Rightarrow> sample_fresh)"

lemma sample_started_simps:
  "ctl_reachable sample_started" "shared_available sample_started = 3" "admitted sample_started = []"
  "charges sample_started = []" "reserved_available sample_started = []" "\<not> progress_reservation sample_started"
  "\<not> reclaim_reservation sample_started" "growth_commitments sample_started = []" "retry_capacity sample_started = []"
  "c_metadata sample_started = [(''a'', metadata_defaults ''app'')]"
proof -
  obtain c where c: "begin_step sample_kv_manager 1 [] [] sample_fresh = Inr (True, c)"
    "shared_available c = 3 \<and> reserved_available c = [] \<and> admitted c = [] \<and> charges c = []
     \<and> \<not> progress_reservation c \<and> \<not> reclaim_reservation c \<and> growth_commitments c = [] \<and> retry_capacity c = []
     \<and> c_metadata c = [(''a'', metadata_defaults ''app'')]"
    using sample_begin by blast
  then have "sample_started = c" by (simp add: sample_started_def)
  with c(2) init_reachable_begin [OF c(1)] show "ctl_reachable sample_started"
    "shared_available sample_started = 3" "admitted sample_started = []"
    "charges sample_started = []" "reserved_available sample_started = []" "\<not> progress_reservation sample_started"
    "\<not> reclaim_reservation sample_started" "growth_commitments sample_started = []" "retry_capacity sample_started = []"
    "c_metadata sample_started = [(''a'', metadata_defaults ''app'')]" by simp_all
qed

subsection \<open>The accounting of the controller\<close>

text \<open>
  \<^bold>\<open>C16\<close>. In every reachable controller the usage counters agree with the charged blocks,
  no block is charged twice, every critical agent type has a reservation, the available shares are
  not negative, and neither the sum of the committed blocks, nor a recount of the charges, nor the
  search for the shares of an admission raises an error.
\<close>

theorem controller_accounting:
  assumes "ctl_reachable c"
  shows "wf_od (charges c) \<and> (\<forall>w. used c w = count_owner (charges c) w)
    \<and> set (critical (plan c)) \<subseteq> fst ` set (reserved (plan c))
    \<and> 0 \<le> shared_available c \<and> (\<forall>k. 0 \<le> get_default 0 k (reserved_available c))
    \<and> (\<exists>n. uncommitted_blocks mgr c = Inr n) \<and> (\<exists>c'. release_charges mgr c = Inr c')
    \<and> (\<forall>r n br. 0 \<le> n \<longrightarrow> (\<exists>u. consumption r n br c = Inr u))"
proof -
  have ok: "ctl_ok c" using assms by (rule ctl_reachable_ok)
  then have av: "avail_ok c" by (simp add: ctl_ok_def)
  have "\<exists>u. consumption r n br c = Inr u" if "0 \<le> n" for r n br
    using consumption_spec [OF av that, of r br] by (cases "consumption r n br c") auto
  then show ?thesis
    using ok release_ok [OF ok, of mgr] uncommitted_total [of c mgr] avail_ok_share [OF av]
    by (auto simp: ctl_ok_def acct_ok_def plan_fit_def avail_ok_def)
qed

theorem controller_accounting_witness:
  "ctl_reachable sample_started \<and> (\<exists>u. consumption (sample_req ''a'') 2 False sample_started = Inr u)
   \<and> (\<forall>w. used sample_started w = count_owner [] w)"
  using controller_accounting [OF sample_started_simps(1)] sample_started_simps by auto

text \<open>
  \<^bold>\<open>C19\<close>. The available shares of a reachable controller, recomputed, add up to the
  smaller of what the plan leaves open and the uncommitted blocks. They never exceed what the plan
  leaves open, and blocks are taken away from the shared part first and then from the reservations
  in the order of their scores: a reservation is cut only when the shared part and every
  reservation of a lower score is empty.
\<close>

theorem available_capacity_exact:
  assumes "ctl_reachable c" "uncommitted_blocks mgr c = Inr u"
  shows "\<exists>c'. update_available mgr c = Inr c'
    \<and> 0 \<le> shared_available c' \<and> shared_available c' \<le> open_shared c
    \<and> (\<forall>k. 0 \<le> share (reserved_available c') k \<and> share (reserved_available c') k \<le> share (open_reserved c) k)
    \<and> shared_available c' + dict_sum (reserved_available c') =
        min (open_shared c + dict_sum (open_reserved c)) (max 0 u)
    \<and> (\<forall>k. share (reserved_available c') k < share (open_reserved c) k \<longrightarrow> shared_available c' = 0
        \<and> (\<forall>j. has_key j (reserved (plan c)) \<and> share_score c j < share_score c k \<longrightarrow>
              share (reserved_available c') j = 0))"
proof -
  have "plan_ok c" using ctl_reachable_ok [OF assms(1)] by (simp add: ctl_ok_def plan_fit_def)
  then show ?thesis using update_available_spec [OF _ assms(2)] by blast
qed

theorem available_capacity_exact_witness:
  "\<exists>u c'. uncommitted_blocks sample_kv_manager sample_started = Inr u
    \<and> update_available sample_kv_manager sample_started = Inr c'
    \<and> shared_available c' + dict_sum (reserved_available c') =
        min (open_shared sample_started + dict_sum (open_reserved sample_started)) (max 0 u)"
proof -
  obtain u where u: "uncommitted_blocks sample_kv_manager sample_started = Inr u"
    using uncommitted_total ctl_reachable_ok [OF sample_started_simps(1)] by (auto simp: ctl_ok_def)
  then show ?thesis using available_capacity_exact [OF sample_started_simps(1) u] by blast
qed

text \<open>
  \<^bold>\<open>C18\<close>. The shares an admission draws on are complete and sound: the search finds
  shares exactly when the demand is at most what the request may draw on, namely the shared
  blocks, the reservation of its own agent type if that is critical, and what other types may lend;
  the shares it finds add up to the demand, name each owner once, stay within what the owner has
  available and touch only owners the request may use.
\<close>

theorem consumption_exact:
  assumes "ctl_reachable c" "0 \<le> demand"
  shows "case consumption r demand br c of
      Inl e \<Rightarrow> False
    | Inr None \<Rightarrow> drawable r br c < demand
    | Inr (Some us) \<Rightarrow> demand \<le> drawable r br c \<and> usage_ok r demand br c us"
  using ctl_reachable_ok [OF assms(1)] assms(2) by (intro consumption_spec) (simp_all add: ctl_ok_def)

theorem consumption_exact_witness:
  "\<exists>us. consumption (sample_req ''a'') 2 False sample_started = Inr (Some us)
     \<and> sum_list (map snd us) = 2 \<and> usage_ok (sample_req ''a'') 2 False sample_started us"
proof -
  have "consumption (sample_req ''a'') 2 False sample_started = Inr (Some [(None, 2)])"
    by (simp add: consumption_def Let_def sample_started_simps)
  then show ?thesis using consumption_exact [OF sample_started_simps(1), of 2 "sample_req ''a''" False] by auto
qed

text \<open>
  A commit in a reachable controller charges exactly the blocks that were not
  charged yet, keeps the owners of the others, leaves the usage counters equal to the charged
  blocks, and after the admission of a new request every block the request holds is charged.
\<close>

lemma commit_accounting:
  assumes "ctl_reachable c" "commit mgr t1 t2 r a c = Inr c'"
  shows "fst ` set (charges c') = fst ` set (charges c) \<union> set (uncharged_blocks mgr r a c)
    \<and> (\<forall>b w. map_of (charges c) b = Some w \<longrightarrow> map_of (charges c') b = Some w)
    \<and> wf_od (charges c') \<and> used c' = count_owner (charges c')
    \<and> (\<not> is_running a \<longrightarrow> set (block_ids mgr (request_id r)) \<subseteq> fst ` set (charges c'))"
proof -
  have "acct_ok c" "avail_ok c" using ctl_reachable_ok [OF assms(1)] by (simp_all add: ctl_ok_def)
  from commit_charges [OF this assms(2)] show ?thesis
    using uncharged_blocks_spec(3) [of a mgr r c] by (auto simp: acct_ok_def)
qed

definition sample_wide :: kv_manager where
  "sample_wide = sample_kv_manager\<lparr>get_num_blocks_to_allocate := (\<lambda>_. 2)\<rparr>"

definition sample_allocate :: allocate_args where
  "sample_allocate = \<lparr>num_new_tokens = 8, num_new_computed_tokens = 0, new_computed_blocks = None,
     lookahead_tokens = 0, num_external_computed_tokens = 0, num_encoder_tokens = 0, borrow_reserved = False\<rparr>"

definition sample_commit :: commit_args where
  "sample_commit = \<lparr>is_running = False, commit_encoder_tokens = 0, new_blocks = None, commit_borrow = False\<rparr>"

text \<open>The manager after two blocks were allocated to the request.\<close>

definition sample_held :: kv_manager where
  "sample_held = sample_wide\<lparr>km_blocks := (\<lambda>_. [[1, 2]])\<rparr>"

lemma sample_uncharged: "length (uncharged_blocks sample_held (sample_req ''a'') sample_commit sample_started) \<le> 2"
proof -
  let ?P = "\<lambda>b. \<not> is_null (the_block sample_pool b)"
  have "length (uncharged_blocks sample_held (sample_req ''a'') sample_commit sample_started) =
      length (remdups (filter ?P [1, 2]))"
    by (simp add: uncharged_blocks_def sample_commit_def block_ids_def sample_held_def sample_wide_def sample_kv_manager_def
        sample_started_simps has_key_def sample_req_def)
  also have "\<dots> \<le> length (filter ?P [1, 2])" by (rule length_remdups_leq)
  also have "\<dots> \<le> 2" using length_filter_le [of ?P "[1, 2]"] by simp
  finally show ?thesis .
qed

text \<open>
  \<^bold>\<open>C17\<close>. An admission that was granted can be committed: when \<open>can_allocate\<close> said yes
  in a reachable controller and the allocation took no more new blocks than the demand it checked,
  \<open>commit\<close> returns, its assertion holds, and the request is admitted.
\<close>

theorem admitted_commit_succeeds:
  assumes "ctl_reachable c" "can_allocate skip r a mgr c = Inr (True, mgr', c')"
    and "commit_borrow ca = borrow_reserved a"
    and "int (length (uncharged_blocks mgr2 r ca c')) \<le> allocation_demand mgr' r a
           (num_computed_tokens r + num_new_computed_tokens a + num_external_computed_tokens a) c'"
  shows "\<exists>c''. commit mgr2 t1 t2 r ca c' = Inr c'' \<and> has_key (request_id r) (admitted c'')"
proof -
  let ?n = "int (length (uncharged_blocks mgr2 r ca c'))"
  have ok: "ctl_ok c'" using can_allocate_keeps [OF assms(2)] ctl_reachable_ok [OF assms(1)] by simp
  then have av: "avail_ok c'" by (simp add: ctl_ok_def)
  obtain u0 where u0: "consumption r ?n (commit_borrow ca) c' = Inr u0"
    using consumption_spec [OF av, of ?n r "commit_borrow ca"] by (cases "consumption r ?n (commit_borrow ca) c'") auto
  have "u0 \<noteq> None" if "\<not> has_key (request_id r) (admitted c')"
  proof -
    have "\<not> has_key (request_id r) (admitted c)"
      using that assms(2) by (auto simp: can_allocate_def Let_def)
    from can_allocate_granted [OF assms(2) this] obtain us where "consumption r (allocation_demand mgr' r a
        (num_computed_tokens r + num_new_computed_tokens a + num_external_computed_tokens a) c') (borrow_reserved a) c' = Inr (Some us)"
      by blast
    from consumption_le [OF av this _ assms(4)] show ?thesis using u0 assms(3) by auto
  qed
  then have "has_key (request_id r) (admitted c') \<or> u0 \<noteq> None" by blast
  then obtain us where "(if u0 = None \<and> (is_running ca \<or> has_key (request_id r) (admitted c'))
      then Some [(None, ?n)] else u0) = Some us" by (cases u0) auto
  then show ?thesis using commit_granted [OF ok u0, of us t1 t2] by blast
qed

lemma sample_demand:
  "allocation_demand sample_wide (sample_req ''a'') sample_allocate k sample_started = 2"
  by (simp add: allocation_demand_def admission_demand_def required_blocks_def Let_def sample_wide_def sample_started_simps)

lemma sample_granted:
  "\<exists>c'. can_allocate (\<lambda>_ _ m. m) (sample_req ''a'') sample_allocate sample_wide sample_started = Inr (True, sample_wide, c')
    \<and> (c' = sample_started \<or> (\<exists>P. c' = sample_started\<lparr>priority_borrowed := P\<rparr>))"
proof -
  have "uncommitted_blocks sample_wide sample_started = Inr 3"
    using sample_pool_free by (simp add: uncommitted_blocks_def committed_blocks_def dict_sum_def sample_started_simps
        sample_wide_def sample_kv_manager_def)
  moreover have "consumption (sample_req ''a'') 2 False sample_started = Inr (Some [(None, 2)])"
    by (simp add: consumption_def Let_def sample_started_simps)
  moreover have "request_id (sample_req ''a'') = ''a''" by (simp add: sample_req_def)
  moreover have "borrow_reserved sample_allocate = False" by (simp add: sample_allocate_def)
  ultimately show ?thesis
    by (simp add: can_allocate_def Let_def has_key_def sample_started_simps retry_blocked_def sample_demand borrows_from_waiting_def
        split: option.splits)
qed

theorem admitted_commit_succeeds_witness:
  "\<exists>c' c''. can_allocate (\<lambda>_ _ m. m) (sample_req ''a'') sample_allocate sample_wide sample_started = Inr (True, sample_wide, c')
    \<and> commit sample_held 1 1 (sample_req ''a'') sample_commit c' = Inr c'' \<and> has_key ''a'' (admitted c'')"
proof -
  obtain c' where c': "can_allocate (\<lambda>_ _ m. m) (sample_req ''a'') sample_allocate sample_wide sample_started = Inr (True, sample_wide, c')"
    and same: "c' = sample_started \<or> (\<exists>P. c' = sample_started\<lparr>priority_borrowed := P\<rparr>)"
    using sample_granted by blast
  have "uncharged_blocks sample_held r ca c' = uncharged_blocks sample_held r ca sample_started" for r ca
    using same by (auto simp: uncharged_blocks_def)
  moreover have "allocation_demand sample_wide (sample_req ''a'') sample_allocate k c' = 2" for k
    using same by (auto simp: priority_borrowed_irrelevant sample_demand)
  moreover have "commit_borrow sample_commit = borrow_reserved sample_allocate"
    by (simp add: sample_commit_def sample_allocate_def)
  ultimately show ?thesis
    using admitted_commit_succeeds [OF sample_started_simps(1) c', of sample_commit sample_held 1 1] sample_uncharged c'
    by (auto simp: sample_req_def)
qed

end
