(* ===== verification/Encoder_Cache.thy ===== *)
theory Encoder_Cache
  imports Prelude
begin

section \<open>The encoder cache manager\<close>

text \<open>
  The bookkeeping of multimodal encoder outputs in \<open>vllm/v1/core/encoder_cache_manager.py\<close>:
  \<open>EncoderCacheManager\<close>, the variant for encoder-decoder models and the encoder budgets. A request is
  its identifier and its multimodal features, a feature its hash and the number of embeddings its
  position has. The iteration order of the set of cached inputs in \<open>free\<close> is an argument.
\<close>

subsection \<open>State and operations\<close>

record encoder_input =
  mm_hash :: string
  num_embeds :: int

record mm_request =
  mm_request_id :: string
  mm_features :: "encoder_input list"

record encoder_cache =
  cache_size :: int
  num_free_slots :: int
  num_freeable_slots :: int
  cached :: "(string, string set) odict"
  freeable :: "(string, int) odict"
  freed :: "string list"

definition encoder_cache_init :: "int \<Rightarrow> encoder_cache" where
  "encoder_cache_init n =
     \<lparr>cache_size = n, num_free_slots = n, num_freeable_slots = n, cached = [], freeable = [], freed = []\<rparr>"

definition encoder_cache_reset :: "encoder_cache \<Rightarrow> encoder_cache" where
  "encoder_cache_reset m =
     m\<lparr>cached := [], freeable := [], freed := [], num_free_slots := cache_size m,
       num_freeable_slots := cache_size m\<rparr>"

definition feature_hash :: "mm_request \<Rightarrow> nat \<Rightarrow> string res" where
  "feature_hash r i = (if i < length (mm_features r) then Inr (mm_hash (mm_features r ! i)) else Inl IndexError)"

definition get_num_encoder_embeds :: "mm_request \<Rightarrow> nat \<Rightarrow> int res" where
  "get_num_encoder_embeds r i = py_assert (i < length (mm_features r)) (Inr (num_embeds (mm_features r ! i)))"

definition check_and_update_cache :: "mm_request \<Rightarrow> nat \<Rightarrow> encoder_cache \<Rightarrow> (bool \<times> encoder_cache) res" where
  "check_and_update_cache r i m =
     rbind (feature_hash r i) (\<lambda>h.
     case map_of (cached m) h of
       None \<Rightarrow> Inr (False, m)
     | Some ids \<Rightarrow>
         rbind (if ids = {} then
                  (case map_of (freeable m) h of
                     None \<Rightarrow> Inl KeyError
                   | Some n \<Rightarrow> Inr (m\<lparr>freeable := AList.delete h (freeable m),
                                     num_freeable_slots := num_freeable_slots m - n\<rparr>))
                else Inr m) (\<lambda>m1.
           Inr (True, m1\<lparr>cached := AList.update h (insert (mm_request_id r) ids) (cached m1)\<rparr>)))"

text \<open>The eviction loop of \<open>can_allocate\<close>: the oldest unreferenced entry first.\<close>

function evict_until :: "int \<Rightarrow> encoder_cache \<Rightarrow> encoder_cache res" where
  "evict_until n m =
     (if n > num_free_slots m then
        (case freeable m of
           [] \<Rightarrow> Inl KeyError
         | (h, e) # rest \<Rightarrow>
             if \<not> has_key h (cached m) then Inl KeyError
             else evict_until n
                    (m\<lparr>freeable := rest, cached := AList.delete h (cached m), freed := freed m @ [h],
                       num_free_slots := num_free_slots m + e\<rparr>))
      else Inr m)"
  by pat_completeness auto
termination by (relation "measure (\<lambda>(n, m). length (freeable m))") auto

declare evict_until.simps [simp del]

definition encoder_can_allocate :: "mm_request \<Rightarrow> nat \<Rightarrow> int \<Rightarrow> int \<Rightarrow> encoder_cache \<Rightarrow> (bool \<times> encoder_cache) res" where
  "encoder_can_allocate r i budget scheduled m =
     rbind (get_num_encoder_embeds r i) (\<lambda>n.
     if n > budget then Inr (False, m)
     else if n + scheduled \<le> num_free_slots m then Inr (True, m)
     else if n + scheduled > num_freeable_slots m then Inr (False, m)
     else rbind (evict_until (n + scheduled) m) (\<lambda>m1. Inr (True, m1)))"

definition encoder_allocate :: "mm_request \<Rightarrow> nat \<Rightarrow> encoder_cache \<Rightarrow> encoder_cache res" where
  "encoder_allocate r i m =
     rbind (feature_hash r i) (\<lambda>h.
     let m1 = m\<lparr>cached := set_default h {} (cached m)\<rparr>
     in rbind (get_num_encoder_embeds r i) (\<lambda>n.
        py_assert (num_free_slots m1 \<ge> n) (py_assert (num_freeable_slots m1 \<ge> n)
          (Inr (m1\<lparr>cached := AList.map_entry h (insert (mm_request_id r)) (cached m1),
                   num_free_slots := num_free_slots m1 - n,
                   num_freeable_slots := num_freeable_slots m1 - n\<rparr>)))))"

definition get_cached_input_ids :: "mm_request \<Rightarrow> encoder_cache \<Rightarrow> nat set" where
  "get_cached_input_ids r m = {i \<in> {..<length (mm_features r)}. has_key (mm_hash (mm_features r ! i)) (cached m)}"

definition free_encoder_input :: "mm_request \<Rightarrow> nat \<Rightarrow> encoder_cache \<Rightarrow> encoder_cache res" where
  "free_encoder_input r i m =
     rbind (feature_hash r i) (\<lambda>h.
     let ids = get_default {} h (cached m) in
     if ids = {} then Inr m
     else
       (let ids' = ids - {mm_request_id r};
            m1 = m\<lparr>cached := AList.update h ids' (cached m)\<rparr>
        in if ids' = {} then
             rbind (get_num_encoder_embeds r i) (\<lambda>n.
               Inr (m1\<lparr>freeable := AList.update h n (freeable m1), num_freeable_slots := num_freeable_slots m1 + n\<rparr>))
           else Inr m1))"

definition encoder_free :: "(nat set \<Rightarrow> nat list) \<Rightarrow> mm_request \<Rightarrow> encoder_cache \<Rightarrow> encoder_cache res" where
  "encoder_free iter r m = rfold (free_encoder_input r) (iter (get_cached_input_ids r m)) m"

definition get_freed_mm_hashes :: "encoder_cache \<Rightarrow> string list \<times> encoder_cache" where
  "get_freed_mm_hashes m = (freed m, m\<lparr>freed := []\<rparr>)"

subsection \<open>Budgets\<close>

record encoder_scheduler_config =
  disable_chunked_mm_input :: bool
  max_num_batched_tokens :: int
  max_num_encoder_input_tokens :: int
  cfg_encoder_cache_size :: int

definition compute_mm_encoder_budget ::
  "encoder_scheduler_config \<Rightarrow> (string, int) odict \<Rightarrow> (int \<times> int) res" where
  "compute_mm_encoder_budget s per_item =
     (case map snd per_item of
        [] \<Rightarrow> Inr (0, 0)
      | v # vs \<Rightarrow>
          (let largest = foldl max v vs in
           if disable_chunked_mm_input s \<and> largest > max_num_batched_tokens s
           then Inl (ValueError ''Chunked MM input disabled but max_tokens_per_mm_item is larger than max_num_batched_tokens'')
           else Inr (max (max_num_encoder_input_tokens s) largest, max (cfg_encoder_cache_size s) largest)))"

subsection \<open>Encoder-decoder models\<close>

record encdec_cache =
  ed_cache_size :: int
  ed_num_free_slots :: int
  ed_allocated :: "string list"
  ed_to_free :: "string list"

definition encdec_init :: "int \<Rightarrow> encdec_cache" where
  "encdec_init n = \<lparr>ed_cache_size = n, ed_num_free_slots = n, ed_allocated = [], ed_to_free = []\<rparr>"

definition encdec_reset :: "encdec_cache \<Rightarrow> encdec_cache" where
  "encdec_reset m = m\<lparr>ed_num_free_slots := ed_cache_size m, ed_allocated := [], ed_to_free := []\<rparr>"

definition encdec_check :: "mm_request \<Rightarrow> nat \<Rightarrow> encdec_cache \<Rightarrow> bool \<times> encdec_cache" where
  "encdec_check r i m = (False, m)"

definition encdec_can_allocate :: "mm_request \<Rightarrow> nat \<Rightarrow> int \<Rightarrow> int \<Rightarrow> encdec_cache \<Rightarrow> bool res" where
  "encdec_can_allocate r i budget scheduled m =
     rbind (get_num_encoder_embeds r i) (\<lambda>n.
     if n > budget then Inr False else Inr (n + scheduled \<le> ed_num_free_slots m))"

definition encdec_allocate :: "mm_request \<Rightarrow> nat \<Rightarrow> encdec_cache \<Rightarrow> encdec_cache res" where
  "encdec_allocate r i m =
     rbind (get_num_encoder_embeds r i) (\<lambda>n.
     rbind (feature_hash r i) (\<lambda>h.
       Inr (m\<lparr>ed_num_free_slots := ed_num_free_slots m - n, ed_allocated := ed_allocated m @ [h]\<rparr>)))"

definition encdec_free_input :: "mm_request \<Rightarrow> nat \<Rightarrow> encdec_cache \<Rightarrow> encdec_cache res" where
  "encdec_free_input r i m =
     rbind (get_num_encoder_embeds r i) (\<lambda>n. Inr (m\<lparr>ed_num_free_slots := ed_num_free_slots m + n\<rparr>))"

definition encdec_free :: "mm_request \<Rightarrow> encdec_cache \<Rightarrow> encdec_cache res" where
  "encdec_free r m = rfold (encdec_free_input r) [0..<length (mm_features r)] m"

definition encdec_cached_input_ids :: "mm_request \<Rightarrow> nat set" where
  "encdec_cached_input_ids r = {..<length (mm_features r)}"

definition encdec_freed_hashes :: "encdec_cache \<Rightarrow> string list \<times> encdec_cache" where
  "encdec_freed_hashes m = (ed_to_free m, m\<lparr>ed_to_free := ed_allocated m, ed_allocated := []\<rparr>)"

subsection \<open>The invariant\<close>

text \<open>Equal hashes stand for equal data, so for the same number of embeddings.\<close>

definition sized :: "(string \<Rightarrow> int) \<Rightarrow> mm_request \<Rightarrow> bool" where
  "sized sz r \<longleftrightarrow> list_all (\<lambda>f. num_embeds f = sz (mm_hash f)) (mm_features r)"

definition slots :: "(string \<Rightarrow> int) \<Rightarrow> string set \<Rightarrow> int" where
  "slots sz H = (\<Sum>h \<in> H. sz h)"

definition unreferenced :: "encoder_cache \<Rightarrow> string set" where
  "unreferenced m = {h. map_of (cached m) h = Some {}}"

definition enc_ok :: "(string \<Rightarrow> int) \<Rightarrow> encoder_cache \<Rightarrow> bool" where
  "enc_ok sz m \<longleftrightarrow> wf_od (cached m) \<and> wf_od (freeable m) \<and> fst ` set (freeable m) = unreferenced m
     \<and> (\<forall>(h, n) \<in> set (freeable m). n = sz h)
     \<and> num_free_slots m = cache_size m - slots sz (fst ` set (cached m))
     \<and> num_freeable_slots m = num_free_slots m + slots sz (fst ` set (freeable m))
     \<and> 0 \<le> num_free_slots m"

lemma enc_ok_init: "0 \<le> n \<Longrightarrow> enc_ok sz (encoder_cache_init n)"
  by (simp add: enc_ok_def encoder_cache_init_def slots_def unreferenced_def)

lemma enc_ok_reset: "enc_ok sz m \<Longrightarrow> 0 \<le> cache_size m \<Longrightarrow> enc_ok sz (encoder_cache_reset m)"
  by (simp add: enc_ok_def encoder_cache_reset_def slots_def unreferenced_def)

lemma slots_insert: "finite H \<Longrightarrow> h \<notin> H \<Longrightarrow> slots sz (insert h H) = sz h + slots sz H"
  by (simp add: slots_def)

lemma slots_remove: "finite H \<Longrightarrow> h \<in> H \<Longrightarrow> slots sz (H - {h}) = slots sz H - sz h"
  by (simp add: slots_def sum.remove)

lemma unreferenced_cached: "unreferenced m \<subseteq> fst ` set (cached m)"
  by (force simp: unreferenced_def dest: map_of_SomeD)

lemma finite_unreferenced [simp]: "finite (unreferenced m)"
  by (rule finite_subset [OF unreferenced_cached]) simp

lemma unreferenced_eq: "cached m = c \<Longrightarrow> unreferenced m = {j. map_of c j = Some {}}"
  by (simp add: unreferenced_def)

lemma map_entry_last: "h \<notin> fst ` set d \<Longrightarrow> AList.map_entry h f (d @ [(h, v)]) = d @ [(h, f v)]"
  by (induction d) auto

lemma sizedD: "sized sz r \<Longrightarrow> get_num_encoder_embeds r i = Inr n \<Longrightarrow> feature_hash r i = Inr h \<Longrightarrow> n = sz h"
  by (auto simp: sized_def list_all_iff get_num_encoder_embeds_def feature_hash_def py_assert_def split: if_splits)


text \<open>What an eviction of the first \<open>k\<close> unreferenced entries leaves.\<close>

definition evicted :: "nat \<Rightarrow> encoder_cache \<Rightarrow> encoder_cache" where
  "evicted k m = m\<lparr>freeable := drop k (freeable m),
     cached := filter (\<lambda>x. fst x \<notin> fst ` set (take k (freeable m))) (cached m),
     freed := freed m @ map fst (take k (freeable m)),
     num_free_slots := num_free_slots m + sum_list (map snd (take k (freeable m)))\<rparr>"

lemma evicted_0 [simp]: "evicted 0 m = m"
  by (simp add: evicted_def)

lemma enc_ok_evict1:
  assumes "enc_ok sz m" "\<And>h. 0 \<le> sz h" "freeable m = (h, e) # rest"
  shows "has_key h (cached m)" "e = sz h"
    "enc_ok sz (m\<lparr>freeable := rest, cached := AList.delete h (cached m), freed := freed m @ [h],
       num_free_slots := num_free_slots m + e\<rparr>)"
proof -
  have un: "insert h (fst ` set rest) = unreferenced m" and h: "h \<notin> fst ` set rest"
    and wf: "wf_od rest" "wf_od (cached m)" and sizes: "\<forall>(h, n) \<in> set rest. n = sz h"
    using assms(1,3) by (auto simp: enc_ok_def)
  show e: "e = sz h" using assms(1,3) by (simp add: enc_ok_def)
  have hc: "h \<in> fst ` set (cached m)" using un unreferenced_cached [of m] by blast
  then show "has_key h (cached m)" by (simp add: has_key_iff)
  let ?m = "m\<lparr>freeable := rest, cached := AList.delete h (cached m), freed := freed m @ [h],
       num_free_slots := num_free_slots m + e\<rparr>"
  have "unreferenced ?m = unreferenced m - {h}" by (auto simp: unreferenced_def AList.delete_conv')
  then have un': "fst ` set rest = unreferenced ?m" using un h by blast
  have free: "slots sz (fst ` set (freeable m)) = e + slots sz (fst ` set rest)"
    using h by (simp add: assms(3) e slots_insert)
  have all: "slots sz (fst ` set (AList.delete h (cached m))) = slots sz (fst ` set (cached m)) - e"
    using hc by (simp add: e slots_remove)
  have pos: "0 \<le> e" using e assms(2) by simp
  show "enc_ok sz ?m"
    unfolding enc_ok_def un' [symmetric] using assms(1) wf sizes free all pos
    by (simp add: enc_ok_def del: fst_set_delete)
qed

lemma evict_until_spec:
  assumes "enc_ok sz m" "\<And>h. 0 \<le> sz h" "n \<le> num_freeable_slots m"
  shows "\<exists>k. k \<le> length (freeable m) \<and> evict_until n m = Inr (evicted k m) \<and> enc_ok sz (evicted k m)
    \<and> n \<le> num_free_slots (evicted k m) \<and> (\<forall>j < k. num_free_slots (evicted j m) < n)"
  using assms(1,3)
proof (induction n m rule: evict_until.induct)
  case (1 n m)
  show ?case
  proof (cases "n > num_free_slots m")
    case False
    then show ?thesis using 1 by (intro exI [of _ 0]) (auto simp: evict_until.simps)
  next
    case True
    have "freeable m \<noteq> []" using True "1.prems" by (auto simp: enc_ok_def slots_def)
    then obtain h e rest where f: "freeable m = (h, e) # rest" by (cases "freeable m") auto
    let ?m = "m\<lparr>freeable := rest, cached := AList.delete h (cached m), freed := freed m @ [h],
       num_free_slots := num_free_slots m + e\<rparr>"
    note one = enc_ok_evict1 [OF "1.prems"(1) assms(2) f]
    obtain k where k: "k \<le> length rest" "evict_until n ?m = Inr (evicted k ?m)" "enc_ok sz (evicted k ?m)"
      "n \<le> num_free_slots (evicted k ?m)" "\<forall>j < k. num_free_slots (evicted j ?m) < n"
      using "1.IH" [OF True f refl] one "1.prems"(2) by auto
    have same: "evicted j ?m = evicted (Suc j) m" for j
      by (simp add: evicted_def f AList.delete_eq comp_def split_beta add.assoc eq_commute [of h])
    have "evict_until n m = evict_until n ?m" using True f one(1) by (simp add: evict_until.simps [of n m])
    moreover have "num_free_slots (evicted j m) < n" if "j < Suc k" for j
      using that k(5) same True by (cases j) auto
    ultimately show ?thesis using k same f by (intro exI [of _ "Suc k"]) auto
  qed
qed


lemma can_allocate_spec:
  assumes "enc_ok sz m" "\<And>h. 0 \<le> sz h" "i < length (mm_features r)" "n = num_embeds (mm_features r ! i)"
  shows "\<exists>k \<le> length (freeable m). encoder_can_allocate r i budget scheduled m =
      Inr (n \<le> budget \<and> n + scheduled \<le> num_freeable_slots m, evicted k m)
    \<and> enc_ok sz (evicted k m) \<and> (\<forall>j < k. num_free_slots (evicted j m) < n + scheduled)
    \<and> (n \<le> budget \<and> n + scheduled \<le> num_freeable_slots m \<longrightarrow> n + scheduled \<le> num_free_slots (evicted k m))
    \<and> (\<not> (n \<le> budget \<and> n + scheduled \<le> num_freeable_slots m) \<longrightarrow> k = 0)"
proof -
  have n: "get_num_encoder_embeds r i = Inr n" using assms(3,4) by (simp add: get_num_encoder_embeds_def)
  have le: "num_free_slots m \<le> num_freeable_slots m"
    using assms(1,2) by (auto simp: enc_ok_def slots_def intro: sum_nonneg)
  consider (no) "n > budget" | (free) "n \<le> budget" "n + scheduled \<le> num_free_slots m"
    | (never) "n \<le> budget" "n + scheduled > num_freeable_slots m"
    | (evict) "n \<le> budget" "n + scheduled \<le> num_freeable_slots m" "n + scheduled > num_free_slots m"
    by linarith
  then show ?thesis
  proof cases
    case evict
    obtain k where "k \<le> length (freeable m)" "evict_until (n + scheduled) m = Inr (evicted k m)" "enc_ok sz (evicted k m)"
      "n + scheduled \<le> num_free_slots (evicted k m)" "\<forall>j < k. num_free_slots (evicted j m) < n + scheduled"
      using evict_until_spec [OF assms(1,2) evict(2)] by blast
    then show ?thesis using evict n by (intro exI [of _ k]) (auto simp: encoder_can_allocate_def)
  qed (use assms(1) n le in \<open>auto simp: encoder_can_allocate_def intro!: exI [of _ 0]\<close>)
qed

lemma check_keeps:
  assumes "enc_ok sz m" "check_and_update_cache r i m = Inr (b, m')"
  shows "enc_ok sz m'"
proof -
  obtain h where h: "feature_hash r i = Inr h"
    using assms(2) by (auto simp: check_and_update_cache_def rbind_eq_Inr)
  show ?thesis
  proof (cases "map_of (cached m) h")
    case None
    then show ?thesis using assms h by (simp add: check_and_update_cache_def)
  next
    case (Some ids)
    then have key: "h \<in> fst ` set (cached m)" by (metis domI dom_map_of_conv_image_fst)
    have keys: "fst ` set (AList.update h v (cached m)) = fst ` set (cached m)" for v
      using key by auto
    let ?c = "AList.update h (insert (mm_request_id r) ids) (cached m)"
    have un: "{j. map_of ?c j = Some {}} = unreferenced m - {h}"
      by (auto simp: unreferenced_def update_conv')
    show ?thesis
    proof (cases "ids = {}")
      case True
      then have "h \<in> fst ` set (freeable m)" using Some assms(1) by (simp add: enc_ok_def unreferenced_def)
      then obtain n where n: "map_of (freeable m) h = Some n" by (metis domD dom_map_of_conv_image_fst)
      then have "n = sz h" using assms(1) by (auto simp: enc_ok_def dest!: map_of_SomeD)
      moreover have "m' = m\<lparr>freeable := AList.delete h (freeable m), num_freeable_slots := num_freeable_slots m - n, cached := ?c\<rparr>"
        using assms(2) h Some True n by (simp add: check_and_update_cache_def)
      moreover have "\<forall>(j, n) \<in> set (AList.delete h (freeable m)). n = sz j"
        using assms(1) by (auto simp: enc_ok_def AList.delete_eq)
      moreover have "unreferenced m' = unreferenced m - {h}"
        using calculation(2) un by (simp add: unreferenced_def)
      ultimately show ?thesis using assms(1) \<open>h \<in> fst ` set (freeable m)\<close> keys
        by (simp add: enc_ok_def slots_remove del: fst_set_update)
    next
      case False
      then have "m' = m\<lparr>cached := ?c\<rparr>" "h \<notin> unreferenced m"
        using assms(2) h Some by (simp_all add: check_and_update_cache_def unreferenced_def)
      moreover from this have "unreferenced m' = unreferenced m" using un by (simp add: unreferenced_def)
      ultimately show ?thesis using assms(1) keys by (simp add: enc_ok_def del: fst_set_update)
    qed
  qed
qed


lemma allocate_spec:
  assumes "enc_ok sz m" "sized sz r" "i < length (mm_features r)" "n = num_embeds (mm_features r ! i)"
    "h = mm_hash (mm_features r ! i)" "\<not> has_key h (cached m)" "n \<le> num_free_slots m" "\<And>h. 0 \<le> sz h"
  shows "\<exists>m'. encoder_allocate r i m = Inr m' \<and> enc_ok sz m' \<and> num_free_slots m' = num_free_slots m - n
    \<and> cached m' = cached m @ [(h, {mm_request_id r})] \<and> freeable m' = freeable m \<and> cache_size m' = cache_size m"
proof -
  have le: "num_free_slots m \<le> num_freeable_slots m"
    using assms(1,8) by (auto simp: enc_ok_def slots_def intro: sum_nonneg)
  have h: "h \<notin> fst ` set (cached m)" using assms(6) by (simp add: has_key_iff)
  have n: "n = sz h" using assms(2-5) by (simp add: sized_def list_all_iff)
  have "AList.map_entry h (insert (mm_request_id r)) (cached m @ [(h, {})]) = cached m @ [(h, {mm_request_id r})]"
    using h by (rule map_entry_last)
  then have run: "encoder_allocate r i m = Inr (m\<lparr>cached := cached m @ [(h, {mm_request_id r})],
      num_free_slots := num_free_slots m - n, num_freeable_slots := num_freeable_slots m - n\<rparr>)" (is "_ = Inr ?m")
    using assms(3-7) le h
    by (simp add: encoder_allocate_def feature_hash_def get_num_encoder_embeds_def set_default_def update_fresh Let_def)
  have "unreferenced ?m = unreferenced m"
    using h by (auto simp: unreferenced_def map_add_Some_iff map_of_eq_None_iff split: if_splits)
  then have "enc_ok sz ?m" using assms(1,7) h n
    by (simp add: enc_ok_def wf_od_append slots_insert)
  then show ?thesis using run by simp
qed

lemma free_input_keeps:
  assumes "enc_ok sz m" "sized sz r" "i < length (mm_features r)"
  shows "\<exists>m'. free_encoder_input r i m = Inr m' \<and> enc_ok sz m'"
proof -
  let ?h = "mm_hash (mm_features r ! i)" and ?n = "num_embeds (mm_features r ! i)"
  have n: "?n = sz ?h" using assms(2,3) by (simp add: sized_def list_all_iff)
  have hash: "feature_hash r i = Inr ?h" "get_num_encoder_embeds r i = Inr ?n"
    using assms(3) by (simp_all add: feature_hash_def get_num_encoder_embeds_def)
  show ?thesis
  proof (cases "get_default {} ?h (cached m) = {}")
    case True
    then show ?thesis using assms(1) hash by (simp add: free_encoder_input_def)
  next
    case False
    then obtain ids where ids: "map_of (cached m) ?h = Some ids" "ids \<noteq> {}"
      by (auto simp: get_default_def split: option.splits)
    let ?ids = "ids - {mm_request_id r}"
    let ?c = "AList.update ?h ?ids (cached m)"
    have "?h \<in> fst ` set (cached m)" using ids(1) by (metis domI dom_map_of_conv_image_fst)
    then have keys: "fst ` set ?c = fst ` set (cached m)" by auto
    have un: "{j. map_of ?c j = Some {}} = (if ?ids = {} then insert ?h (unreferenced m) else unreferenced m)"
      and h: "?h \<notin> unreferenced m" using ids by (auto simp: unreferenced_def update_conv' split: if_splits)
    show ?thesis
    proof (cases "?ids = {}")
      case True
      let ?m = "m\<lparr>cached := ?c, freeable := AList.update ?h ?n (freeable m), num_freeable_slots := num_freeable_slots m + ?n\<rparr>"
      have "free_encoder_input r i m = Inr ?m"
        using hash ids True by (simp add: free_encoder_input_def get_default_def Let_def)
      moreover have fresh: "AList.update ?h ?n (freeable m) = freeable m @ [(?h, ?n)]"
        using h assms(1) by (intro update_fresh) (simp add: enc_ok_def)
      moreover have "unreferenced ?m = insert ?h (unreferenced m)" by (rule trans [OF unreferenced_eq trans [OF un if_P [OF True]]]) simp
      ultimately show ?thesis using assms(1) keys h n
        by (auto simp: enc_ok_def slots_insert wf_od_append simp del: fst_set_update)
    next
      case False
      let ?m = "m\<lparr>cached := ?c\<rparr>"
      have "free_encoder_input r i m = Inr ?m"
        using hash ids False by (auto simp: free_encoder_input_def get_default_def Let_def)
      moreover have "unreferenced ?m = unreferenced m" by (rule trans [OF unreferenced_eq trans [OF un if_not_P [OF False]]]) simp
      ultimately show ?thesis using assms(1) keys by (auto simp: enc_ok_def simp del: fst_set_update)
    qed
  qed
qed


subsection \<open>The machine\<close>

text \<open>The scheduler allocates only inputs it did not find in the cache.\<close>

inductive enc_step :: "(string \<Rightarrow> int) \<Rightarrow> (nat set \<Rightarrow> nat list) \<Rightarrow> encoder_cache \<Rightarrow> encoder_cache \<Rightarrow> bool"
  for sz iter where
  enc_reset: "enc_step sz iter m (encoder_cache_reset m)"
| enc_check: "check_and_update_cache r i m = Inr (b, m') \<Longrightarrow> enc_step sz iter m m'"
| enc_can: "sized sz r \<Longrightarrow> encoder_can_allocate r i budget k m = Inr (b, m') \<Longrightarrow> enc_step sz iter m m'"
| enc_alloc: "sized sz r \<Longrightarrow> feature_hash r i = Inr h \<Longrightarrow> \<not> has_key h (cached m) \<Longrightarrow>
    encoder_allocate r i m = Inr m' \<Longrightarrow> enc_step sz iter m m'"
| enc_free_input: "sized sz r \<Longrightarrow> free_encoder_input r i m = Inr m' \<Longrightarrow> enc_step sz iter m m'"
| enc_free: "sized sz r \<Longrightarrow> encoder_free iter r m = Inr m' \<Longrightarrow> enc_step sz iter m m'"
| enc_freed: "enc_step sz iter m (snd (get_freed_mm_hashes m))"

inductive enc_reachable :: "(string \<Rightarrow> int) \<Rightarrow> (nat set \<Rightarrow> nat list) \<Rightarrow> int \<Rightarrow> encoder_cache \<Rightarrow> bool"
  for sz iter n where
  enc_start: "enc_reachable sz iter n (encoder_cache_init n)"
| enc_more: "enc_reachable sz iter n m \<Longrightarrow> enc_step sz iter m m' \<Longrightarrow> enc_reachable sz iter n m'"

text \<open>What the order of iteration over a set promises: it lists the members.\<close>

definition iterates :: "(nat set \<Rightarrow> nat list) \<Rightarrow> bool" where
  "iterates iter \<longleftrightarrow> (\<forall>S. finite S \<longrightarrow> set (iter S) = S)"

lemma free_input_index: "free_encoder_input r i m = Inr m' \<Longrightarrow> i < length (mm_features r)"
  by (auto simp: free_encoder_input_def feature_hash_def rbind_eq_Inr split: if_splits)

lemma encoder_free_keeps:
  assumes "enc_ok sz m" "sized sz r" "encoder_free iter r m = Inr m'"
  shows "enc_ok sz m'"
  using assms(3) unfolding encoder_free_def
  by (rule rfold_invariant) (use assms free_input_keeps free_input_index in \<open>fastforce+\<close>)

lemma cache_size_frame:
  "check_and_update_cache r i m = Inr (b, m') \<Longrightarrow> cache_size m' = cache_size m"
  "encoder_allocate r i m = Inr m' \<Longrightarrow> cache_size m' = cache_size m"
  "free_encoder_input r i m = Inr m' \<Longrightarrow> cache_size m' = cache_size m"
  by (auto simp: check_and_update_cache_def encoder_allocate_def free_encoder_input_def rbind_eq_Inr Let_def
      py_assert_eq_Inr split: if_splits option.splits)

lemma encoder_free_frame: "encoder_free iter r m = Inr m' \<Longrightarrow> cache_size m' = cache_size m"
  unfolding encoder_free_def
  by (erule rfold_invariant [where P = "\<lambda>u. cache_size u = cache_size m"]) (auto dest: cache_size_frame(3))

lemma enc_step_keeps:
  assumes "enc_step sz iter m m'" "enc_ok sz m" "0 \<le> cache_size m" "\<And>h. 0 \<le> sz h"
  shows "enc_ok sz m' \<and> cache_size m' = cache_size m"
  using assms
proof (induction rule: enc_step.induct)
  case (enc_reset m)
  then show ?case by (simp add: enc_ok_reset) (simp add: encoder_cache_reset_def)
next
  case (enc_check r i m b m')
  then show ?case using check_keeps cache_size_frame(1) by blast
next
  case (enc_can r i budget k m b m')
  have "i < length (mm_features r)"
    using enc_can(2) by (auto simp: encoder_can_allocate_def get_num_encoder_embeds_def rbind_eq_Inr py_assert_eq_Inr)
  from can_allocate_spec [OF enc_can(3,5) this refl, of budget k] enc_can(2)
  show ?case by (auto simp: evicted_def)
next
  case (enc_alloc r i h m m')
  have i: "i < length (mm_features r)" "h = mm_hash (mm_features r ! i)"
    using enc_alloc(2) by (auto simp: feature_hash_def split: if_splits)
  have "num_embeds (mm_features r ! i) \<le> num_free_slots m"
    using enc_alloc(4) i by (auto simp: encoder_allocate_def feature_hash_def get_num_encoder_embeds_def py_assert_eq_Inr Let_def)
  from allocate_spec [OF enc_alloc(5,1) i(1) refl i(2) enc_alloc(3) this enc_alloc(7)] enc_alloc(4)
  show ?case by auto
next
  case (enc_free_input r i m m')
  from free_input_keeps [OF enc_free_input(3,1) free_input_index [OF enc_free_input(2)]] enc_free_input(2)
  show ?case by (auto simp: cache_size_frame(3))
next
  case (enc_free r m m')
  then show ?case using encoder_free_keeps encoder_free_frame by blast
next
  case (enc_freed m)
  then show ?case by (simp add: get_freed_mm_hashes_def enc_ok_def unreferenced_def)
qed

lemma enc_reachable_ok:
  assumes "enc_reachable sz iter n m" "0 \<le> n" "\<And>h. 0 \<le> sz h"
  shows "enc_ok sz m \<and> cache_size m = n"
  using assms(1)
proof (induction rule: enc_reachable.induct)
  case enc_start
  then show ?case using assms(2) by (simp add: enc_ok_init) (simp add: encoder_cache_init_def)
next
  case (enc_more m m')
  then show ?case using enc_step_keeps assms(2,3) by auto
qed


text \<open>Freeing a request drops its reference to every one of its inputs and raises nothing.\<close>

lemma free_input_refs:
  assumes "free_encoder_input r i m = Inr m'" "h = mm_hash (mm_features r ! i)"
  shows "get_default {} h (cached m') = get_default {} h (cached m) - {mm_request_id r}"
    and "get_default {} j (cached m') \<subseteq> get_default {} j (cached m)"
  using assms
  by (auto simp: free_encoder_input_def feature_hash_def rbind_eq_Inr Let_def get_default_def update_conv'
      split: if_splits option.splits)

lemma free_inputs_refs:
  assumes "rfold (free_encoder_input r) is m = Inr m'" "i \<in> set is"
  shows "mm_request_id r \<notin> get_default {} (mm_hash (mm_features r ! i)) (cached m')"
  using assms
proof (induction "is" arbitrary: m)
  case Nil
  then show ?case by simp
next
  case (Cons j js)
  obtain m1 where m1: "free_encoder_input r j m = Inr m1" "rfold (free_encoder_input r) js m1 = Inr m'"
    using Cons.prems(1) by (auto simp: rbind_eq_Inr)
  show ?case
  proof (cases "i \<in> set js")
    case True
    then show ?thesis using Cons.IH m1(2) by blast
  next
    case False
    then have "mm_request_id r \<notin> get_default {} (mm_hash (mm_features r ! i)) (cached m1)"
      using free_input_refs(1) [OF m1(1) refl] Cons.prems(2) by simp
    with m1(2) show ?thesis
      by (rule rfold_invariant [where P = "\<lambda>u. mm_request_id r \<notin> get_default {} (mm_hash (mm_features r ! i)) (cached u)"])
        (meson free_input_refs(2) subsetD)
  qed
qed

lemma encoder_free_releases:
  assumes "enc_ok sz m" "sized sz r" "iterates iter"
  shows "\<exists>m'. encoder_free iter r m = Inr m' \<and> enc_ok sz m'
    \<and> (\<forall>f \<in> set (mm_features r). mm_request_id r \<notin> get_default {} (mm_hash f) (cached m'))"
proof -
  have order: "set (iter (get_cached_input_ids r m)) = get_cached_input_ids r m"
    using assms(3) by (simp add: iterates_def get_cached_input_ids_def)
  have "\<exists>m'. rfold (free_encoder_input r) (iter (get_cached_input_ids r m)) m = Inr m' \<and> enc_ok sz m'"
    using assms(1) by (rule rfold_total)
      (use assms(2) order free_input_keeps in \<open>auto simp: get_cached_input_ids_def\<close>)
  then obtain m' where m': "rfold (free_encoder_input r) (iter (get_cached_input_ids r m)) m = Inr m'" "enc_ok sz m'"
    by blast
  have "mm_request_id r \<notin> get_default {} (mm_hash f) (cached m')" if f: "f \<in> set (mm_features r)" for f
  proof -
    obtain i where i: "i < length (mm_features r)" "f = mm_features r ! i" using f by (auto simp: in_set_conv_nth)
    show ?thesis
    proof (cases "i \<in> get_cached_input_ids r m")
      case True
      then show ?thesis using free_inputs_refs [OF m'(1), of i] order i by simp
    next
      case False
      then have "get_default {} (mm_hash f) (cached m) = {}"
        using i by (auto simp: get_cached_input_ids_def has_key_def get_default_def split: option.splits)
      then have "mm_request_id r \<notin> get_default {} (mm_hash f) (cached m)" by simp
      with m'(1) show ?thesis
        by (rule rfold_invariant [where P = "\<lambda>u. mm_request_id r \<notin> get_default {} (mm_hash f) (cached u)"])
          (meson free_input_refs(2) subsetD)
    qed
  qed
  then show ?thesis using m' by (auto simp: encoder_free_def)
qed

subsection \<open>The capacity of the encoder cache\<close>

definition sample_sizes :: "string \<Rightarrow> int" where
  "sample_sizes h = (if h = ''x'' then 4 else 8)"

definition sample_mm :: "string \<Rightarrow> string \<Rightarrow> mm_request" where
  "sample_mm rid h = \<lparr>mm_request_id = rid, mm_features = [\<lparr>mm_hash = h, num_embeds = sample_sizes h\<rparr>]\<rparr>"

definition sample_encoder :: encoder_cache where
  "sample_encoder = (encoder_cache_init 10)\<lparr>num_free_slots := 6, cached := [(''x'', {})], freeable := [(''x'', 4)]\<rparr>"

lemma sample_encoder_reachable: "enc_reachable sample_sizes sorted_list_of_set 10 sample_encoder"
proof -
  let ?r = "sample_mm ''a'' ''x''"
  let ?m = "(encoder_cache_init 10)\<lparr>num_free_slots := 6, num_freeable_slots := 6, cached := [(''x'', {''a''})]\<rparr>"
  have sized: "sized sample_sizes ?r" by (simp add: sized_def sample_mm_def)
  have "encoder_allocate ?r 0 (encoder_cache_init 10) = Inr ?m"
    by (simp add: encoder_allocate_def feature_hash_def get_num_encoder_embeds_def sample_mm_def sample_sizes_def
        encoder_cache_init_def set_default_def has_key_def)
  then have "enc_step sample_sizes sorted_list_of_set (encoder_cache_init 10) ?m"
    by (intro enc_alloc [OF sized, of 0 "''x''"])
      (simp_all add: feature_hash_def sample_mm_def encoder_cache_init_def has_key_def)
  then have 1: "enc_reachable sample_sizes sorted_list_of_set 10 ?m" by (blast intro: enc_reachable.intros)
  have "free_encoder_input ?r 0 ?m = Inr sample_encoder"
    by (simp add: free_encoder_input_def feature_hash_def get_num_encoder_embeds_def sample_mm_def sample_sizes_def
        encoder_cache_init_def get_default_def sample_encoder_def)
  then show ?thesis using 1 enc_free_input [OF sized] by (blast intro: enc_reachable.intros)
qed

text \<open>
  \<^bold>\<open>C28\<close>. In every reachable encoder cache the free slots and the sizes of the cached
  outputs add up to the size of the cache, the freeable slots are those no request refers to, and
  the eviction list holds exactly the outputs without references, each once.
\<close>

theorem encoder_slots_exact:
  assumes "enc_reachable sz iter n m" "0 \<le> n" "\<forall>h. 0 \<le> sz h"
  shows "0 \<le> num_free_slots m \<and> num_free_slots m + (\<Sum>h \<in> fst ` set (cached m). sz h) = n
    \<and> num_freeable_slots m + (\<Sum>h | \<exists>ids. map_of (cached m) h = Some ids \<and> ids \<noteq> {}. sz h) = n
    \<and> distinct (map fst (freeable m)) \<and> set (map fst (freeable m)) = {h. map_of (cached m) h = Some {}}
    \<and> (\<forall>(h, e) \<in> set (freeable m). e = sz h)"
proof -
  have ok: "enc_ok sz m" "cache_size m = n" using enc_reachable_ok [OF assms(1,2)] assms(3) by auto
  let ?R = "{h. \<exists>ids. map_of (cached m) h = Some ids \<and> ids \<noteq> {}}"
  have split: "fst ` set (cached m) = ?R \<union> unreferenced m" "?R \<inter> unreferenced m = {}"
    unfolding dom_map_of_conv_image_fst [symmetric] by (auto simp: unreferenced_def)
  have "finite (?R \<union> unreferenced m)" unfolding split(1) [symmetric] by simp
  then have "slots sz (fst ` set (cached m)) = sum sz ?R + slots sz (unreferenced m)"
    using split by (simp add: slots_def sum.union_disjoint)
  moreover have "fst ` set (freeable m) = unreferenced m" "wf_od (freeable m)" "\<forall>(h, n) \<in> set (freeable m). n = sz h"
    "num_free_slots m = n - slots sz (fst ` set (cached m))" "0 \<le> num_free_slots m"
    "num_freeable_slots m = num_free_slots m + slots sz (unreferenced m)"
    using ok by (simp_all add: enc_ok_def)
  ultimately show ?thesis by (simp add: slots_def wf_od_def unreferenced_def)
qed

theorem encoder_slots_exact_witness:
  "enc_reachable sample_sizes sorted_list_of_set 10 sample_encoder
   \<and> num_free_slots sample_encoder + (\<Sum>h \<in> fst ` set (cached sample_encoder). sample_sizes h) = 10"
  using encoder_slots_exact [OF sample_encoder_reachable] sample_encoder_reachable
  by (simp add: sample_sizes_def)

text \<open>
  \<^bold>\<open>C29\<close>. \<open>can_allocate\<close> grants an input exactly when it fits the compute budget and,
  with what is already scheduled, the freeable slots. It then evicts the shortest prefix of the
  unreferenced outputs, oldest first, that makes room, and nothing when it refuses; a granted input
  that is not cached can be allocated, and the slots of what is already scheduled stay free.
\<close>

theorem encoder_allocation_exact:
  assumes "enc_reachable sz iter capacity m" "0 \<le> capacity" "\<forall>h. 0 \<le> sz h" "sized sz r" "i < length (mm_features r)"
    and "n = num_embeds (mm_features r ! i)" "0 \<le> scheduled"
    and "b = (n \<le> budget \<and> n + scheduled \<le> num_freeable_slots m)"
  shows "\<exists>k. encoder_can_allocate r i budget scheduled m = Inr (b, evicted k m)
    \<and> (\<not> b \<longrightarrow> k = 0) \<and> (\<forall>j < k. num_free_slots (evicted j m) < n + scheduled)
    \<and> (b \<and> \<not> has_key (mm_hash (mm_features r ! i)) (cached m) \<longrightarrow>
        (\<exists>m'. encoder_allocate r i (evicted k m) = Inr m' \<and> scheduled \<le> num_free_slots m'))"
proof -
  have ok: "enc_ok sz m" using enc_reachable_ok [OF assms(1,2)] assms(3) by auto
  obtain k where k: "b = (n \<le> budget \<and> n + scheduled \<le> num_freeable_slots m)"
    "encoder_can_allocate r i budget scheduled m = Inr (b, evicted k m)" "enc_ok sz (evicted k m)"
    "\<forall>j < k. num_free_slots (evicted j m) < n + scheduled"
    "b \<longrightarrow> n + scheduled \<le> num_free_slots (evicted k m)" "\<not> b \<longrightarrow> k = 0"
    using can_allocate_spec [OF ok _ assms(5,6), of budget scheduled] assms(3) unfolding assms(8) by blast
  have "\<exists>m'. encoder_allocate r i (evicted k m) = Inr m' \<and> scheduled \<le> num_free_slots m'"
    if "b" "\<not> has_key (mm_hash (mm_features r ! i)) (cached m)"
  proof -
    have "\<not> has_key (mm_hash (mm_features r ! i)) (cached (evicted k m))"
      using that(2) by (auto simp: has_key_iff evicted_def)
    then show ?thesis
      using allocate_spec [OF k(3) assms(4,5,6) refl] k(5) that(1) assms(3,7) by fastforce
  qed
  then show ?thesis using k by blast
qed

theorem encoder_allocation_exact_witness:
  "\<exists>k. encoder_can_allocate (sample_mm ''b'' ''y'') 0 20 0 sample_encoder = Inr (True, evicted k sample_encoder)
     \<and> (\<exists>m'. encoder_allocate (sample_mm ''b'' ''y'') 0 (evicted k sample_encoder) = Inr m')"
proof -
  have "sized sample_sizes (sample_mm ''b'' ''y'')" "0 < length (mm_features (sample_mm ''b'' ''y''))"
    "8 = num_embeds (mm_features (sample_mm ''b'' ''y'') ! 0)" "\<forall>h. 0 \<le> sample_sizes h"
    by (simp_all add: sized_def sample_mm_def sample_sizes_def)
  moreover have "num_freeable_slots sample_encoder = 10"
    "\<not> has_key (mm_hash (mm_features (sample_mm ''b'' ''y'') ! 0)) (cached sample_encoder)"
    by (simp_all add: sample_encoder_def encoder_cache_init_def sample_mm_def has_key_def)
  ultimately show ?thesis
    using encoder_allocation_exact [OF sample_encoder_reachable, of "sample_mm ''b'' ''y''" 0 8 0 True 20] by auto
qed

end
