(* ===== verification/Heap_Queue.thy ===== *)
theory Heap_Queue
  imports Prelude "HOL-Library.Multiset"
begin

section \<open>Array heaps\<close>

text \<open>
  The operations of Python's \<open>heapq\<close> that the priority queue of requests uses, on a list and with a
  key function: the element of smallest key sits at index 0, and the parent of index \<open>i\<close> is
  \<open>(i - 1) div 2\<close>. As in \<open>heapq\<close>, the sift operations move a hole and write the item once.
\<close>

subsection \<open>Operations\<close>

definition par :: "nat \<Rightarrow> nat" where
  "par i = (i - 1) div 2"

lemma par_less [simp]: "0 < i \<Longrightarrow> par i < i"
  by (simp add: par_def)

lemma par_le [simp]: "par i \<le> i"
  by (simp add: par_def)

lemma par_less_trans [simp]: "i < n \<Longrightarrow> par i < n"
  using par_le [of i] by linarith

lemma par_neq: "s < i \<Longrightarrow> par i \<noteq> i"
  using par_less [of i] by linarith

lemma par_eq: "0 < i \<Longrightarrow> par i = p \<longleftrightarrow> i = 2 * p + 1 \<or> i = 2 * p + 2"
  by (auto simp: par_def)

function siftdown :: "('a \<Rightarrow> 'k::linorder) \<Rightarrow> nat \<Rightarrow> 'a \<Rightarrow> nat \<Rightarrow> 'a list \<Rightarrow> 'a list" where
  "siftdown key s x pos xs =
     (if s < pos \<and> key x < key (xs ! par pos)
      then siftdown key s x (par pos) (xs[pos := xs ! par pos])
      else xs[pos := x])"
  by pat_completeness auto
termination by (relation "measure (\<lambda>(key, s, x, pos, xs). pos)") auto

text \<open>The child that moves up: the right one unless the left one is smaller.\<close>

definition smaller_child :: "('a \<Rightarrow> 'k::linorder) \<Rightarrow> nat \<Rightarrow> 'a list \<Rightarrow> nat" where
  "smaller_child key pos xs =
     (let child = 2 * pos + 1
      in if child + 1 < length xs \<and> \<not> key (xs ! child) < key (xs ! (child + 1)) then child + 1 else child)"

function sink_hole :: "('a \<Rightarrow> 'k::linorder) \<Rightarrow> nat \<Rightarrow> 'a list \<Rightarrow> nat \<times> 'a list" where
  "sink_hole key pos xs =
     (if 2 * pos + 1 < length xs
      then sink_hole key (smaller_child key pos xs) (xs[pos := xs ! smaller_child key pos xs])
      else (pos, xs))"
  by pat_completeness auto
termination
  by (relation "measure (\<lambda>(key, pos, xs). length xs - pos)") (auto simp: smaller_child_def Let_def)

declare siftdown.simps [simp del] sink_hole.simps [simp del]

definition siftup :: "('a \<Rightarrow> 'k::linorder) \<Rightarrow> nat \<Rightarrow> 'a list \<Rightarrow> 'a list" where
  "siftup key pos xs =
     (let x = xs ! pos; (p, ys) = sink_hole key pos xs in siftdown key pos x p (ys[p := x]))"

definition heappush :: "('a \<Rightarrow> 'k::linorder) \<Rightarrow> 'a \<Rightarrow> 'a list \<Rightarrow> 'a list" where
  "heappush key x xs = siftdown key 0 x (length xs) (xs @ [x])"

definition heappop :: "('a \<Rightarrow> 'k::linorder) \<Rightarrow> 'a list \<Rightarrow> ('a \<times> 'a list) res" where
  "heappop key xs =
     (if xs = [] then Inl IndexError
      else
        (let lastelt = last xs; h = butlast xs
         in if h \<noteq> [] then Inr (h ! 0, siftup key 0 (h[0 := lastelt])) else Inr (lastelt, h)))"

definition heapify :: "('a \<Rightarrow> 'k::linorder) \<Rightarrow> 'a list \<Rightarrow> 'a list" where
  "heapify key xs = fold (siftup key) (rev [0..<length xs div 2]) xs"

subsection \<open>The heap property from an index on\<close>

definition heap_from :: "('a \<Rightarrow> 'k::linorder) \<Rightarrow> nat \<Rightarrow> 'a list \<Rightarrow> bool" where
  "heap_from key s xs \<longleftrightarrow> (\<forall>i < length xs. 0 < i \<and> s \<le> par i \<longrightarrow> key (xs ! par i) \<le> key (xs ! i))"

abbreviation is_heap :: "('a \<Rightarrow> 'k::linorder) \<Rightarrow> 'a list \<Rightarrow> bool" where
  "is_heap key \<equiv> heap_from key 0"

text \<open>The indices below \<open>s\<close> in the tree.\<close>

fun descends :: "nat \<Rightarrow> nat \<Rightarrow> bool" where
  "descends s p = (if p \<le> s then p = s else descends s (par p))"

declare descends.simps [simp del]

lemma descends_le: "descends s p \<Longrightarrow> s \<le> p"
  by (induction s p rule: descends.induct) (auto simp: descends.simps split: if_splits)

lemma descends_par: "descends s p \<Longrightarrow> s < p \<Longrightarrow> descends s (par p) \<and> s \<le> par p"
  using descends_le [of s "par p"] by (auto simp: descends.simps [of s p])

lemma descends_refl [simp]: "descends s s"
  by (simp add: descends.simps)

lemma descends_child: "descends s p \<Longrightarrow> par c = p \<Longrightarrow> p < c \<Longrightarrow> descends s c"
  using descends_le [of s p] by (subst descends.simps) auto

lemma descends_0: "descends 0 p"
  by (induction p rule: less_induct) (subst descends.simps, auto)

subsection \<open>Moving an item towards the root\<close>

lemma length_siftdown [simp]: "length (siftdown key s x pos xs) = length xs"
  by (induction key s x pos xs rule: siftdown.induct) (subst siftdown.simps, simp)

lemma mset_hole:
  assumes "i < length xs" "j < length xs" "i \<noteq> j"
  shows "mset (xs[i := xs ! j, j := x]) = mset (xs[i := x])"
proof -
  have "mset ((xs[i := x])[i := xs[i := x] ! j, j := xs[i := x] ! i]) = mset (xs[i := x])"
    using assms by (intro mset_swap) simp_all
  then show ?thesis using assms by simp
qed

lemma mset_siftdown: "pos < length xs \<Longrightarrow> mset (siftdown key s x pos xs) = mset (xs[pos := x])"
proof (induction key s x pos xs rule: siftdown.induct)
  case (1 key s x pos xs)
  show ?case
  proof (cases "s < pos \<and> key x < key (xs ! par pos)")
    case True
    have "par pos < length xs" "pos \<noteq> par pos" using True "1.prems" par_neq [of s pos] by auto
    then show ?thesis
      using "1.IH" [OF True] True "1.prems" mset_hole [of pos xs "par pos" x]
      by (simp add: siftdown.simps [of key s x pos xs])
  next
    case False
    show ?thesis unfolding siftdown.simps [of key s x pos xs] if_not_P [OF False] ..
  qed
qed

text \<open>The heap property with the item in place, exempting the edge above it; and its children
  respect its parent.\<close>

definition rising :: "('a \<Rightarrow> 'k::linorder) \<Rightarrow> nat \<Rightarrow> nat \<Rightarrow> 'a list \<Rightarrow> bool" where
  "rising key s pos ys \<longleftrightarrow> pos < length ys \<and> descends s pos
     \<and> (\<forall>i < length ys. 0 < i \<and> s \<le> par i \<and> i \<noteq> pos \<longrightarrow> key (ys ! par i) \<le> key (ys ! i))
     \<and> (\<forall>i < length ys. 0 < i \<and> par i = pos \<and> s < pos \<longrightarrow> key (ys ! par pos) \<le> key (ys ! i))"

lemma rising_step:
  assumes "rising key s pos (xs[pos := x])" "s < pos" "key x < key (xs ! par pos)" "pos < length xs"
  shows "rising key s (par pos) (xs[pos := xs ! par pos, par pos := x])"
proof -
  let ?p = "par pos"
  let ?ys = "xs[pos := x]" and ?zs = "xs[pos := xs ! ?p, ?p := x]"
  have p: "?p < pos" "descends s ?p" "s \<le> ?p"
    using assms(1,2) descends_par by (auto simp: rising_def)
  have edge: "key (?ys ! par i) \<le> key (?ys ! i)" if "i < length xs" "0 < i" "s \<le> par i" "i \<noteq> pos" for i
    using assms(1) that by (simp add: rising_def)
  have child: "key (?ys ! ?p) \<le> key (?ys ! i)" if "i < length xs" "0 < i" "par i = pos" for i
    using assms(1,2) that by (simp add: rising_def)
  have ys: "?ys ! ?p = xs ! ?p" using p by simp
  have zs: "?zs ! i = (if i = ?p then x else if i = pos then xs ! ?p else ?ys ! i)" if "i < length xs" for i
    using that p assms(4) by (auto simp: nth_list_update)
  have "key (?zs ! par i) \<le> key (?zs ! i)" if i: "i < length xs" "0 < i" "s \<le> par i" "i \<noteq> ?p" for i
  proof -
    have pi: "par i < length xs" using i by simp
    consider "i = pos" | "i \<noteq> pos" "par i = ?p" | "i \<noteq> pos" "par i = pos" | "i \<noteq> pos" "par i \<noteq> ?p" "par i \<noteq> pos" by blast
    then show ?thesis
    proof cases
      case 1
      then show ?thesis using zs [OF i(1)] zs [OF pi] i(4) assms(3) by simp
    next
      case 2
      then show ?thesis using zs [OF i(1)] zs [OF pi] edge [OF i(1-3)] i(4) assms(3) ys by simp
    next
      case 3
      then show ?thesis using zs [OF i(1)] zs [OF pi] child [OF i(1,2)] i(4) p ys by simp
    next
      case 4
      then show ?thesis using zs [OF i(1)] zs [OF pi] edge [OF i(1-3)] i(4) by simp
    qed
  qed
  moreover have "key (?zs ! par ?p) \<le> key (?zs ! i)" if i: "i < length xs" "0 < i" "par i = ?p" "s < ?p" for i
  proof -
    have q: "par ?p < ?p" "s \<le> par ?p" using descends_par [OF p(2) i(4)] i(4) by auto
    then have top: "?zs ! par ?p = ?ys ! par ?p" using zs [of "par ?p"] p assms(4) by simp
    have above: "key (?ys ! par ?p) \<le> key (?ys ! ?p)"
      by (rule edge) (use q p assms(4) i(4) in \<open>simp_all\<close>)
    show ?thesis
    proof (cases "i = pos")
      case True
      then show ?thesis using top above zs [OF i(1)] ys p by simp
    next
      case False
      have "i \<noteq> ?p" using i(3) q(1) by force
      moreover have "key (?ys ! ?p) \<le> key (?ys ! i)" using edge [OF i(1,2)] i p(3) False by simp
      ultimately show ?thesis using top above zs [OF i(1)] False by simp
    qed
  qed
  ultimately show ?thesis using p assms(4) by (simp add: rising_def)
qed

lemma siftdown_heap:
  assumes "rising key s pos (xs[pos := x])" "pos < length xs"
  shows "heap_from key s (siftdown key s x pos xs)"
  using assms
proof (induction key s x pos xs rule: siftdown.induct)
  case (1 key s x pos xs)
  show ?case
  proof (cases "s < pos \<and> key x < key (xs ! par pos)")
    case True
    then show ?thesis
      using "1.IH" [OF True] rising_step [OF "1.prems"(1)] "1.prems"(2)
      by (simp add: siftdown.simps [of key s x pos xs])
  next
    case False
    have "key (xs[pos := x] ! par i) \<le> key (xs[pos := x] ! i)" if i: "i < length xs" "0 < i" "s \<le> par i" for i
    proof (cases "i = pos")
      case True
      then have "s < pos" using i(2,3) par_less [of i] by linarith
      then show ?thesis using False True i "1.prems"(2) by (auto simp: nth_list_update not_less)
    next
      case False
      then show ?thesis using "1.prems"(1) i by (simp add: rising_def)
    qed
    then show ?thesis unfolding siftdown.simps [of key s x pos xs] if_not_P [OF False] by (simp add: heap_from_def)
  qed
qed


subsection \<open>Moving a hole towards the leaves\<close>

lemma smaller_child_bounds:
  assumes "2 * pos + 1 < length xs"
  shows "smaller_child key pos xs < length xs" "par (smaller_child key pos xs) = pos" "pos < smaller_child key pos xs"
  using assms by (auto simp: smaller_child_def Let_def par_def)

lemma smaller_child_least:
  assumes "i < length xs" "0 < i" "par i = pos"
  shows "key (xs ! smaller_child key pos xs) \<le> key (xs ! i)"
proof -
  have "i = 2 * pos + 1 \<or> i = 2 * pos + 2" using assms(2,3) par_eq by blast
  then show ?thesis using assms(1) by (auto simp: smaller_child_def Let_def)
qed

lemma length_sink_hole [simp]: "length (snd (sink_hole key pos xs)) = length xs"
  by (induction key pos xs rule: sink_hole.induct) (subst sink_hole.simps, simp)

lemma mset_sink_hole:
  "pos < length xs \<Longrightarrow> sink_hole key pos xs = (p, ys) \<Longrightarrow> p < length xs \<and> mset (ys[p := x]) = mset (xs[pos := x])"
proof (induction key pos xs arbitrary: p ys rule: sink_hole.induct)
  case (1 key pos xs)
  show ?case
  proof (cases "2 * pos + 1 < length xs")
    case True
    let ?c = "smaller_child key pos xs"
    note c = smaller_child_bounds [OF True, of key]
    have "sink_hole key ?c (xs[pos := xs ! ?c]) = (p, ys)"
      using "1.prems"(2) True by (simp add: sink_hole.simps [of key pos xs])
    from "1.IH" [OF True _ this] show ?thesis using c "1.prems"(1) mset_hole [of pos xs ?c x] by simp
  next
    case False
    then show ?thesis using "1.prems" by (simp add: sink_hole.simps [of key pos xs])
  qed
qed

text \<open>The heap property without the edges at the hole; and the children of the hole respect its
  parent.\<close>

definition sinking :: "('a \<Rightarrow> 'k::linorder) \<Rightarrow> nat \<Rightarrow> nat \<Rightarrow> 'a list \<Rightarrow> bool" where
  "sinking key s pos zs \<longleftrightarrow> pos < length zs \<and> descends s pos
     \<and> (\<forall>i < length zs. 0 < i \<and> s \<le> par i \<and> i \<noteq> pos \<and> par i \<noteq> pos \<longrightarrow> key (zs ! par i) \<le> key (zs ! i))
     \<and> (\<forall>i < length zs. 0 < i \<and> par i = pos \<and> s < pos \<longrightarrow> key (zs ! par pos) \<le> key (zs ! i))"

lemma sinking_step:
  assumes "sinking key s pos zs" "2 * pos + 1 < length zs" "c = smaller_child key pos zs"
  shows "sinking key s c (zs[pos := zs ! c])"
proof -
  let ?ws = "zs[pos := zs ! c]"
  have c: "c < length zs" "par c = pos" "pos < c" using smaller_child_bounds [OF assms(2), of key] assms(3) by auto
  have pos: "descends s pos" "s \<le> pos" "pos < length zs" using assms(1) descends_le by (auto simp: sinking_def)
  have edge: "key (zs ! par i) \<le> key (zs ! i)" if "i < length zs" "0 < i" "s \<le> par i" "i \<noteq> pos" "par i \<noteq> pos" for i
    using assms(1) that by (simp add: sinking_def)
  have "key (?ws ! par i) \<le> key (?ws ! i)" if i: "i < length zs" "0 < i" "s \<le> par i" "i \<noteq> c" "par i \<noteq> c" for i
  proof -
    have ne: "par i \<noteq> i" using i(2) by (rule par_neq)
    consider "i = pos" | "i \<noteq> pos" "par i = pos" | "i \<noteq> pos" "par i \<noteq> pos" by blast
    then show ?thesis
    proof cases
      case 1
      then have "s < pos" using i descends_le [OF pos(1)] ne par_less [OF i(2)] by linarith
      then have "key (zs ! par pos) \<le> key (zs ! c)" using assms(1) c by (simp add: sinking_def)
      then show ?thesis using 1 ne pos by simp
    next
      case 2
      then show ?thesis using smaller_child_least [OF i(1,2), of pos key] i assms(3) pos by simp
    next
      case 3
      then show ?thesis using edge [OF i(1-3)] by simp
    qed
  qed
  moreover have "key (?ws ! par c) \<le> key (?ws ! i)" if i: "i < length zs" "0 < i" "par i = c" "s < c" for i
  proof -
    have "i \<noteq> pos" "c \<noteq> pos" using i c par_le [of i] by auto
    then show ?thesis using edge [OF i(1,2)] i c pos by simp
  qed
  ultimately show ?thesis using c pos descends_child [OF pos(1) c(2,3)] by (simp add: sinking_def)
qed

lemma sink_hole_sinking:
  assumes "sinking key s pos zs" "sink_hole key pos zs = (p, ys)"
  shows "sinking key s p ys \<and> length ys \<le> 2 * p + 1"
  using assms
proof (induction key pos zs arbitrary: p ys rule: sink_hole.induct)
  case (1 key pos xs)
  show ?case
  proof (cases "2 * pos + 1 < length xs")
    case True
    then show ?thesis
      using "1.IH" [OF True sinking_step [OF "1.prems"(1) True refl]] "1.prems"(2)
      by (simp add: sink_hole.simps [of key pos xs])
  next
    case False
    then show ?thesis using "1.prems" by (simp add: sink_hole.simps [of key pos xs])
  qed
qed

lemma leaf_rising:
  assumes "sinking key s p ys" "length ys \<le> 2 * p + 1"
  shows "rising key s p (ys[p := x])"
proof -
  have leaf: "par i \<noteq> p" if "i < length ys" "0 < i" for i using that assms(2) par_eq [of i p] by auto
  have "ys[p := x] ! par i = ys ! par i" if "i < length ys" "0 < i" for i
    using leaf [OF that] by (metis nth_list_update_neq)
  then show ?thesis using assms(1) leaf by (auto simp: sinking_def rising_def)
qed

lemma siftup_heap:
  assumes "heap_from key (Suc s) xs" "s < length xs"
  shows "heap_from key s (siftup key s xs)" "mset (siftup key s xs) = mset xs" "length (siftup key s xs) = length xs"
proof -
  obtain p ys where ys: "sink_hole key s xs = (p, ys)" by force
  have "sinking key s s xs"
    using assms by (auto simp: sinking_def heap_from_def)
  note sunk = sink_hole_sinking [OF this ys]
  have p: "rising key s p (ys[p := xs ! s])" "p < length ys"
    using leaf_rising [OF conjunct1 [OF sunk] conjunct2 [OF sunk]] sunk by (simp_all add: sinking_def)
  have "mset (ys[p := xs ! s]) = mset xs" "length ys = length xs"
    using mset_sink_hole [OF assms(2) ys, of "xs ! s"] length_sink_hole [of key s xs] ys by simp_all
  then show "heap_from key s (siftup key s xs)" "mset (siftup key s xs) = mset xs" "length (siftup key s xs) = length xs"
    using siftdown_heap [of key s p "ys[p := xs ! s]" "xs ! s"] p by (simp_all add: siftup_def ys Let_def mset_siftdown)
qed


subsection \<open>Push, pop and heapify\<close>

lemma heap_from_mono: "heap_from key s xs \<Longrightarrow> s \<le> t \<Longrightarrow> heap_from key t xs"
  by (auto simp: heap_from_def)

lemma heap_min:
  assumes "is_heap key xs" "i < length xs"
  shows "key (xs ! 0) \<le> key (xs ! i)"
  using assms(2)
proof (induction i rule: less_induct)
  case (less i)
  show ?case
  proof (cases "i = 0")
    case False
    then have "key (xs ! 0) \<le> key (xs ! par i)" using less by simp
    also have "\<dots> \<le> key (xs ! i)" using assms(1) less.prems False by (simp add: heap_from_def)
    finally show ?thesis .
  qed simp
qed

lemma heappush_heap:
  assumes "is_heap key xs"
  shows "is_heap key (heappush key x xs)" "mset (heappush key x xs) = add_mset x (mset xs)"
proof -
  have below: "par i \<noteq> length xs" "par i < length xs" if "i < Suc (length xs)" "0 < i" for i
    using that par_less [OF that(2)] by linarith+
  have "key ((xs @ [x]) ! par i) \<le> key ((xs @ [x]) ! i)" if "i < Suc (length xs)" "0 < i" "i \<noteq> length xs" for i
    using that assms below [OF that(1,2)] by (simp add: heap_from_def nth_append)
  then have "rising key 0 (length xs) ((xs @ [x])[length xs := x])"
    using below by (auto simp: rising_def descends_0)
  from siftdown_heap [OF this] show "is_heap key (heappush key x xs)" by (simp add: heappush_def)
  show "mset (heappush key x xs) = add_mset x (mset xs)" by (simp add: heappush_def mset_siftdown)
qed

lemma heap_butlast: "is_heap key xs \<Longrightarrow> is_heap key (butlast xs)"
  by (auto simp: heap_from_def nth_butlast)

lemma heappop_spec:
  assumes "is_heap key xs" "xs \<noteq> []"
  shows "\<exists>ys. heappop key xs = Inr (xs ! 0, ys) \<and> is_heap key ys \<and> mset xs = add_mset (xs ! 0) (mset ys)
    \<and> (\<forall>y \<in> set xs. key (xs ! 0) \<le> key y)"
proof -
  let ?h = "butlast xs"
  have least: "\<forall>y \<in> set xs. key (xs ! 0) \<le> key y" using heap_min [OF assms(1)] by (auto simp: in_set_conv_nth)
  show ?thesis
  proof (cases "?h = []")
    case True
    then obtain x where "xs = [x]" using assms(2) by (cases xs) (auto split: if_splits)
    then have "heappop key xs = Inr (xs ! 0, [])" "mset xs = {#xs ! 0#}" by (simp_all add: heappop_def)
    then show ?thesis using least by (auto simp: heap_from_def)
  next
    case False
    have h0: "?h ! 0 = xs ! 0" by (metis False length_greater_0_conv nth_butlast)
    have xs: "mset xs = mset ?h + {#last xs#}" using arg_cong [OF append_butlast_last_id [OF assms(2)], of mset] by simp
    have "mset (?h[0 := last xs]) = add_mset (last xs) (mset ?h - {#xs ! 0#})"
      using mset_update [of 0 ?h "last xs"] False h0 by (simp only: length_greater_0_conv simp_thms)
    moreover have "xs ! 0 \<in># mset ?h" using False h0 by (metis length_greater_0_conv nth_mem set_mset_mset)
    ultimately have ms: "mset xs = add_mset (xs ! 0) (mset (?h[0 := last xs]))" using xs by simp
    have hp: "heap_from key (Suc 0) (?h[0 := last xs])"
      using heap_butlast [OF assms(1)] False
      by (auto simp: heap_from_def nth_list_update)
    have "0 < length (?h[0 := last xs])" using False by (simp only: length_list_update length_greater_0_conv simp_thms)
    note up = siftup_heap [OF hp this]
    have "heappop key xs = Inr (xs ! 0, siftup key 0 (?h[0 := last xs]))"
      using assms(2) False h0 by (simp add: heappop_def Let_def)
    then show ?thesis using up False ms least by auto
  qed
qed

lemma heapify_heap: "is_heap key (heapify key xs) \<and> mset (heapify key xs) = mset xs"
proof -
  have "heap_from key 0 (fold (siftup key) (rev [0..<n]) ys) \<and> mset (fold (siftup key) (rev [0..<n]) ys) = mset ys"
    if "heap_from key n ys" "n \<le> length ys" for n ys
    using that
  proof (induction n arbitrary: ys)
    case (Suc n)
    have up: "heap_from key n (siftup key n ys)" "mset (siftup key n ys) = mset ys" "length (siftup key n ys) = length ys"
      using siftup_heap [of key n ys] Suc.prems by simp_all
    then show ?case using Suc.IH [OF up(1)] Suc.prems(2) by simp
  qed simp
  moreover have "heap_from key (length xs div 2) xs" by (auto simp: heap_from_def par_def)
  ultimately show ?thesis by (simp add: heapify_def)
qed


subsection \<open>Iteration\<close>

lemma length_siftup [simp]: "length (siftup key pos xs) = length xs"
  using length_sink_hole [of key pos xs] by (simp add: siftup_def Let_def split_beta)

lemma heappop_shorter: "heappop key xs = Inr (x, ys) \<Longrightarrow> length ys < length xs"
  by (auto simp: heappop_def Let_def split: if_splits)

text \<open>Popping a copy of the heap until it is empty.\<close>

function drain :: "('a \<Rightarrow> 'k::linorder) \<Rightarrow> 'a list \<Rightarrow> 'a list" where
  "drain key h = (case heappop key h of Inl e \<Rightarrow> [] | Inr (x, h') \<Rightarrow> x # drain key h')"
  by pat_completeness auto
termination by (relation "measure (\<lambda>(key, h). length h)") (auto dest: heappop_shorter)

declare drain.simps [simp del]

lemma drain_Nil [simp]: "drain key [] = []"
  by (simp add: drain.simps heappop_def)

lemma drain_spec:
  "is_heap key h \<Longrightarrow> sorted (map key (drain key h)) \<and> mset (drain key h) = mset h"
proof (induction h rule: length_induct)
  case (1 h)
  show ?case
  proof (cases "h = []")
    case False
    obtain h' where h': "heappop key h = Inr (h ! 0, h')" "is_heap key h'" "mset h = add_mset (h ! 0) (mset h')"
      "\<forall>y \<in> set h. key (h ! 0) \<le> key y"
      using heappop_spec [OF "1.prems" False] by blast
    have ih: "sorted (map key (drain key h'))" "mset (drain key h') = mset h'"
      using "1.IH" heappop_shorter [OF h'(1)] h'(2) by blast+
    have "set (drain key h') \<subseteq> set h" using ih(2) h'(3) by (metis mset_subset_eq_add_right add_mset_add_single set_mset_mono set_mset_mset union_commute)
    then have "\<forall>y \<in> set (drain key h'). key (h ! 0) \<le> key y" using h'(4) by blast
    moreover have "drain key h = h ! 0 # drain key h'" by (simp add: drain.simps [of key h] h'(1))
    ultimately show ?thesis using ih h'(3) by simp
  qed simp
qed

lemma drain_sort:
  "is_heap key h \<Longrightarrow> inj_on key (set h) \<Longrightarrow> drain key h = sort_key key h"
  using drain_spec [of key h] sort_key_inj_key_eq [of h "drain key h" key] by simp

end
