(* ===== verification/Request_Queue.thy ===== *)
theory Request_Queue
  imports Scheduling Heap_Queue
begin

section \<open>Request queues\<close>

text \<open>
  The waiting queues of the scheduler in \<^verbatim>\<open>vllm/v1/core/sched/request_queue.py\<close>: the
  first-come-first-served queue, a \<open>deque\<close>, and the priority queue, a binary heap. A request object
  is its identity and its attributes; the queues compare objects by identity and order them by
  \<open>Request.__lt__\<close>.
\<close>

subsection \<open>Request objects\<close>

type_synonym request_obj = "nat \<times> sched_request"

definition request_key :: "request_obj \<Rightarrow> int \<times> pyfloat \<times> string \<times> nat" where
  "request_key x = (priority (snd x), arrival_time (snd x), request_id (snd x), fst x)"

definition request_lt :: "request_obj \<Rightarrow> request_obj \<Rightarrow> bool" where
  "request_lt a b =
     (if priority (snd a) \<noteq> priority (snd b) then priority (snd a) < priority (snd b)
      else if arrival_time (snd a) \<noteq> arrival_time (snd b) then arrival_time (snd a) < arrival_time (snd b)
      else if request_id (snd a) \<noteq> request_id (snd b) then request_id (snd a) < request_id (snd b)
      else fst a < fst b)"

lemma request_lt_key: "request_lt a b \<longleftrightarrow> request_key a < request_key b"
  by (auto simp: request_lt_def request_key_def less_prod_def)

text \<open>\<open>remove\<close> of a list or deque: the first object with the given identity.\<close>

fun remove_obj :: "request_obj \<Rightarrow> request_obj list \<Rightarrow> request_obj list res" where
  "remove_obj x [] = Inl (ValueError ''list.remove(x): x not in list'')"
| "remove_obj x (y # ys) = (if fst y = fst x then Inr ys else rbind (remove_obj x ys) (\<lambda>zs. Inr (y # zs)))"

subsection \<open>The queues\<close>

datatype request_queue = FCFSRequestQueue "request_obj list" | PriorityRequestQueue "request_obj list"

definition create_request_queue :: "scheduling_policy \<Rightarrow> request_queue" where
  "create_request_queue p = (case p of PRIORITY \<Rightarrow> PriorityRequestQueue [] | FCFS \<Rightarrow> FCFSRequestQueue [])"

fun add_request :: "request_obj \<Rightarrow> request_queue \<Rightarrow> request_queue" where
  "add_request x (FCFSRequestQueue xs) = FCFSRequestQueue (xs @ [x])"
| "add_request x (PriorityRequestQueue h) = PriorityRequestQueue (heappush request_key x h)"

fun pop_request :: "request_queue \<Rightarrow> (request_obj \<times> request_queue) res" where
  "pop_request (FCFSRequestQueue []) = Inl IndexError"
| "pop_request (FCFSRequestQueue (x # xs)) = Inr (x, FCFSRequestQueue xs)"
| "pop_request (PriorityRequestQueue h) =
     (if h = [] then Inl IndexError
      else rbind (heappop request_key h) (\<lambda>(x, h'). Inr (x, PriorityRequestQueue h')))"

fun peek_request :: "request_queue \<Rightarrow> request_obj res" where
  "peek_request (FCFSRequestQueue xs) = (case xs of [] \<Rightarrow> Inl IndexError | x # ys \<Rightarrow> Inr x)"
| "peek_request (PriorityRequestQueue h) = (case h of [] \<Rightarrow> Inl IndexError | x # ys \<Rightarrow> Inr x)"

fun prepend_request :: "request_obj \<Rightarrow> request_queue \<Rightarrow> request_queue" where
  "prepend_request x (FCFSRequestQueue xs) = FCFSRequestQueue (x # xs)"
| "prepend_request x (PriorityRequestQueue h) = add_request x (PriorityRequestQueue h)"

text \<open>Both iterate over the other queue; \<open>extendleft\<close> puts each item in front.\<close>

definition prepend_items :: "request_obj list \<Rightarrow> request_queue \<Rightarrow> request_queue" where
  "prepend_items ys q =
     (case q of
        FCFSRequestQueue xs \<Rightarrow> FCFSRequestQueue (fold (\<lambda>y zs. y # zs) ys xs)
      | PriorityRequestQueue h \<Rightarrow> fold add_request ys q)"

fun remove_request :: "request_obj \<Rightarrow> request_queue \<Rightarrow> request_queue res" where
  "remove_request x (FCFSRequestQueue xs) = rbind (remove_obj x xs) (\<lambda>ys. Inr (FCFSRequestQueue ys))"
| "remove_request x (PriorityRequestQueue h) =
     rbind (remove_obj x h) (\<lambda>ys. Inr (PriorityRequestQueue (heapify request_key ys)))"

fun remove_requests :: "request_obj list \<Rightarrow> request_queue \<Rightarrow> request_queue" where
  "remove_requests rs (FCFSRequestQueue xs) = FCFSRequestQueue (filter (\<lambda>y. fst y \<notin> fst ` set rs) xs)"
| "remove_requests rs (PriorityRequestQueue h) =
     PriorityRequestQueue (heapify request_key (filter (\<lambda>y. fst y \<notin> fst ` set rs) h))"

fun queue_bool :: "request_queue \<Rightarrow> bool" where
  "queue_bool (FCFSRequestQueue xs) = (length xs > 0)"
| "queue_bool (PriorityRequestQueue h) = (h \<noteq> [])"

fun queue_len :: "request_queue \<Rightarrow> nat" where
  "queue_len (FCFSRequestQueue xs) = length xs"
| "queue_len (PriorityRequestQueue h) = length h"

fun queue_iter :: "request_queue \<Rightarrow> request_obj list" where
  "queue_iter (FCFSRequestQueue xs) = xs"
| "queue_iter (PriorityRequestQueue h) = drain request_key h"

definition prepend_requests :: "request_queue \<Rightarrow> request_queue \<Rightarrow> request_queue" where
  "prepend_requests other q = prepend_items (queue_iter other) q"

subsection \<open>The interface the scheduler uses\<close>

text \<open>Popping a number of requests.\<close>

fun pop_many :: "('q \<Rightarrow> ('a \<times> 'q) res) \<Rightarrow> nat \<Rightarrow> 'q \<Rightarrow> ('a list \<times> 'q) res" where
  "pop_many pop 0 q = Inr ([], q)"
| "pop_many pop (Suc n) q =
     rbind (pop q) (\<lambda>(x, q1). rbind (pop_many pop n q1) (\<lambda>(xs, q2). Inr (x # xs, q2)))"

locale ordered_queue =
  fixes invar :: "'q \<Rightarrow> bool" and items :: "'q \<Rightarrow> 'a list"
    and pop :: "'q \<Rightarrow> ('a \<times> 'q) res" and peek :: "'q \<Rightarrow> 'a res"
  assumes pop_empty: "invar q \<Longrightarrow> items q = [] \<Longrightarrow> pop q = Inl IndexError"
    and pop_front: "invar q \<Longrightarrow> items q = x # xs \<Longrightarrow> \<exists>q'. pop q = Inr (x, q') \<and> invar q' \<and> items q' = xs"
    and peek_front: "invar q \<Longrightarrow> peek q = (case items q of [] \<Rightarrow> Inl IndexError | x # xs \<Rightarrow> Inr x)"
begin

lemma pop_items:
  "invar q \<Longrightarrow> n \<le> length (items q) \<Longrightarrow>
   \<exists>q'. pop_many pop n q = Inr (take n (items q), q') \<and> invar q' \<and> items q' = drop n (items q)"
proof (induction n arbitrary: q)
  case 0
  then show ?case by simp
next
  case (Suc n)
  then obtain x xs where x: "items q = x # xs" by (cases "items q") auto
  then obtain q1 where q1: "pop q = Inr (x, q1)" "invar q1" "items q1 = xs" using pop_front Suc.prems(1) by blast
  obtain q2 where "pop_many pop n q1 = Inr (take n xs, q2)" "invar q2" "items q2 = drop n xs"
    using Suc.IH [OF q1(2)] Suc.prems(2) x q1(3) by auto
  then show ?case using q1 x by auto
qed

lemma pop_too_many: "invar q \<Longrightarrow> length (items q) < n \<Longrightarrow> pop_many pop n q = Inl IndexError"
proof (induction n arbitrary: q)
  case (Suc n)
  show ?case
  proof (cases "items q")
    case Nil
    then show ?thesis using pop_empty Suc.prems(1) by simp
  next
    case (Cons x xs)
    then obtain q1 where q1: "pop q = Inr (x, q1)" "invar q1" "items q1 = xs" using pop_front Suc.prems(1) by blast
    then show ?thesis using Suc.IH [OF q1(2)] Suc.prems(2) Cons by simp
  qed
qed simp

end

definition queue_ok :: "request_queue \<Rightarrow> bool" where
  "queue_ok q \<longleftrightarrow>
     (case q of
        FCFSRequestQueue xs \<Rightarrow> distinct (map fst xs)
      | PriorityRequestQueue h \<Rightarrow> is_heap request_key h \<and> distinct (map fst h))"

lemma request_key_inj: "distinct (map fst xs) \<Longrightarrow> inj_on request_key (set xs)"
  by (auto simp: inj_on_def request_key_def distinct_map)

lemma priority_iter: "queue_ok (PriorityRequestQueue h) \<Longrightarrow> queue_iter (PriorityRequestQueue h) = sort_key request_key h"
  by (simp add: queue_ok_def drain_sort request_key_inj)

lemma distinct_mset_fst: "mset xs = mset ys \<Longrightarrow> distinct (map fst xs) = distinct (map fst ys)"
  by (metis mset_eq_imp_distinct_iff mset_map)

lemma queue_pop_front:
  assumes "queue_ok q" "queue_iter q = x # xs"
  shows "\<exists>q'. pop_request q = Inr (x, q') \<and> queue_ok q' \<and> queue_iter q' = xs"
proof (cases q)
  case (FCFSRequestQueue ys)
  then show ?thesis using assms by (auto simp: queue_ok_def)
next
  case (PriorityRequestQueue h)
  have h: "is_heap request_key h" "distinct (map fst h)" "h \<noteq> []"
    using assms PriorityRequestQueue by (auto simp: queue_ok_def)
  obtain h' where h': "heappop request_key h = Inr (h ! 0, h')" "is_heap request_key h'" "mset h = add_mset (h ! 0) (mset h')"
    using heappop_spec [OF h(1,3)] by blast
  have "distinct (map fst (h ! 0 # h'))" using h(2) distinct_mset_fst [of h "h ! 0 # h'"] h'(3) by simp
  moreover have "drain request_key h = h ! 0 # drain request_key h'" by (simp add: drain.simps [of request_key h] h'(1))
  ultimately show ?thesis using assms(2) h h'(1,2) PriorityRequestQueue by (auto simp: queue_ok_def)
qed

interpretation rq: ordered_queue queue_ok queue_iter pop_request peek_request
proof unfold_locales
  fix q :: request_queue and x xs
  assume ok: "queue_ok q"
  have nonempty: "drain request_key h \<noteq> []" if "h \<noteq> []" "is_heap request_key h" for h
    using drain_spec [OF that(2)] that(1) by auto
  show "pop_request q = Inl IndexError" if "queue_iter q = []"
    using that ok nonempty by (cases q) (auto simp: queue_ok_def)
  show "\<exists>q'. pop_request q = Inr (x, q') \<and> queue_ok q' \<and> queue_iter q' = xs" if "queue_iter q = x # xs"
    using ok that by (rule queue_pop_front)
  show "peek_request q = (case queue_iter q of [] \<Rightarrow> Inl IndexError | x # xs \<Rightarrow> Inr x)"
  proof (cases q)
    case (PriorityRequestQueue h)
    show ?thesis
    proof (cases h)
      case Nil
      then show ?thesis by (simp add: PriorityRequestQueue)
    next
      case (Cons y ys)
      have "\<exists>h'. heappop request_key h = Inr (h ! 0, h')"
        using heappop_spec [of request_key h] ok Cons by (auto simp: queue_ok_def PriorityRequestQueue)
      then show ?thesis using Cons by (auto simp: PriorityRequestQueue drain.simps [of request_key "y # ys"])
    qed
  qed simp
qed


subsection \<open>Refinement of ordered lists\<close>

text \<open>The abstract queue is the list of its requests in the order of service.\<close>

fun policy_of :: "request_queue \<Rightarrow> scheduling_policy" where
  "policy_of (FCFSRequestQueue xs) = FCFS"
| "policy_of (PriorityRequestQueue h) = PRIORITY"

definition spec_add :: "scheduling_policy \<Rightarrow> request_obj \<Rightarrow> request_obj list \<Rightarrow> request_obj list" where
  "spec_add p x xs = (case p of FCFS \<Rightarrow> xs @ [x] | PRIORITY \<Rightarrow> insort_key request_key x xs)"

definition spec_prepend :: "scheduling_policy \<Rightarrow> request_obj \<Rightarrow> request_obj list \<Rightarrow> request_obj list" where
  "spec_prepend p x xs = (case p of FCFS \<Rightarrow> x # xs | PRIORITY \<Rightarrow> insort_key request_key x xs)"

lemma fst_set_iter: "queue_ok q \<Longrightarrow> fst ` set (queue_iter q) = fst ` set (case q of FCFSRequestQueue xs \<Rightarrow> xs | PriorityRequestQueue h \<Rightarrow> h)"
  by (cases q) (simp_all add: priority_iter del: queue_iter.simps(2))

lemma sort_key_mset: "mset xs = mset ys \<Longrightarrow> inj_on f (set ys) \<Longrightarrow> sort_key f xs = sort_key f ys"
  by (metis mset_eq_setD mset_sort sort_key_inj_key_eq sorted_sort_key)

lemma add_refines:
  assumes "queue_ok q" "fst x \<notin> fst ` set (queue_iter q)"
  shows "queue_ok (add_request x q) \<and> queue_iter (add_request x q) = spec_add (policy_of q) x (queue_iter q)"
proof (cases q)
  case (FCFSRequestQueue xs)
  then show ?thesis using assms by (auto simp: queue_ok_def spec_add_def)
next
  case (PriorityRequestQueue h)
  have h: "is_heap request_key h" "distinct (map fst h)" "fst x \<notin> fst ` set h"
    using assms fst_set_iter [OF assms(1)] PriorityRequestQueue by (auto simp: queue_ok_def)
  note push = heappush_heap [OF h(1), of x]
  have "distinct (map fst (heappush request_key x h))"
    using distinct_mset_fst [of "heappush request_key x h" "x # h"] push(2) h(2,3) by simp
  then have ok: "queue_ok (PriorityRequestQueue (heappush request_key x h))" using push(1) by (simp add: queue_ok_def)
  have "sort_key request_key (heappush request_key x h) = sort_key request_key (x # h)"
    using request_key_inj [of "x # h"] h(2,3) push(2) by (intro sort_key_mset) simp_all
  then show ?thesis using ok priority_iter [OF ok] priority_iter [of h] assms(1)
    by (simp add: PriorityRequestQueue spec_add_def del: queue_iter.simps(2))
qed

lemma filter_refines:
  assumes "queue_ok (PriorityRequestQueue h)"
  shows "queue_ok (PriorityRequestQueue (heapify request_key (filter P h)))
    \<and> queue_iter (PriorityRequestQueue (heapify request_key (filter P h))) = filter P (queue_iter (PriorityRequestQueue h))"
proof -
  have d: "distinct (map fst (filter P h))" using assms by (simp add: queue_ok_def distinct_map_filter)
  note hp = heapify_heap [of request_key "filter P h"]
  have ok: "queue_ok (PriorityRequestQueue (heapify request_key (filter P h)))"
    using hp d distinct_mset_fst [of "heapify request_key (filter P h)" "filter P h"] by (simp add: queue_ok_def)
  have "sort_key request_key (heapify request_key (filter P h)) = sort_key request_key (filter P h)"
    using hp request_key_inj [OF d] by (intro sort_key_mset) simp_all
  then show ?thesis using ok priority_iter [OF ok] priority_iter [OF assms]
    by (simp add: filter_sort del: queue_iter.simps(2))
qed

lemma remove_obj_filter:
  "distinct (map fst xs) \<Longrightarrow> fst x \<in> fst ` set xs \<Longrightarrow> remove_obj x xs = Inr (filter (\<lambda>y. fst y \<noteq> fst x) xs)"
proof (induction xs)
  case (Cons y ys)
  show ?case
  proof (cases "fst y = fst x")
    case True
    then have "filter (\<lambda>y. fst y \<noteq> fst x) ys = ys" using Cons.prems(1) by (simp add: filter_id_conv image_iff) metis
    then show ?thesis using True by simp
  next
    case False
    then show ?thesis using Cons by auto
  qed
qed simp

lemma remove_obj_absent: "fst x \<notin> fst ` set xs \<Longrightarrow> \<exists>m. remove_obj x xs = Inl (ValueError m)"
  by (induction xs) auto

lemma remove_refines:
  assumes "queue_ok q" "fst x \<in> fst ` set (queue_iter q)"
  shows "\<exists>q'. remove_request x q = Inr q' \<and> queue_ok q' \<and> queue_iter q' = filter (\<lambda>y. fst y \<noteq> fst x) (queue_iter q)"
proof (cases q)
  case (FCFSRequestQueue xs)
  then show ?thesis using assms by (auto simp: queue_ok_def remove_obj_filter distinct_map_filter)
next
  case (PriorityRequestQueue h)
  have "distinct (map fst h)" "fst x \<in> fst ` set h"
    using assms fst_set_iter [OF assms(1)] PriorityRequestQueue by (auto simp: queue_ok_def)
  then show ?thesis using filter_refines [of h "\<lambda>y. fst y \<noteq> fst x"] assms(1)
    by (auto simp: PriorityRequestQueue remove_obj_filter simp del: queue_iter.simps(2))
qed

lemma remove_absent: "queue_ok q \<Longrightarrow> fst x \<notin> fst ` set (queue_iter q) \<Longrightarrow> \<exists>m. remove_request x q = Inl (ValueError m)"
  using remove_obj_absent [of x "case q of FCFSRequestQueue xs \<Rightarrow> xs | PriorityRequestQueue h \<Rightarrow> h"] fst_set_iter [of q]
  by (cases q) (auto simp del: queue_iter.simps(2))

lemma queue_counts: "queue_ok q \<Longrightarrow> queue_len q = length (queue_iter q) \<and> (queue_bool q \<longleftrightarrow> queue_iter q \<noteq> [])"
proof (cases q)
  case (PriorityRequestQueue h)
  assume "queue_ok q"
  then have "length (queue_iter q) = length h" using PriorityRequestQueue priority_iter [of h] by (metis length_sort)
  then show ?thesis using PriorityRequestQueue by auto
qed auto

lemma create_ok: "queue_ok (create_request_queue p)" "queue_iter (create_request_queue p) = []"
  by (simp_all add: create_request_queue_def queue_ok_def heap_from_def split: scheduling_policy.splits)

text \<open>
  \<^bold>\<open>C30\<close>. Both request queues refine a list of requests in the order of service. A
  request joins at the end of a first-come-first-served queue and at its place by priority, arrival
  time, request id and object identity in a priority queue; a request put back goes to the front or
  again to its place; removal takes exactly the named requests, and an error follows when a single
  one is absent; and popping yields the requests in order. The priority queue, a binary heap, is
  therefore always served in sorted order.
\<close>

theorem request_queue_refines:
  assumes "queue_ok q" "fst x \<notin> fst ` set (queue_iter q)"
  shows "queue_ok (add_request x q) \<and> queue_iter (add_request x q) = spec_add (policy_of q) x (queue_iter q)
    \<and> queue_ok (prepend_request x q) \<and> queue_iter (prepend_request x q) = spec_prepend (policy_of q) x (queue_iter q)
    \<and> (\<exists>m. remove_request x q = Inl (ValueError m))
    \<and> (\<forall>y. fst y \<in> fst ` set (queue_iter q) \<longrightarrow> (\<exists>q'. remove_request y q = Inr q' \<and> queue_ok q'
          \<and> queue_iter q' = filter (\<lambda>z. fst z \<noteq> fst y) (queue_iter q)))
    \<and> queue_ok (remove_requests rs q)
    \<and> queue_iter (remove_requests rs q) = filter (\<lambda>z. fst z \<notin> fst ` set rs) (queue_iter q)
    \<and> queue_len q = length (queue_iter q) \<and> (queue_bool q \<longleftrightarrow> queue_iter q \<noteq> [])
    \<and> (n \<le> length (queue_iter q) \<longrightarrow> (\<exists>q'. pop_many pop_request n q = Inr (take n (queue_iter q), q')
          \<and> queue_ok q' \<and> queue_iter q' = drop n (queue_iter q)))
    \<and> (policy_of q = PRIORITY \<longrightarrow> sorted (map request_key (queue_iter q)))"
proof -
  have prepend: "queue_ok (prepend_request x q) \<and> queue_iter (prepend_request x q) = spec_prepend (policy_of q) x (queue_iter q)"
    using assms add_refines [OF assms]
    by (cases q) (auto simp: queue_ok_def spec_prepend_def spec_add_def simp del: queue_iter.simps(2))
  have removes: "queue_ok (remove_requests rs q) \<and> queue_iter (remove_requests rs q) = filter (\<lambda>z. fst z \<notin> fst ` set rs) (queue_iter q)"
  proof (cases q)
    case (FCFSRequestQueue xs)
    then show ?thesis using assms(1) by (simp add: queue_ok_def distinct_map_filter)
  next
    case (PriorityRequestQueue h)
    then show ?thesis using filter_refines [of h "\<lambda>z. fst z \<notin> fst ` set rs"] assms(1)
      by (simp del: queue_iter.simps(2))
  qed
  have order: "policy_of q = PRIORITY \<longrightarrow> sorted (map request_key (queue_iter q))"
    using assms(1) by (cases q) (simp_all add: priority_iter del: queue_iter.simps(2))
  show ?thesis
    using add_refines [OF assms] prepend remove_absent [OF assms] remove_refines [OF assms(1)] removes
      queue_counts [OF assms(1)] rq.pop_items [OF assms(1), of n] order by blast
qed

definition sample_queue :: request_queue where
  "sample_queue = add_request (1, sample_req ''a'') (create_request_queue PRIORITY)"

theorem request_queue_refines_witness:
  "queue_ok sample_queue \<and> 2 \<notin> fst ` set (queue_iter sample_queue)
   \<and> queue_iter (add_request (2, sample_req ''b'') sample_queue) =
       insort_key request_key (2, sample_req ''b'') (queue_iter sample_queue)"
proof -
  have "queue_ok sample_queue" "queue_iter sample_queue = [(1, sample_req ''a'')]" "policy_of sample_queue = PRIORITY"
    using add_refines [OF create_ok(1), of "(1, sample_req ''a'')" PRIORITY]
    by (auto simp: sample_queue_def create_ok create_request_queue_def spec_add_def)
  then show ?thesis
    using request_queue_refines [of sample_queue "(2, sample_req ''b'')" "[]" 0] by (auto simp: spec_add_def)
qed

end
