(* ===== verification/Offload_Policy.thy ===== *)
theory Offload_Policy
  imports Scheduling Encoder_Cache
begin

section \<open>The preservation policy\<close>

text \<open>
  The two decisions of \<^verbatim>\<open>vllm/tokencake/offload_policy.py\<close>: \<open>waiting_pressure\<close> forecasts how many
  blocks the waiting requests could use if blocks were freed, and \<open>evaluate_benefit\<close> weighs the
  preservation of a finished request's prefix. Of the scheduler they read the record \<open>scheduler_view\<close>;
  a waiting request is its attributes together with the record \<open>wait_info\<close>.
\<close>

subsection \<open>What the forecast reads\<close>

datatype request_status =
    WAITING
  | WAITING_FOR_STRUCTURED_OUTPUT_GRAMMAR
  | WAITING_FOR_REMOTE_KVS
  | WAITING_FOR_STREAMING_REQ
  | RUNNING
  | PREEMPTED
  | FINISHED_STOPPED
  | FINISHED_LENGTH_CAPPED
  | FINISHED_ABORTED
  | FINISHED_IGNORED
  | FINISHED_ERROR
  | FINISHED_REPETITION

record mm_span =
  span_hash :: string
  span_offset :: int
  span_length :: int
  span_embeds :: int

record wait_info =
  wi_status :: request_status
  wi_lora :: "int option"
  wi_features :: "mm_span list"

type_synonym wait_request = "sched_request \<times> wait_info"

record scheduler_view =
  sv_manager :: kv_manager
  sv_controller :: "controller option"
  sv_policy :: scheduling_policy
  sv_skipped :: "wait_request list"
  sv_waiting :: "wait_request list"
  sv_running :: "wait_request list"
  sv_max_num_scheduled_tokens :: int
  sv_enable_chunked_prefill :: bool
  sv_need_mamba_split :: bool
  sv_group_block_sizes :: "int list"
  sv_max_loras :: "int option"
  sv_long_prefill_threshold :: int
  sv_max_model_len :: int
  sv_encoder_cache :: encoder_cache
  sv_max_encoder_tokens :: int
  sv_disable_chunked_mm :: bool
  sv_is_encoder_decoder :: bool
  sv_num_lookahead_tokens :: int
  sv_reserve_full_isl :: bool
  sv_max_num_running :: int
  sv_unpaused :: bool

record pressure =
  usage :: pyfloat
  free :: int
  waiting_count :: int
  waiting_demand :: int
  critical_demand :: int
  p_shared_available :: int
  fit_demand :: int

definition signature :: "pressure \<Rightarrow> int list" where
  "signature p =
     [free p, waiting_count p, waiting_demand p, critical_demand p, p_shared_available p, fit_demand p]"

subsection \<open>The forecast of one waiting request\<close>

definition active_controller :: "scheduler_view \<Rightarrow> controller option" where
  "active_controller s =
     (case sv_controller s of Some c \<Rightarrow> if c_metadata c = [] then None else Some c | None \<Rightarrow> None)"

definition waiting_order :: "scheduler_view \<Rightarrow> wait_request list" where
  "waiting_order s =
     (if sv_policy s = FCFS then sv_skipped s @ sv_waiting s else heap_merge (sv_skipped s) (sv_waiting s))"

definition forecast_token_budget :: "scheduler_view \<Rightarrow> int" where
  "forecast_token_budget s =
     (case active_controller s of
        Some c \<Rightarrow> if sv_enable_chunked_prefill s \<and> \<not> sv_need_mamba_split s
                  then prefill_budget (map fst (sv_running s)) (sv_max_num_scheduled_tokens s) c
                  else sv_max_num_scheduled_tokens s
      | None \<Rightarrow> sv_max_num_scheduled_tokens s)"

definition running_loras :: "scheduler_view \<Rightarrow> int set" where
  "running_loras s = {i. \<exists>r \<in> set (sv_running s). wi_lora (snd r) = Some i}"

definition group_demand :: "scheduler_view \<Rightarrow> wait_request \<Rightarrow> int res" where
  "group_demand s r =
     (if 0 \<in> set (sv_group_block_sizes s) then Inl ZeroDivisionError
      else
        (let remaining = max 0 (num_tokens (fst r) - num_computed_tokens (fst r))
         in Inr (sum_list (map (\<lambda>n. (remaining + n - 1) div n) (sv_group_block_sizes s)))))"

definition lora_blocked :: "scheduler_view \<Rightarrow> wait_request \<Rightarrow> bool" where
  "lora_blocked s r =
     (case (sv_max_loras s, wi_lora (snd r)) of
        (Some n, Some i) \<Rightarrow> int (card (running_loras s)) = n \<and> i \<notin> running_loras s
      | _ \<Rightarrow> False)"

definition forecast_hit :: "scheduler_view \<Rightarrow> wait_request \<Rightarrow> nat list list \<times> int" where
  "forecast_hit s r =
     (if num_computed_tokens (fst r) = 0 \<and> km_enable_caching (sv_manager s) \<and> \<not> skip_reading_prefix_cache (fst r)
      then find_longest_cache_hit (sv_manager s) (req_block_hashes (fst r)) (num_tokens (fst r) - 1)
      else (km_empty_blocks (sv_manager s), num_computed_tokens (fst r)))"

definition limited_prefill :: "scheduler_view \<Rightarrow> wait_request \<Rightarrow> bool" where
  "limited_prefill s r =
     (case active_controller s of
        Some c \<Rightarrow> has_key (request_id (fst r)) (c_metadata c) \<and> \<not> has_encoder_inputs (fst r)
      | None \<Rightarrow> False)"

text \<open>The tokens the request would run in one step, or nothing when it could not be scheduled.\<close>

definition forecast_tokens :: "scheduler_view \<Rightarrow> wait_request \<Rightarrow> int \<Rightarrow> int option" where
  "forecast_tokens s r computed =
     (let t0 = max 0 (num_tokens (fst r) - computed);
          t1 = (if sv_long_prefill_threshold s > 0 then min t0 (sv_long_prefill_threshold s) else t0);
          budget = (if limited_prefill s r then forecast_token_budget s else sv_max_num_scheduled_tokens s);
          t2 = min (min t1 budget) (sv_max_model_len s - computed)
      in if \<not> sv_enable_chunked_prefill s \<and> t1 > budget then None
         else if t2 \<le> 0 then None else Some t2)"

text \<open>The encoder tokens to account for, or nothing when the encoder inputs do not fit.\<close>

definition required_spans :: "wait_request \<Rightarrow> int \<Rightarrow> int \<Rightarrow> (string, int) odict" where
  "required_spans r computed tokens =
     dict_of (map (\<lambda>f. (span_hash f, span_embeds f))
       (filter (\<lambda>f. span_offset f < computed + tokens \<and> span_offset f + span_length f > computed)
         (wi_features (snd r))))"

definition splits_span :: "wait_request \<Rightarrow> int \<Rightarrow> int \<Rightarrow> bool" where
  "splits_span r computed tokens =
     list_ex (\<lambda>f. computed < span_offset f \<and> span_offset f < computed + tokens
                \<and> computed + tokens < span_offset f + span_length f) (wi_features (snd r))"

definition forecast_encoder :: "scheduler_view \<Rightarrow> wait_request \<Rightarrow> int \<Rightarrow> int \<Rightarrow> int option" where
  "forecast_encoder s r computed tokens =
     (if \<not> has_encoder_inputs (fst r) then Some 0
      else
        (let cache = sv_encoder_cache s;
             required = required_spans r computed tokens;
             missing = sum_list (map snd (filter (\<lambda>(k, n). \<not> has_key k (cached cache)) required));
             protected = sum_list (map (\<lambda>(k, n). get_default 0 k (freeable cache)) required)
         in if missing > sv_max_encoder_tokens s \<or> missing + protected > num_freeable_slots cache then None
            else if sv_disable_chunked_mm s \<and> splits_span r computed tokens then None
            else Some (if sv_is_encoder_decoder s then sum_list (map snd required) else 0)))"

definition forecast_demand ::
  "scheduler_view \<Rightarrow> wait_request \<Rightarrow> nat list list \<Rightarrow> int \<Rightarrow> int \<Rightarrow> int \<Rightarrow> int" where
  "forecast_demand s r bs computed tokens enc =
     (let lookahead = (if num_computed_tokens (fst r) \<noteq> 0 then sv_num_lookahead_tokens s else 0)
      in get_num_blocks_to_allocate (sv_manager s)
           \<lparr>aq_request_id = request_id (fst r),
            aq_num_tokens = min (computed + tokens + lookahead) (sv_max_model_len s),
            aq_new_computed_blocks = bs, aq_num_encoder_tokens = enc, aq_total_computed_tokens = computed,
            aq_num_tokens_main_model = computed + tokens, aq_apply_admission_cap = False\<rparr>)"

definition forecast_admission ::
  "scheduler_view \<Rightarrow> wait_request \<Rightarrow> nat list list \<Rightarrow> int \<Rightarrow> int \<Rightarrow> int \<Rightarrow> int" where
  "forecast_admission s r bs computed enc demand =
     (let full_tokens = min (num_tokens (fst r)) (sv_max_model_len s);
          full_demand = (\<lambda>full_lookahead. get_num_blocks_to_allocate (sv_manager s)
            \<lparr>aq_request_id = request_id (fst r),
             aq_num_tokens = min (full_tokens + full_lookahead) (sv_max_model_len s),
             aq_new_computed_blocks = bs, aq_num_encoder_tokens = enc, aq_total_computed_tokens = computed,
             aq_num_tokens_main_model = full_tokens, aq_apply_admission_cap = True\<rparr>)
      in case active_controller s of
           None \<Rightarrow> if sv_reserve_full_isl s then max demand (full_demand 0) else demand
         | Some c \<Rightarrow> max (max demand (full_demand (num_lookahead_tokens c)))
                        (admission_demand (sv_manager s) (fst r) computed bs enc c))"

record candidate =
  cand_request :: wait_request
  cand_demand :: int
  cand_tokens :: int
  cand_score :: int
  cand_admission :: int
  cand_borrow :: bool
  cand_limited :: bool

text \<open>Whether the shares of the plan admit the request: with its own means, only by borrowing from
  reservations of waiting types, or not at all.\<close>

definition forecast_borrow :: "scheduler_view \<Rightarrow> wait_request \<Rightarrow> int \<Rightarrow> bool option res" where
  "forecast_borrow s r admission =
     (case active_controller s of
        None \<Rightarrow> Inr (Some False)
      | Some c \<Rightarrow>
          rbind (consumption (fst r) admission False c) (\<lambda>u.
          if u \<noteq> None then Inr (Some False)
          else rbind (consumption (fst r) admission True c) (\<lambda>v.
               Inr (if v = None then None else Some True))))"

definition forecast_score :: "scheduler_view \<Rightarrow> wait_request \<Rightarrow> int" where
  "forecast_score s r =
     (case active_controller s of
        Some c \<Rightarrow> get_default 0 (request_id (fst r)) (scores c)
      | None \<Rightarrow> - priority (fst r))"

definition forecast1 :: "scheduler_view \<Rightarrow> int \<Rightarrow> int \<Rightarrow> wait_request \<Rightarrow> candidate option res" where
  "forecast1 s nfree uncommitted r =
     (if wi_status (snd r) \<notin> {WAITING, PREEMPTED} \<or> lora_blocked s r then Inr None
      else
        (let (bs, computed) = forecast_hit s r in
         case forecast_tokens s r computed of
           None \<Rightarrow> Inr None
         | Some tokens \<Rightarrow>
             (case forecast_encoder s r computed tokens of
                None \<Rightarrow> Inr None
              | Some enc \<Rightarrow>
                  (let demand = forecast_demand s r bs computed tokens enc;
                       admission = forecast_admission s r bs computed enc demand
                   in if demand \<le> 0 \<or> demand > nfree \<or> admission > uncommitted then Inr None
                      else rbind (forecast_borrow s r admission) (\<lambda>b.
                        Inr (map_option (\<lambda>borrow.
                          \<lparr>cand_request = r, cand_demand = demand, cand_tokens = tokens,
                           cand_score = forecast_score s r, cand_admission = admission,
                           cand_borrow = borrow, cand_limited = limited_prefill s r\<rparr>) b))))))"

subsection \<open>The forecast of the queue\<close>

text \<open>One iteration over the waiting requests: total demand, demand of critical types, candidates.\<close>

definition forecast_step ::
  "scheduler_view \<Rightarrow> int \<Rightarrow> int \<Rightarrow> wait_request \<Rightarrow> int \<times> int \<times> candidate list \<Rightarrow> (int \<times> int \<times> candidate list) res" where
  "forecast_step s nfree uncommitted r = (\<lambda>(wd, cd, cs).
     rbind (group_demand s r) (\<lambda>d.
     let is_crit = (case active_controller s of
                      None \<Rightarrow> False
                    | Some c \<Rightarrow> (case map_of (c_metadata c) (request_id (fst r)) of
                                   None \<Rightarrow> False
                                 | Some md \<Rightarrow> agent_type md \<in> set (critical (plan c))))
     in rbind (forecast1 s nfree uncommitted r) (\<lambda>x.
        Inr (wd + d, if is_crit then cd + d else cd, cs @ (case x of None \<Rightarrow> [] | Some c \<Rightarrow> [c])))))"

definition order_forecast :: "int \<Rightarrow> temporal_selection \<Rightarrow> candidate list \<Rightarrow> candidate list" where
  "order_forecast window sel cs =
     py_sorted cand_borrow
       (case sel of
          Priority_first \<Rightarrow>
            py_sorted_desc (\<lambda>c. (cand_score c, cand_demand c, - arrival_time (fst (cand_request c)))) cs
        | Best_fit \<Rightarrow>
            py_sorted_desc (\<lambda>c. (- \<bar>window - cand_demand c\<bar>, cand_score c, - arrival_time (fst (cand_request c)))) cs
        | First_fit \<Rightarrow> cs)"

record fit_state =
  fs_slots :: int
  fs_blocks :: int
  fs_commitment :: int
  fs_tokens :: int
  fs_prefill :: int
  fs_fit :: int

fun fit_loop :: "candidate list \<Rightarrow> fit_state \<Rightarrow> fit_state" where
  "fit_loop [] f = f"
| "fit_loop (c # cs) f =
     (if fs_slots f \<le> 0 then f
      else if cand_demand c > fs_blocks f \<or> cand_admission c > fs_commitment f \<or> cand_tokens c > fs_tokens f
        \<or> cand_limited c \<and> cand_tokens c > 1 \<and> cand_tokens c > fs_prefill f
      then fit_loop cs f
      else fit_loop cs
        \<lparr>fs_slots = fs_slots f - 1, fs_blocks = fs_blocks f - cand_demand c,
         fs_commitment = fs_commitment f - cand_admission c, fs_tokens = fs_tokens f - cand_tokens c,
         fs_prefill = (if cand_limited c \<and> cand_tokens c > 1 then fs_prefill f - cand_tokens c else fs_prefill f),
         fs_fit = fs_fit f + cand_demand c\<rparr>)"

definition waiting_pressure :: "scheduler_view \<Rightarrow> int \<Rightarrow> temporal_selection \<Rightarrow> pressure res" where
  "waiting_pressure s window sel =
     (let nfree = pool_num_free (km_pool (sv_manager s)) in
      rbind (case active_controller s of
               Some c \<Rightarrow> uncommitted_blocks (sv_manager s) c
             | None \<Rightarrow> Inr nfree) (\<lambda>uncommitted.
      rbind (rfold (forecast_step s nfree uncommitted) (waiting_order s) (0, 0, [])) (\<lambda>(wd, cd, cs).
      let start = \<lparr>fs_slots = sv_max_num_running s - int (length (sv_running s)), fs_blocks = nfree,
                   fs_commitment = uncommitted, fs_tokens = sv_max_num_scheduled_tokens s,
                   fs_prefill = forecast_token_budget s, fs_fit = 0\<rparr>;
          fit = (if sv_unpaused s then fs_fit (fit_loop (order_forecast window sel cs) start) else 0)
      in Inr \<lparr>usage = pool_usage (km_pool (sv_manager s)), free = nfree,
              waiting_count = int (length (waiting_order s)), waiting_demand = wd, critical_demand = cd,
              p_shared_available = (case active_controller s of Some c \<Rightarrow> shared_available c | None \<Rightarrow> nfree),
              fit_demand = min window fit\<rparr>)))"


subsection \<open>The benefit of a preservation\<close>

record benefit =
  reason :: metric
  score :: pyfloat

record benefit_args =
  ba_blocks :: int
  ba_cpu_available :: int
  ba_cpu_needed :: int
  ba_duration :: pyfloat
  ba_transfer_time :: pyfloat
  ba_agent_score :: pyfloat
  ba_churn_penalty :: pyfloat

definition benefit_importance :: "metadata \<Rightarrow> benefit_args \<Rightarrow> pyfloat" where
  "benefit_importance md a = min 10 (max (importance md) (min 10 (ba_agent_score a / 2)))"

definition near_end :: "metadata \<Rightarrow> bool" where
  "near_end md \<longleftrightarrow> near_completion md \<or> application_max_depth md > 0 \<and> remaining_depth md \<le> 1"

definition upload_safety :: "benefit_args \<Rightarrow> pyfloat" where
  "upload_safety a = (if ba_duration a \<ge> 2 * ba_transfer_time a then 1 else - 1)"

definition benefit_score :: "offload_config \<Rightarrow> metadata \<Rightarrow> pressure \<Rightarrow> benefit_args \<Rightarrow> pyfloat" where
  "benefit_score cfg md p a =
     (let margin = ba_duration a - ba_transfer_time a;
          pressure_score = max 0 ((usage p - min_gpu_usage cfg) * 6)
            + min 2 (of_int (waiting_demand p) / of_int (max 1 (ba_blocks a + 1)));
          fit_score = min 2 (of_int (fit_demand p) / of_int (max 1 (ba_blocks a)));
          stall_score = min 6 (margin / max (25 / 100) (ba_transfer_time a));
          cpu_score = (if ba_cpu_available a \<ge> ba_cpu_needed a then 1 else - 4)
      in stall_score + pressure_score + fit_score + upload_safety a + cpu_score
         - 35 / 100 * benefit_importance md a - (if near_end md then 2 else 0) - ba_churn_penalty a)"

definition emergency :: "offload_config \<Rightarrow> pressure \<Rightarrow> benefit_args \<Rightarrow> bool" where
  "emergency cfg p a \<longleftrightarrow> usage p \<ge> high_pressure_gpu_usage cfg
     \<and> ba_duration a - ba_transfer_time a \<ge> max (4 * ba_transfer_time a) 5 \<and> waiting_count p > 0"

definition evaluate_benefit :: "offload_config \<Rightarrow> metadata \<Rightarrow> pressure \<Rightarrow> benefit_args \<Rightarrow> benefit" where
  "evaluate_benefit cfg md p a =
     (let margin = ba_duration a - ba_transfer_time a;
          imp = benefit_importance md a;
          s = benefit_score cfg md p a;
          em = emergency cfg p a;
          low_pressure = (usage p < min_gpu_usage cfg);
          no_queue_pressure = (waiting_demand p \<le> free p \<and> critical_demand p \<le> p_shared_available p);
          r = (if \<not> offload_eligible md \<or> \<not> reusable_prefix md then M_NOT_ELIGIBLE
               else if ba_blocks a \<le> 0 then M_EMPTY
               else if fit_demand p \<le> 0 then M_NO_WAITING_DEMAND
               else if ba_cpu_available a < ba_cpu_needed a then M_CPU_CAPACITY
               else if ba_duration a \<le> ba_transfer_time a
                 \<or> margin < max (5 / 100) (2 * ba_transfer_time a) \<and> \<not> em then M_UNPROFITABLE
               else if low_pressure \<and> (no_queue_pressure \<or> fit_demand p < ba_blocks a \<or> waiting_count p = 0)
               then M_LOW_PRESSURE
               else if imp \<ge> 8 \<and> \<not> em
                   \<and> (near_end md \<or> margin < max (5 / 10) (8 * ba_transfer_time a) \<or> upload_safety a < 0)
                 \<or> s < score_threshold cfg \<and> \<not> em then M_UNPROFITABLE
               else M_SELECTED)
      in \<lparr>reason = r, score = s\<rparr>)"

subsection \<open>The forecast is a feasible schedule\<close>

text \<open>The resources a set of candidates takes.\<close>

definition taken :: "(candidate \<Rightarrow> int) \<Rightarrow> candidate list \<Rightarrow> int" where
  "taken f cs = sum_list (map f cs)"

definition prefill_tokens :: "candidate \<Rightarrow> int" where
  "prefill_tokens c = (if cand_limited c \<and> cand_tokens c > 1 then cand_tokens c else 0)"

definition feasible :: "fit_state \<Rightarrow> candidate list \<Rightarrow> bool" where
  "feasible f cs \<longleftrightarrow> int (length cs) \<le> max 0 (fs_slots f)
     \<and> taken cand_demand cs \<le> max 0 (fs_blocks f) \<and> taken cand_admission cs \<le> max 0 (fs_commitment f)
     \<and> taken cand_tokens cs \<le> max 0 (fs_tokens f) \<and> taken prefill_tokens cs \<le> max 0 (fs_prefill f)"

definition cand_ok :: "candidate \<Rightarrow> bool" where
  "cand_ok c \<longleftrightarrow> 0 < cand_demand c \<and> 0 < cand_tokens c \<and> cand_demand c \<le> cand_admission c"

lemma fit_loop_feasible:
  assumes "list_all cand_ok cs"
  shows "\<exists>ds \<in> set (subseqs cs). feasible f ds \<and> fs_fit (fit_loop cs f) = fs_fit f + taken cand_demand ds"
  using assms
proof (induction cs f rule: fit_loop.induct)
  case (1 f)
  then show ?case by (simp add: feasible_def taken_def)
next
  case (2 c cs f)
  have sub: "ds \<in> set (subseqs (c # cs))" if "ds \<in> set (subseqs cs)" for ds using that by (simp add: Let_def)
  have sub': "c # ds \<in> set (subseqs (c # cs))" if "ds \<in> set (subseqs cs)" for ds using that by (simp add: Let_def)
  have nil: "[] \<in> set (subseqs cs)" by (induction cs) (auto simp: Let_def)
  show ?case
  proof (cases "fs_slots f \<le> 0")
    case True
    then show ?thesis using sub [OF nil] by (intro bexI [of _ "[]"]) (simp_all add: feasible_def taken_def)
  next
    case slots: False
    show ?thesis
    proof (cases "cand_demand c > fs_blocks f \<or> cand_admission c > fs_commitment f \<or> cand_tokens c > fs_tokens f
        \<or> cand_limited c \<and> cand_tokens c > 1 \<and> cand_tokens c > fs_prefill f")
      case True
      then obtain ds where "ds \<in> set (subseqs cs)" "feasible f ds" "fs_fit (fit_loop cs f) = fs_fit f + taken cand_demand ds"
        using "2.IH"(1) [OF slots True] "2.prems" by auto
      then show ?thesis using slots True sub by (intro bexI [of _ ds]) auto
    next
      case False
      let ?f = "\<lparr>fs_slots = fs_slots f - 1, fs_blocks = fs_blocks f - cand_demand c,
         fs_commitment = fs_commitment f - cand_admission c, fs_tokens = fs_tokens f - cand_tokens c,
         fs_prefill = (if cand_limited c \<and> cand_tokens c > 1 then fs_prefill f - cand_tokens c else fs_prefill f),
         fs_fit = fs_fit f + cand_demand c\<rparr>"
      obtain ds where ds: "ds \<in> set (subseqs cs)" "feasible ?f ds" "fs_fit (fit_loop cs ?f) = fs_fit ?f + taken cand_demand ds"
        using "2.IH"(2) [OF slots False] "2.prems" by auto
      have "feasible f (c # ds)" using ds(2) slots False "2.prems"
        by (auto simp: feasible_def taken_def cand_ok_def prefill_tokens_def max_def split: if_splits)
      moreover have "fit_loop (c # cs) f = fit_loop cs ?f"
        unfolding fit_loop.simps if_not_P [OF slots] if_not_P [OF False] ..
      ultimately show ?thesis using ds(1,3) sub' [OF ds(1)] by (intro bexI [of _ "c # ds"]) (simp_all add: taken_def)
    qed
  qed
qed


lemma subseqs_mset: "ds \<in> set (subseqs cs) \<Longrightarrow> mset ds \<subseteq># mset cs"
proof (induction cs arbitrary: ds)
  case (Cons c cs)
  then consider "ds \<in> set (subseqs cs)" | es where "ds = c # es" "es \<in> set (subseqs cs)" by (auto simp: Let_def)
  then show ?case
  proof cases
    case 1
    then show ?thesis using Cons.IH by (metis mset.simps(2) mset_subset_eq_add_right add_mset_add_single subset_mset.trans union_commute)
  qed (use Cons.IH in auto)
qed simp

lemma mset_order_forecast [simp]: "mset (order_forecast window sel cs) = mset cs"
  by (simp add: order_forecast_def py_sorted_def split: temporal_selection.splits)

definition cand_waits :: "candidate \<Rightarrow> bool" where
  "cand_waits c \<longleftrightarrow> cand_ok c \<and> wi_status (snd (cand_request c)) \<in> {WAITING, PREEMPTED}"

lemma forecast1_ok:
  assumes "forecast1 s nfree uncommitted r = Inr (Some c)"
  shows "cand_request c = r" "cand_waits c" "cand_demand c \<le> nfree" "cand_admission c \<le> uncommitted"
proof -
  obtain bs computed where hit: "forecast_hit s r = (bs, computed)" by force
  have st: "wi_status (snd r) \<in> {WAITING, PREEMPTED}"
    using assms by (auto simp: forecast1_def split: if_splits)
  obtain tokens where t: "forecast_tokens s r computed = Some tokens"
    using assms by (auto simp: forecast1_def hit split: if_splits option.splits)
  obtain enc where e: "forecast_encoder s r computed tokens = Some enc"
    using assms by (auto simp: forecast1_def hit t split: if_splits option.splits)
  let ?d = "forecast_demand s r bs computed tokens enc"
  let ?a = "forecast_admission s r bs computed enc ?d"
  have c: "cand_request c = r" "cand_demand c = ?d" "cand_admission c = ?a" "cand_tokens c = tokens"
    "0 < ?d" "?d \<le> nfree" "?a \<le> uncommitted"
    using assms by (auto simp: forecast1_def hit t e Let_def rbind_eq_Inr split: if_splits option.splits)
  have "0 < tokens" using t by (auto simp: forecast_tokens_def Let_def split: if_splits)
  moreover have "?d \<le> ?a" by (auto simp: forecast_admission_def Let_def split: option.splits)
  ultimately show "cand_request c = r" "cand_waits c" "cand_demand c \<le> nfree" "cand_admission c \<le> uncommitted"
    using c st by (auto simp: cand_waits_def cand_ok_def)
qed

lemma forecast_step_result:
  "forecast_step s nfree uncommitted r (wd, cd, cs) = Inr t \<Longrightarrow>
   \<exists>d x cd1. group_demand s r = Inr d \<and> forecast1 s nfree uncommitted r = Inr x \<and> cd1 \<in> {cd, cd + d}
     \<and> t = (wd + d, cd1, cs @ (case x of None \<Rightarrow> [] | Some c \<Rightarrow> [c]))"
  by (auto simp: forecast_step_def rbind_eq_Inr Let_def)

lemma forecast_queue:
  assumes "rfold (forecast_step s nfree uncommitted) rs (wd, cd, cs) = Inr (wd', cd', cs')"
    "list_all (\<lambda>n. 0 < n) (sv_group_block_sizes s)"
  shows "\<exists>ds. cs' = cs @ ds \<and> list_all cand_waits ds \<and> mset (map cand_request ds) \<subseteq># mset rs
    \<and> wd \<le> wd' \<and> cd \<le> cd' \<and> cd' - cd \<le> wd' - wd"
  using assms(1)
proof (induction rs arbitrary: wd cd cs)
  case Nil
  then show ?case by simp
next
  case (Cons r rs)
  obtain d x cd1 where d: "group_demand s r = Inr d" and x: "forecast1 s nfree uncommitted r = Inr x"
    and cd1: "cd1 \<in> {cd, cd + d}" "rfold (forecast_step s nfree uncommitted) rs
        (wd + d, cd1, cs @ (case x of None \<Rightarrow> [] | Some c \<Rightarrow> [c])) = Inr (wd', cd', cs')"
    using Cons.prems by (auto simp only: rfold.simps rbind_eq_Inr dest!: forecast_step_result)
  have pos: "0 \<le> (m + n - 1) div n" if "0 \<le> m" "n \<in> set (sv_group_block_sizes s)" for m n :: int
    using that assms(2) by (auto simp: list_all_iff intro!: pos_imp_zdiv_nonneg_iff [THEN iffD2])
  have "0 \<le> d" using d pos by (auto simp: group_demand_def Let_def intro!: sum_list_nonneg split: if_splits)
  obtain ds where ds: "cs' = (cs @ (case x of None \<Rightarrow> [] | Some c \<Rightarrow> [c])) @ ds" "list_all cand_waits ds"
    "mset (map cand_request ds) \<subseteq># mset rs" "wd + d \<le> wd'" "cd1 \<le> cd'" "cd' - cd1 \<le> wd' - (wd + d)"
    using Cons.IH [OF cd1(2)] by blast
  have "list_all cand_waits ((case x of None \<Rightarrow> [] | Some c \<Rightarrow> [c]) @ ds)
    \<and> mset (map cand_request ((case x of None \<Rightarrow> [] | Some c \<Rightarrow> [c]) @ ds)) \<subseteq># mset (r # rs)"
  proof (cases x)
    case None
    have "mset rs \<subseteq># mset (r # rs)" by simp
    then show ?thesis using ds(2,3) None subset_mset.trans by fastforce
  next
    case (Some c)
    then show ?thesis using forecast1_ok [of s nfree uncommitted r c] x ds(2,3) by simp
  qed
  moreover have "wd \<le> wd'" "cd \<le> cd'" "cd' - cd \<le> wd' - wd" using ds(4-6) cd1(1) \<open>0 \<le> d\<close> by auto
  ultimately show ?case using ds(1) by auto
qed


text \<open>The resources of the next step, as the forecast counts them.\<close>

definition step_resources :: "scheduler_view \<Rightarrow> int \<Rightarrow> fit_state" where
  "step_resources s uncommitted =
     \<lparr>fs_slots = sv_max_num_running s - int (length (sv_running s)), fs_blocks = pool_num_free (km_pool (sv_manager s)),
      fs_commitment = uncommitted, fs_tokens = sv_max_num_scheduled_tokens s,
      fs_prefill = forecast_token_budget s, fs_fit = 0\<rparr>"

definition sample_view :: scheduler_view where
  "sample_view =
     \<lparr>sv_manager = sample_kv_manager\<lparr>get_num_blocks_to_allocate := (\<lambda>_. 2)\<rparr>, sv_controller = None, sv_policy = FCFS,
      sv_skipped = [], sv_waiting = [(sample_req ''a'', \<lparr>wi_status = WAITING, wi_lora = None, wi_features = []\<rparr>)],
      sv_running = [], sv_max_num_scheduled_tokens = 100, sv_enable_chunked_prefill = True,
      sv_need_mamba_split = False, sv_group_block_sizes = [16], sv_max_loras = None,
      sv_long_prefill_threshold = 0, sv_max_model_len = 100, sv_encoder_cache = encoder_cache_init 10,
      sv_max_encoder_tokens = 10, sv_disable_chunked_mm = False, sv_is_encoder_decoder = False,
      sv_num_lookahead_tokens = 0, sv_reserve_full_isl = False, sv_max_num_running = 4, sv_unpaused = True\<rparr>"



subsection \<open>Monotonicity of the decision\<close>

lemma emergency_mono:
  assumes "emergency cfg p a" "usage p' = usage p" "waiting_count p' = waiting_count p"
    "ba_duration a \<le> ba_duration a'" "ba_transfer_time a' \<le> ba_transfer_time a"
  shows "emergency cfg p' a'"
  using assms by (auto simp: emergency_def)

lemma stall_mono:
  assumes "0 < m" "m \<le> m'" "t' \<le> (t :: real)"
  shows "min 6 (m / max (25 / 100) t) \<le> min 6 (m' / max (25 / 100) t')"
proof -
  have "m / max (25 / 100) t \<le> m' / max (25 / 100) t'" using assms by (intro frac_le) auto
  then show ?thesis by (auto simp: min_def)
qed

lemma benefit_score_mono:
  assumes "p' = p\<lparr>fit_demand := f\<rparr>" "fit_demand p \<le> f" "ba_blocks a' = ba_blocks a" "ba_agent_score a' = ba_agent_score a"
    and "ba_cpu_available a \<le> ba_cpu_available a'" "ba_cpu_needed a' \<le> ba_cpu_needed a"
    and "ba_duration a \<le> ba_duration a'" "ba_transfer_time a' \<le> ba_transfer_time a" "ba_churn_penalty a' \<le> ba_churn_penalty a"
    and "ba_transfer_time a < ba_duration a"
  shows "benefit_score cfg md p a \<le> benefit_score cfg md p' a'"
proof -
  let ?t = "ba_transfer_time a" and ?t' = "ba_transfer_time a'" and ?d = "ba_duration a" and ?d' = "ba_duration a'"
  have stall: "min 6 ((?d - ?t) / max (25 / 100) ?t) \<le> min 6 ((?d' - ?t') / max (25 / 100) ?t')"
    using assms by (intro stall_mono) auto
  have "real_of_int (fit_demand p) / of_int (max 1 (ba_blocks a)) \<le> of_int f / of_int (max 1 (ba_blocks a))"
    using assms(2) by (intro divide_right_mono) auto
  then have fit: "min 2 (real_of_int (fit_demand p) / of_int (max 1 (ba_blocks a))) \<le> min 2 (of_int f / of_int (max 1 (ba_blocks a)))"
    by (auto simp: min_def)
  have safe: "upload_safety a \<le> upload_safety a'" using assms(7,8) by (auto simp: upload_safety_def)
  have cpu: "(if ba_cpu_available a \<ge> ba_cpu_needed a then 1 else - 4 :: real) \<le> (if ba_cpu_available a' \<ge> ba_cpu_needed a' then 1 else - 4)"
    using assms(5,6) by auto
  have imp: "benefit_importance md a' = benefit_importance md a" using assms(4) by (simp add: benefit_importance_def)
  show ?thesis
    unfolding benefit_score_def Let_def imp assms(1,3) pressure.simps
    by (intro diff_mono add_mono order_refl stall safe cpu assms(9)) (use fit in simp_all)
qed

text \<open>When a preservation is selected.\<close>

lemma selected_iff:
  "reason (evaluate_benefit cfg md p a) = M_SELECTED \<longleftrightarrow>
     offload_eligible md \<and> reusable_prefix md \<and> 0 < ba_blocks a \<and> 0 < fit_demand p
     \<and> ba_cpu_needed a \<le> ba_cpu_available a \<and> ba_transfer_time a < ba_duration a
     \<and> (emergency cfg p a \<or> max (5 / 100) (2 * ba_transfer_time a) \<le> ba_duration a - ba_transfer_time a)
     \<and> (usage p \<ge> min_gpu_usage cfg \<or> \<not> (waiting_demand p \<le> free p \<and> critical_demand p \<le> p_shared_available p)
          \<and> ba_blocks a \<le> fit_demand p \<and> waiting_count p \<noteq> 0)
     \<and> (emergency cfg p a \<or> benefit_score cfg md p a \<ge> score_threshold cfg
          \<and> (benefit_importance md a < 8 \<or> \<not> near_end md
             \<and> max (5 / 10) (8 * ba_transfer_time a) \<le> ba_duration a - ba_transfer_time a \<and> upload_safety a \<ge> 0))"
  by (simp add: evaluate_benefit_def Let_def not_less not_le) (auto simp: not_less not_le)

text \<open>
  A selected preservation pays: its prefix is eligible and reusable, it has blocks,
  the queue can use freed blocks, CPU memory suffices, and the remaining stall outlasts the transfer
  with the required margin and score, or the GPU is in an emergency. The decision is monotone: it
  stays when more CPU memory is free or less is needed, when the stall is longer, the transfer
  shorter, the churn lower, or the queue can use more blocks.
\<close>

lemma selected_benefit_monotone:
  assumes "reason (evaluate_benefit cfg md p a) = M_SELECTED"
    and "p' = p\<lparr>fit_demand := f\<rparr>" "fit_demand p \<le> f" "ba_blocks a' = ba_blocks a" "ba_agent_score a' = ba_agent_score a"
    and "ba_cpu_available a \<le> ba_cpu_available a'" "ba_cpu_needed a' \<le> ba_cpu_needed a"
    and "ba_duration a \<le> ba_duration a'" "ba_transfer_time a' \<le> ba_transfer_time a" "ba_churn_penalty a' \<le> ba_churn_penalty a"
  shows "reason (evaluate_benefit cfg md p' a') = M_SELECTED
    \<and> offload_eligible md \<and> reusable_prefix md \<and> 0 < ba_blocks a \<and> 0 < fit_demand p
    \<and> ba_cpu_needed a \<le> ba_cpu_available a \<and> ba_transfer_time a < ba_duration a
    \<and> (emergency cfg p a \<or> score (evaluate_benefit cfg md p a) \<ge> score_threshold cfg
        \<and> max (5 / 100) (2 * ba_transfer_time a) \<le> ba_duration a - ba_transfer_time a)"
proof -
  note sel = assms(1) [unfolded selected_iff]
  have t: "ba_transfer_time a < ba_duration a" using sel by blast
  have sc: "benefit_score cfg md p a \<le> benefit_score cfg md p' a'" using assms(2-10) t by (rule benefit_score_mono)
  have em: "emergency cfg p' a'" if "emergency cfg p a" by (rule emergency_mono [OF that _ _ assms(8,9)]) (simp_all add: assms(2))
  have safe: "upload_safety a \<le> upload_safety a'" using assms(8,9) by (auto simp: upload_safety_def)
  have imp: "benefit_importance md a' = benefit_importance md a" using assms(5) by (simp add: benefit_importance_def)
  have m: "max (5 / 100) (2 * ba_transfer_time a') \<le> max (5 / 100) (2 * ba_transfer_time a)"
    "max (5 / 10) (8 * ba_transfer_time a') \<le> max (5 / 10) (8 * ba_transfer_time a)"
    "ba_duration a - ba_transfer_time a \<le> ba_duration a' - ba_transfer_time a'"
    using assms(8,9) by auto
  have margin: "emergency cfg p' a' \<or> max (5 / 100) (2 * ba_transfer_time a') \<le> ba_duration a' - ba_transfer_time a'"
    using sel em order_trans [OF m(1) order_trans [OF _ m(3)]] by metis
  have worth: "emergency cfg p' a' \<or> benefit_score cfg md p' a' \<ge> score_threshold cfg
          \<and> (benefit_importance md a < 8 \<or> \<not> near_end md
             \<and> max (5 / 10) (8 * ba_transfer_time a') \<le> ba_duration a' - ba_transfer_time a' \<and> upload_safety a' \<ge> 0)"
  proof (cases "emergency cfg p a")
    case False
    then have "score_threshold cfg \<le> benefit_score cfg md p' a'" using sel sc order_trans by metis
    moreover have "benefit_importance md a < 8 \<or> \<not> near_end md
        \<and> max (5 / 10) (8 * ba_transfer_time a) \<le> ba_duration a - ba_transfer_time a \<and> upload_safety a \<ge> 0"
      using sel False by metis
    ultimately show ?thesis using order_trans [OF m(2) order_trans [OF _ m(3)]] order_trans [OF _ safe] by metis
  qed (use em in simp)
  have pressed: "usage p' \<ge> min_gpu_usage cfg \<or> \<not> (waiting_demand p' \<le> free p' \<and> critical_demand p' \<le> p_shared_available p')
      \<and> ba_blocks a \<le> fit_demand p' \<and> waiting_count p' \<noteq> 0" "0 < fit_demand p'"
    using sel assms(2,3) by auto
  have "ba_cpu_needed a' \<le> ba_cpu_available a'" "ba_transfer_time a' < ba_duration a'"
    using sel assms(6-9) by linarith+
  then have "reason (evaluate_benefit cfg md p' a') = M_SELECTED"
    unfolding selected_iff imp assms(4) using sel margin worth pressed by metis
  moreover have "score (evaluate_benefit cfg md p a) = benefit_score cfg md p a" by (simp add: evaluate_benefit_def Let_def)
  ultimately show ?thesis using sel by auto
qed

definition sample_benefit :: benefit_args where
  "sample_benefit = \<lparr>ba_blocks = 2, ba_cpu_available = 8, ba_cpu_needed = 2, ba_duration = 10, ba_transfer_time = 1,
     ba_agent_score = 0, ba_churn_penalty = 0\<rparr>"

definition sample_pressure :: pressure where
  "sample_pressure = \<lparr>usage = 9 / 10, free = 1, waiting_count = 1, waiting_demand = 4, critical_demand = 0,
     p_shared_available = 1, fit_demand = 2\<rparr>"

definition sample_annotated :: metadata where
  "sample_annotated = (metadata_defaults ''app'')\<lparr>offload_eligible := True, reusable_prefix := True\<rparr>"

end
