(* ===== verification/Offload_Lookup.thy ===== *)
theory Offload_Lookup
  imports Lifecycle Offload_Policy
begin

section \<open>Lookup of offloaded prefixes\<close>

text \<open>
  The configuration, the per-request state and the lookup of
  \<^verbatim>\<open>vllm/distributed/kv_transfer/kv_connector/v1/offloading/scheduler.py\<close>: how the groups of the KV
  cache are cut into offloaded blocks, and how many tokens beyond the ones computed on the GPU can be
  loaded from the CPU cache. Full-attention groups need every block of the prefix, sliding-window
  groups the last blocks of it; a group that lowers the boundary makes the windows of the others be
  looked up again, until the boundary is stable.

  Block sizes and token counts are natural numbers, and the sizes are positive. A difference of two
  counts is taken only where the code has just compared them, except that a request without tokens
  gives the boundary 0 instead of -1, with the same answer 0.
\<close>

subsection \<open>Configuration\<close>

datatype kv_cache_spec =
  FullAttentionSpec | FullAttentionSubclass | SlidingWindowSpec nat | MambaSpec | OtherSpec

definition get_sliding_window_size_in_blocks :: "kv_cache_spec \<Rightarrow> nat \<Rightarrow> nat option res" where
  "get_sliding_window_size_in_blocks spec sz =
     (case spec of
        SlidingWindowSpec w \<Rightarrow>
          py_assert (w > 0) (if sz = 0 then Inl ZeroDivisionError else Inr (Some (cdiv w sz)))
      | MambaSpec \<Rightarrow> Inr (Some 1)
      | FullAttentionSpec \<Rightarrow> Inr None
      | FullAttentionSubclass \<Rightarrow> Inr None
      | OtherSpec \<Rightarrow> Inl AssertionError)"

record group_offload_config =
  group_idx :: nat
  gpu_block_size :: nat
  offloaded_block_size :: nat
  hash_block_size_factor :: nat
  window_in_blocks :: "nat option"
  alignment_block_count :: "nat option"

record scheduler_offload_config =
  kv_group_configs :: "group_offload_config list"
  block_size_factor :: nat
  num_workers :: nat

record offloading_spec =
  sp_gpu_block_size :: "nat list"
  sp_block_size_factor :: nat
  sp_hash_block_size :: nat
  sp_groups :: "kv_cache_spec list"
  sp_world_size :: nat

definition group_window :: "offloading_spec \<Rightarrow> nat \<Rightarrow> nat \<Rightarrow> nat option res" where
  "group_window sp idx sz =
     (if idx < length (sp_groups sp) then get_sliding_window_size_in_blocks (sp_groups sp ! idx) sz
      else Inl IndexError)"

text \<open>The sizes of the full-attention groups, a set, and the alignment they agree on.\<close>

definition full_attention_sizes :: "offloading_spec \<Rightarrow> nat list res" where
  "full_attention_sizes sp =
     rfold (\<lambda>(idx, g) sizes.
         rbind (group_window sp idx (g * sp_block_size_factor sp)) (\<lambda>sw.
           Inr (if sw = None then List.insert (g * sp_block_size_factor sp) sizes else sizes)))
       (enumerate 0 (sp_gpu_block_size sp)) []"

definition alignment_tokens :: "nat list \<Rightarrow> nat option" where
  "alignment_tokens sizes = (if length sizes = 1 then Some (hd sizes) else None)"

definition alignment_count :: "nat option \<Rightarrow> nat \<Rightarrow> nat option \<Rightarrow> nat option res" where
  "alignment_count tokens sz sw =
     (case (tokens, sw) of
        (Some t, Some w) \<Rightarrow>
          if t \<le> sz then Inr None
          else if sz = 0 then Inl ZeroDivisionError
          else if w \<ge> t div sz then Inr None else Inr (Some (t div sz))
      | _ \<Rightarrow> Inr None)"

definition group_config :: "offloading_spec \<Rightarrow> nat option \<Rightarrow> nat \<times> nat \<Rightarrow> group_offload_config res" where
  "group_config sp tokens ig = (case ig of (idx, g) \<Rightarrow>
     let sz = g * sp_block_size_factor sp in
     if sp_hash_block_size sp = 0 then Inl ZeroDivisionError
     else rbind (group_window sp idx sz) (\<lambda>sw.
       rbind (alignment_count tokens sz sw) (\<lambda>count.
         Inr \<lparr>group_idx = idx, gpu_block_size = g, offloaded_block_size = sz,
              hash_block_size_factor = sz div sp_hash_block_size sp,
              window_in_blocks = sw, alignment_block_count = count\<rparr>)))"

definition from_spec :: "offloading_spec \<Rightarrow> scheduler_offload_config res" where
  "from_spec sp =
     rbind (full_attention_sizes sp) (\<lambda>sizes.
       rbind (rfold (\<lambda>ig cs. rbind (group_config sp (alignment_tokens sizes) ig) (\<lambda>c. Inr (cs @ [c])))
                (enumerate 0 (sp_gpu_block_size sp)) []) (\<lambda>cs.
         Inr \<lparr>kv_group_configs = cs, block_size_factor = sp_block_size_factor sp,
              num_workers = sp_world_size sp\<rparr>))"

subsection \<open>Keys of offloaded blocks\<close>

definition make_offload_key :: "bytes \<Rightarrow> nat \<Rightarrow> offload_key res" where
  "make_offload_key h g = rbind (to_bytes4 g) (\<lambda>b. Inr (h @ b))"

definition get_offload_block_hash :: "offload_key \<Rightarrow> bytes" where
  "get_offload_block_hash k = take (length k - 4) k"

definition get_offload_group_idx :: "offload_key \<Rightarrow> nat" where
  "get_offload_group_idx k = from_bytes (drop (length k - 4) k)"

subsection \<open>State of a request\<close>

text \<open>The requests are objects of the engine; the fields used here beyond the scheduling ones are
  their status, the transfer parameters (with the truth value of the entry \<open>do_remote_decode\<close>) and
  the lifecycle identifier in the \<open>tokencake\<close> entry of the validated sampling parameters, if any.\<close>

record offload_request = sched_request +
  or_status :: request_status
  or_transfer_params :: "json option"
  or_do_remote_decode :: bool
  or_lifecycle :: "string option"

record request_group_state =
  offload_keys :: "offload_key list"
  gs_block_ids :: "nat list"
  next_stored_block_idx :: nat
  num_hit_blocks :: nat

record request_offload_state =
  ros_req_id :: string
  group_states :: "request_group_state list"
  num_locally_computed_tokens :: nat
  transfer_jobs :: "nat list"

definition new_group_state :: request_group_state where
  "new_group_state =
     \<lparr>offload_keys = [], gs_block_ids = [], next_stored_block_idx = 0, num_hit_blocks = 0\<rparr>"

definition RequestOffloadState :: "scheduler_offload_config \<Rightarrow> string \<Rightarrow> request_offload_state" where
  "RequestOffloadState c i =
     \<lparr>ros_req_id = i, group_states = map (\<lambda>_. new_group_state) (kv_group_configs c),
      num_locally_computed_tokens = 0, transfer_jobs = []\<rparr>"

text \<open>\<open>itertools.islice(xs, start, None, step)\<close> and the slice \<open>xs[start::step]\<close>, which agree from a
  nonnegative start.\<close>

function every :: "nat \<Rightarrow> 'a list \<Rightarrow> 'a list" where
  "every s [] = []"
| "every s (x # xs) = x # every s (drop (s - 1) xs)"
  by pat_completeness auto
termination by (relation "measure (\<lambda>(s, xs). length xs)") auto

definition islice :: "nat \<Rightarrow> nat \<Rightarrow> 'a list \<Rightarrow> 'a list" where
  "islice start s xs = every s (drop start xs)"

definition update_group_keys ::
  "bytes list \<Rightarrow> group_offload_config \<Rightarrow> request_group_state \<Rightarrow> request_group_state res" where
  "update_group_keys hashes c g =
     (let f = hash_block_size_factor c
      in rbind (rfold (\<lambda>h ks. rbind (make_offload_key h (group_idx c)) (\<lambda>k. Inr (ks @ [k])))
                  (islice (f * length (offload_keys g) + f - 1) f hashes) (offload_keys g)) (\<lambda>ks.
           Inr (g\<lparr>offload_keys := ks\<rparr>)))"

fun rmap2 :: "('a \<Rightarrow> 'b \<Rightarrow> 'c res) \<Rightarrow> 'a list \<Rightarrow> 'b list \<Rightarrow> 'c list res" where
  "rmap2 f (x # xs) (y # ys) = rbind (f x y) (\<lambda>z. rbind (rmap2 f xs ys) (\<lambda>zs. Inr (z # zs)))"
| "rmap2 f _ _ = Inr []"

definition update_offload_keys ::
  "scheduler_offload_config \<Rightarrow> bytes list \<Rightarrow> request_offload_state \<Rightarrow> request_offload_state res" where
  "update_offload_keys c hashes s =
     rbind (rmap2 (update_group_keys hashes) (kv_group_configs c) (group_states s)) (\<lambda>gs.
       Inr (s\<lparr>group_states := gs\<rparr>))"

definition update_block_id_groups ::
  "nat list list option \<Rightarrow> request_offload_state \<Rightarrow> request_offload_state res" where
  "update_block_id_groups new s =
     (case new of
        None \<Rightarrow> Inr s
      | Some bs \<Rightarrow>
          py_assert (length bs = length (group_states s))
            (Inr (s\<lparr>group_states := map2 (\<lambda>g b. g\<lparr>gs_block_ids := gs_block_ids g @ b\<rparr>)
                                       (group_states s) bs\<rparr>)))"

definition advance_stored_idx ::
  "scheduler_offload_config \<Rightarrow> nat \<Rightarrow> request_offload_state \<Rightarrow> request_offload_state" where
  "advance_stored_idx c n s =
     s\<lparr>group_states := map2 (\<lambda>k g. g\<lparr>next_stored_block_idx := n div offloaded_block_size k\<rparr>)
                         (kv_group_configs c) (group_states s)\<rparr>"

definition update_num_hit_blocks ::
  "scheduler_offload_config \<Rightarrow> nat \<Rightarrow> request_offload_state \<Rightarrow> request_offload_state" where
  "update_num_hit_blocks c n s =
     s\<lparr>group_states := map2 (\<lambda>k g. g\<lparr>num_hit_blocks := n div offloaded_block_size k\<rparr>)
                         (kv_group_configs c) (group_states s)\<rparr>"

subsection \<open>Lookup\<close>

type_synonym block_lookup = "offload_key \<Rightarrow> cpu_manager \<Rightarrow> (bool option \<times> cpu_manager) res"

fun prefix_loop ::
  "block_lookup \<Rightarrow> offload_key list \<Rightarrow> nat \<Rightarrow> bool \<Rightarrow> cpu_manager \<Rightarrow> (nat option \<times> cpu_manager) res" where
  "prefix_loop q [] hit_count defer_lookup m = Inr (if defer_lookup then None else Some hit_count, m)"
| "prefix_loop q (k # ks) hit_count defer_lookup m =
     (case q k m of
        Inl e \<Rightarrow> Inl e
      | Inr (None, m') \<Rightarrow> prefix_loop q ks (hit_count + 1) True m'
      | Inr (Some True, m') \<Rightarrow> prefix_loop q ks (hit_count + 1) defer_lookup m'
      | Inr (Some False, m') \<Rightarrow> Inr (if defer_lookup then None else Some hit_count, m'))"

definition maximal_prefix_lookup ::
  "block_lookup \<Rightarrow> offload_key list \<Rightarrow> cpu_manager \<Rightarrow> (nat option \<times> cpu_manager) res" where
  "maximal_prefix_lookup q ks m = prefix_loop q ks 0 False m"

text \<open>The loop over the indices from the end; the first argument after the keys is one more than the
  index looked up next.\<close>

fun window_loop ::
  "block_lookup \<Rightarrow> nat \<Rightarrow> offload_key list \<Rightarrow> nat \<Rightarrow> nat \<Rightarrow> bool \<Rightarrow> cpu_manager
     \<Rightarrow> (nat option \<times> cpu_manager) res" where
  "window_loop q w ks 0 hits defer_lookup m = Inr (if defer_lookup then None else Some hits, m)"
| "window_loop q w ks (Suc idx) hits defer_lookup m =
     (case q (ks ! idx) m of
        Inl e \<Rightarrow> Inl e
      | Inr (None, m') \<Rightarrow> window_loop q w ks idx 0 True m'
      | Inr (Some False, m') \<Rightarrow> window_loop q w ks idx 0 defer_lookup m'
      | Inr (Some True, m') \<Rightarrow>
          if hits + 1 = w then Inr (if defer_lookup then None else Some (idx + w), m')
          else window_loop q w ks idx (hits + 1) defer_lookup m')"

definition sliding_window_lookup ::
  "block_lookup \<Rightarrow> offload_key list \<Rightarrow> nat \<Rightarrow> cpu_manager \<Rightarrow> (nat option \<times> cpu_manager) res" where
  "sliding_window_lookup q ks w m = window_loop q w ks (length ks) 0 False m"

text \<open>What the search of \<open>_lookup\<close> reads, and its local variables.\<close>

record lookup_query =
  lq_config :: scheduler_offload_config
  lq_groups :: "nat list"
  lq_windows :: "nat list"
  lq_state :: request_offload_state
  lq_num_tokens :: nat

record lookup_state =
  ls_max_hit :: nat
  ls_num_hit :: nat
  ls_defer :: bool
  ls_groups :: "nat list"
  ls_looked :: bool

definition py_slice :: "nat \<Rightarrow> nat \<Rightarrow> 'a list \<Rightarrow> 'a list" where
  "py_slice a b xs = take (b - a) (drop a xs)"

text \<open>After the lookup of one group: \<open>None\<close> is the early return of 0.\<close>

definition lookup_update ::
  "lookup_query \<Rightarrow> group_offload_config \<Rightarrow> nat option \<Rightarrow> nat \<Rightarrow> lookup_state \<Rightarrow> lookup_state option" where
  "lookup_update lq gc hits mx st =
     (let computed = num_locally_computed_tokens (lq_state lq);
          sz = offloaded_block_size gc;
          mx' = (case hits of None \<Rightarrow> mx | Some h \<Rightarrow> min mx (sz * (computed div sz + h)));
          defer_lookup = (ls_defer st \<or> hits = None);
          new_num_hit = mx' - computed
      in if mx' < computed + sz then None
         else Some \<lparr>ls_max_hit = mx', ls_num_hit = new_num_hit,
                    ls_defer = (defer_lookup \<and> \<not> new_num_hit < ls_num_hit st),
                    ls_groups = (if \<not> new_num_hit < ls_num_hit st then ls_groups st
                                 else if defer_lookup then lq_groups lq
                                 else if ls_looked st \<and> ls_groups st = [] then lq_windows lq
                                 else ls_groups st),
                    ls_looked = (ls_looked st \<or> window_in_blocks gc \<noteq> None)\<rparr>)"

definition lookup_group ::
  "block_lookup \<Rightarrow> lookup_query \<Rightarrow> nat \<Rightarrow> lookup_state \<Rightarrow> cpu_manager
     \<Rightarrow> (lookup_state option \<times> cpu_manager) res" where
  "lookup_group q lq idx st m =
     (let gc = kv_group_configs (lq_config lq) ! idx;
          keys = offload_keys (group_states (lq_state lq) ! idx);
          sz = offloaded_block_size gc;
          computed = num_locally_computed_tokens (lq_state lq)
      in py_assert (length keys \<ge> lq_num_tokens lq div sz)
           (let mx = min (ls_max_hit st) (length keys * sz) in
            if mx < computed + sz then Inr (None, m)
            else
              let ks = py_slice (computed div sz) (min (cdiv mx sz) (length keys)) keys in
              rbind (case window_in_blocks gc of
                       None \<Rightarrow> maximal_prefix_lookup q ks m
                     | Some w \<Rightarrow> sliding_window_lookup q ks w m) (\<lambda>(hits, m').
                Inr (if hits = Some 0 then None else lookup_update lq gc hits mx st, m'))))"

fun lookup_pass ::
  "block_lookup \<Rightarrow> lookup_query \<Rightarrow> nat list \<Rightarrow> lookup_state \<Rightarrow> cpu_manager
     \<Rightarrow> (lookup_state option \<times> cpu_manager) res" where
  "lookup_pass q lq [] st m = Inr (Some st, m)"
| "lookup_pass q lq (idx # rest) st m =
     (case lookup_group q lq idx st m of
        Inl e \<Rightarrow> Inl e
      | Inr (None, m') \<Rightarrow> Inr (None, m')
      | Inr (Some st', m') \<Rightarrow> lookup_pass q lq rest st' m')"

text \<open>
  A pass that asks for another one has lowered the boundary below the larger of the boundary and the
  last hit at its start; this makes the search end.
\<close>

definition boundary :: "lookup_query \<Rightarrow> lookup_state \<Rightarrow> nat" where
  "boundary lq st = max (ls_max_hit st) (ls_num_hit st + num_locally_computed_tokens (lq_state lq))"

lemma lookup_update_bounds:
  assumes "lookup_update lq gc hits mx st = Some st'" "mx \<le> ls_max_hit st"
  shows "ls_max_hit st' = ls_num_hit st' + num_locally_computed_tokens (lq_state lq)"
    and "ls_max_hit st' \<le> ls_max_hit st"
    and "ls_groups st' \<noteq> ls_groups st \<Longrightarrow> ls_num_hit st' < ls_num_hit st"
  using assms by (auto simp: lookup_update_def Let_def split: if_splits option.splits)

lemma lookup_group_update:
  assumes "lookup_group q lq idx st m = Inr (Some st', m')"
  obtains mx hits where "mx \<le> ls_max_hit st"
    "lookup_update lq (kv_group_configs (lq_config lq) ! idx) hits mx st = Some st'"
proof -
  let ?gc = "kv_group_configs (lq_config lq) ! idx"
  let ?mx = "min (ls_max_hit st)
    (length (offload_keys (group_states (lq_state lq) ! idx)) * offloaded_block_size ?gc)"
  from assms obtain hits where "lookup_update lq ?gc hits ?mx st = Some st'"
    by (auto simp: lookup_group_def Let_def res_simps split: if_splits prod.splits)
  then show thesis using that [of ?mx hits] by simp
qed

lemma lookup_group_bounds:
  assumes "lookup_group q lq idx st m = Inr (Some st', m')"
  shows "boundary lq st' \<le> boundary lq st"
    and "ls_groups st' \<noteq> ls_groups st \<Longrightarrow> boundary lq st' < boundary lq st"
proof -
  obtain mx hits where u: "mx \<le> ls_max_hit st"
    "lookup_update lq (kv_group_configs (lq_config lq) ! idx) hits mx st = Some st'"
    using assms by (rule lookup_group_update)
  note b = lookup_update_bounds [OF u(2,1)]
  have "boundary lq st' = ls_max_hit st'" using b(1) by (simp add: boundary_def)
  then show "boundary lq st' \<le> boundary lq st" using b(2) by (simp add: boundary_def)
  assume "ls_groups st' \<noteq> ls_groups st"
  with b(1,3) \<open>boundary lq st' = ls_max_hit st'\<close> show "boundary lq st' < boundary lq st"
    by (simp add: boundary_def)
qed

lemma lookup_pass_bounds:
  "lookup_pass q lq is st m = Inr (Some st', m') \<Longrightarrow>
     boundary lq st' \<le> boundary lq st \<and> (ls_groups st' \<noteq> ls_groups st \<longrightarrow> boundary lq st' < boundary lq st)"
proof (induction "is" arbitrary: st m)
  case Nil
  then show ?case by simp
next
  case (Cons idx rest)
  from Cons.prems obtain st1 m1 where
    1: "lookup_group q lq idx st m = Inr (Some st1, m1)" "lookup_pass q lq rest st1 m1 = Inr (Some st', m')"
    by (auto split: sum.splits option.splits prod.splits)
  show ?case using Cons.IH [OF 1(2)] lookup_group_bounds [OF 1(1)] by (metis le_less_trans less_le_trans order_trans)
qed

function lookup_loop ::
  "block_lookup \<Rightarrow> lookup_query \<Rightarrow> nat list \<Rightarrow> lookup_state \<Rightarrow> cpu_manager
     \<Rightarrow> (lookup_state option \<times> cpu_manager) res" where
  "lookup_loop q lq groups st m =
     (if groups = [] then Inr (Some st, m)
      else case lookup_pass q lq groups (st\<lparr>ls_groups := [], ls_looked := False\<rparr>) m of
             Inl e \<Rightarrow> Inl e
           | Inr (None, m') \<Rightarrow> Inr (None, m')
           | Inr (Some st', m') \<Rightarrow> lookup_loop q lq (ls_groups st') st' m')"
  by pat_completeness auto
termination
proof (relation "measures [\<lambda>(q, lq, groups, st, m). boundary lq st, \<lambda>(q, lq, groups, st, m). length groups]",
    goal_cases)
  case (2 q lq groups st m r p m' st')
  then have "lookup_pass q lq groups (st\<lparr>ls_groups := [], ls_looked := False\<rparr>) m = Inr (Some st', m')"
    by simp
  from lookup_pass_bounds [OF this] 2(1) show ?case by (cases "ls_groups st'") (auto simp: boundary_def)
qed simp

declare lookup_loop.simps [simp del]

text \<open>The hit must wait when a block of it is already being loaded for another request.\<close>

definition hit_blocked :: "lookup_query \<Rightarrow> offload_key list option \<Rightarrow> nat \<Rightarrow> bool" where
  "hit_blocked lq loading num_hit =
     (case loading of
        None \<Rightarrow> False
      | Some bl \<Rightarrow>
          list_ex (\<lambda>(gc, gs).
              let sz = offloaded_block_size gc;
                  computed = num_locally_computed_tokens (lq_state lq);
                  keys = py_slice (computed div sz) (cdiv (computed + num_hit) sz) (offload_keys gs);
                  keys' = (case window_in_blocks gc of
                             None \<Rightarrow> keys | Some w \<Rightarrow> drop (length keys - w) keys)
              in list_ex (\<lambda>k. k \<in> set bl) keys')
            (zip (kv_group_configs (lq_config lq)) (group_states (lq_state lq))))"

definition offload_lookup ::
  "block_lookup \<Rightarrow> lookup_query \<Rightarrow> offload_key list option \<Rightarrow> cpu_manager
     \<Rightarrow> (nat option \<times> cpu_manager) res" where
  "offload_lookup q lq loading m =
     rbind (lookup_loop q lq (lq_groups lq)
              \<lparr>ls_max_hit = (if lq_windows lq = [] then lq_num_tokens lq else lq_num_tokens lq - 1),
               ls_num_hit = 0, ls_defer = False, ls_groups = [], ls_looked = False\<rparr> m) (\<lambda>(r, m').
       Inr (case r of
              None \<Rightarrow> Some 0
            | Some st \<Rightarrow>
                if ls_defer st then None
                else if hit_blocked lq loading (ls_num_hit st) then None
                else Some (ls_num_hit st), m'))"

subsection \<open>The groups to look up\<close>

definition full_groups :: "scheduler_offload_config \<Rightarrow> nat list" where
  "full_groups c = map group_idx (filter (\<lambda>g. window_in_blocks g = None) (kv_group_configs c))"

text \<open>\<open>list.sort\<close> is stable, also in reverse.\<close>

definition window_groups :: "scheduler_offload_config \<Rightarrow> nat list" where
  "window_groups c =
     rev (sort_key (\<lambda>i. the (window_in_blocks (kv_group_configs c ! i)))
       (rev (map group_idx (filter (\<lambda>g. window_in_blocks g \<noteq> None) (kv_group_configs c)))))"

definition config_ok :: "scheduler_offload_config \<Rightarrow> bool" where
  "config_ok c \<longleftrightarrow>
     (\<forall>i < length (kv_group_configs c). group_idx (kv_group_configs c ! i) = i
        \<and> 0 < offloaded_block_size (kv_group_configs c ! i)
        \<and> window_in_blocks (kv_group_configs c ! i) \<noteq> Some 0)"

subsection \<open>Soundness\<close>

text \<open>A lookup function is honest when it leaves the blocks alone and answers by their state: a miss, a
  ready block, or a block whose store is in flight.\<close>

definition honest :: "block_lookup \<Rightarrow> bool" where
  "honest q \<longleftrightarrow> (\<forall>k m r m'. q k m = Inr (r, m') \<longrightarrow> mget m' = mget m
     \<and> r = (case mget m k of None \<Rightarrow> Some False | Some b \<Rightarrow> if is_ready b then Some True else None))"

lemma honest_answer:
  assumes "honest q" "q k m = Inr (r, m')"
  shows "mget m' = mget m" and "r = Some True \<longleftrightarrow> loadable m k" and "r = Some False \<longleftrightarrow> mget m k = None"
proof -
  have a: "mget m' = mget m"
    "r = (case mget m k of None \<Rightarrow> Some False | Some b \<Rightarrow> if is_ready b then Some True else None)"
    using assms unfolding honest_def by blast+
  show "mget m' = mget m" by (rule a(1))
  show "r = Some True \<longleftrightarrow> loadable m k" "r = Some False \<longleftrightarrow> mget m k = None"
    unfolding a(2) by (auto simp: loadable_def split: option.splits)
qed

lemma lookup_honest: "honest lookup"
  unfolding honest_def
proof (intro allI impI)
  fix k m r m'
  assume "lookup k m = Inr (r, m')"
  then obtain m1 where m1: "track k m = Inr m1"
    "(r, m') = (case mget m1 k of None \<Rightarrow> (Some False, m1)
       | Some b \<Rightarrow> if \<not> is_ready b then (None, m1) else (Some True, m1))"
    unfolding lookup_def rbind_eq_Inr by auto
  have "mpolicy m1 = mpolicy m" using track_inv [OF m1(1)] by simp
  with m1(2) show "mget m' = mget m \<and>
      r = (case mget m k of None \<Rightarrow> Some False | Some b \<Rightarrow> if is_ready b then Some True else None)"
    by (auto split: option.splits if_splits)
qed

lemma loadable_cong: "mget m' = mget m \<Longrightarrow> loadable m' k = loadable m k"
  by (simp add: loadable_def)

text \<open>The prefix lookup counts the ready blocks up to the first miss.\<close>

lemma prefix_loop_spec:
  assumes "honest q" "prefix_loop q ks h d m = Inr (r, m')"
  shows "mget m' = mget m \<and> (\<forall>n. r = Some n \<longrightarrow> \<not> d \<and> h \<le> n \<and> n \<le> h + length ks
    \<and> (\<forall>i < n - h. loadable m (ks ! i)) \<and> (n < h + length ks \<longrightarrow> mget m (ks ! (n - h)) = None))"
  using assms(2)
proof (induction ks arbitrary: h d m)
  case Nil
  then show ?case by (auto split: if_splits)
next
  case (Cons k ks)
  from Cons.prems obtain a m1 where q: "q k m = Inr (a, m1)" by (auto split: sum.splits)
  note ans = honest_answer [OF assms(1) q]
  show ?case
  proof (cases a)
    case None
    with Cons.prems q have "prefix_loop q ks (h + 1) True m1 = Inr (r, m')" by simp
    from Cons.IH [OF this] ans(1) show ?thesis by simp
  next
    case (Some b)
    show ?thesis
    proof (cases b)
      case True
      with Cons.prems q Some have "prefix_loop q ks (h + 1) d m1 = Inr (r, m')" by simp
      note IH = Cons.IH [OF this]
      have k: "loadable m k" using ans(2) Some True by simp
      have c: "loadable m1 x = loadable m x" for x using ans(1) by (rule loadable_cong)
      show ?thesis
      proof (intro conjI allI impI)
        show "mget m' = mget m" using IH ans(1) by simp
      next
        fix n
        assume "r = Some n"
        with IH have n: "\<not> d" "h + 1 \<le> n" "n \<le> h + 1 + length ks"
          "\<forall>i < n - (h + 1). loadable m (ks ! i)" "n < h + 1 + length ks \<longrightarrow> mget m1 (ks ! (n - (h + 1))) = None"
          by (auto simp: c)
        then obtain j where j: "n - h = Suc j" "n - (h + 1) = j" by (metis Suc_diff_Suc Suc_eq_plus1 Suc_le_eq)
        show "\<not> d" "h \<le> n" "n \<le> h + length (k # ks)" using n by simp_all
        show "loadable m ((k # ks) ! i)" if "i < n - h" for i
          using that n(4) k unfolding j by (cases i) auto
        show "mget m ((k # ks) ! (n - h)) = None" if "n < h + length (k # ks)"
          using that n(5) ans(1) unfolding j by simp
      qed
    next
      case False
      with Cons.prems q Some ans show ?thesis by (auto split: if_splits)
    qed
  qed
qed

text \<open>The window lookup ends at the last run of ready blocks of the window's length, or at the ready
  blocks at the start.\<close>

lemma window_loop_spec:
  assumes "honest q" "window_loop q w ks n h d m = Inr (r, m')"
    and "\<forall>i. n \<le> i \<and> i < n + h \<longrightarrow> loadable m (ks ! i)" "n + h \<le> length ks" "h < w"
  shows "mget m' = mget m \<and> (\<forall>e. r = Some e \<longrightarrow> \<not> d \<and> e \<le> length ks
    \<and> (\<forall>i < e. e \<le> i + w \<longrightarrow> loadable m (ks ! i)))"
  using assms(2-)
proof (induction n arbitrary: h d m)
  case 0
  then show ?case by (auto split: if_splits)
next
  case (Suc n)
  from Suc.prems(1) obtain a m1 where q: "q (ks ! n) m = Inr (a, m1)" by (auto split: sum.splits)
  note ans = honest_answer [OF assms(1) q]
  have c: "loadable m1 k = loadable m k" for k using ans(1) by (rule loadable_cong)
  show ?case
  proof (cases "a = Some True")
    case True
    then have "loadable m (ks ! n)" using ans(2) by simp
    then have l: "loadable m (ks ! i)" if "n \<le> i" "i < n + (h + 1)" for i
      using that Suc.prems(2) by (cases "i = n") auto
    show ?thesis
    proof (cases "h + 1 = w")
      case True
      with \<open>a = Some True\<close> Suc.prems(1) q have "m' = m1" "r = (if d then None else Some (n + w))"
        by auto
      with True l ans(1) Suc.prems(3) show ?thesis by (auto split: if_splits)
    next
      case False
      with \<open>a = Some True\<close> Suc.prems(1) q have "window_loop q w ks n (h + 1) d m1 = Inr (r, m')" by simp
      from Suc.IH [OF this] l False Suc.prems(3,4) ans(1) show ?thesis by (simp add: c)
    qed
  next
    case False
    then obtain d' where "window_loop q w ks n 0 d' m1 = Inr (r, m')" "d \<longrightarrow> d'"
      using Suc.prems(1) q by (auto split: option.splits bool.splits)
    note IH = Suc.IH [OF this(1)]
    have "\<forall>i. n \<le> i \<and> i < n + 0 \<longrightarrow> loadable m1 (ks ! i)" "n + 0 \<le> length ks" "0 < w"
      using Suc.prems(3,4) by auto
    from IH [OF this] \<open>d \<longrightarrow> d'\<close> ans(1) show ?thesis by (auto simp: c)
  qed
qed

text \<open>
  The blocks of a group that a load up to a token boundary reads: from the first one not computed
  locally, and for a sliding window only the last ones.
\<close>

definition group_ready :: "lookup_query \<Rightarrow> (offload_key \<Rightarrow> bool) \<Rightarrow> nat \<Rightarrow> nat \<Rightarrow> bool" where
  "group_ready lq ready idx bound \<longleftrightarrow>
     (let gc = kv_group_configs (lq_config lq) ! idx;
          keys = offload_keys (group_states (lq_state lq) ! idx);
          sz = offloaded_block_size gc;
          stop = cdiv bound sz
      in stop \<le> length keys
         \<and> (\<forall>i. num_locally_computed_tokens (lq_state lq) div sz \<le> i \<and> i < stop
              \<and> (\<forall>w. window_in_blocks gc = Some w \<longrightarrow> stop \<le> i + w) \<longrightarrow> ready (keys ! i)))"

definition query_ok :: "lookup_query \<Rightarrow> bool" where
  "query_ok lq \<longleftrightarrow>
     config_ok (lq_config lq)
     \<and> length (group_states (lq_state lq)) = length (kv_group_configs (lq_config lq))
     \<and> set (lq_groups lq) = {..<length (kv_group_configs (lq_config lq))}
     \<and> set (lq_windows lq) =
         {i. i < length (kv_group_configs (lq_config lq))
             \<and> window_in_blocks (kv_group_configs (lq_config lq) ! i) \<noteq> None}"

lemma group_ready_mono:
  assumes "group_ready lq P idx b" "b' \<le> b"
    and "window_in_blocks (kv_group_configs (lq_config lq) ! idx) = None"
    and "0 < offloaded_block_size (kv_group_configs (lq_config lq) ! idx)"
  shows "group_ready lq P idx b'"
proof -
  let ?sz = "offloaded_block_size (kv_group_configs (lq_config lq) ! idx)"
  have "b \<le> cdiv b ?sz * ?sz" using cdiv_le_iff [OF assms(4), of b "cdiv b ?sz"] by simp
  then have "cdiv b' ?sz \<le> cdiv b ?sz" using assms(2) by (simp add: cdiv_le_iff [OF assms(4)])
  with assms(1,3) show ?thesis by (auto simp: group_ready_def Let_def)
qed

lemma group_lookup_spec:
  assumes "honest q" "sw \<noteq> Some 0"
    and "(case sw of None \<Rightarrow> maximal_prefix_lookup q ks m | Some w \<Rightarrow> sliding_window_lookup q ks w m) = Inr (r, m')"
  shows "mget m' = mget m \<and> (\<forall>h. r = Some h \<longrightarrow> h \<le> length ks
    \<and> (\<forall>i < h. (\<forall>w. sw = Some w \<longrightarrow> h \<le> i + w) \<longrightarrow> loadable m (ks ! i)))"
proof (cases sw)
  case None
  with assms(3) have "prefix_loop q ks 0 False m = Inr (r, m')" by (simp add: maximal_prefix_lookup_def)
  from prefix_loop_spec [OF assms(1) this] None show ?thesis by auto
next
  case (Some w)
  with assms(3) have "window_loop q w ks (length ks) 0 False m = Inr (r, m')"
    by (simp add: sliding_window_lookup_def)
  note l = this
  have e: "\<forall>i. length ks \<le> i \<and> i < length ks + 0 \<longrightarrow> loadable m (ks ! i)" "length ks + 0 \<le> length ks" "0 < w"
    using assms(2) Some by auto
  from window_loop_spec [OF assms(1) l e] Some show ?thesis by auto
qed

lemma lookup_group_ready:
  assumes "honest q" "lookup_group q lq idx st m = Inr (Some st', m')"
    and "0 < offloaded_block_size (kv_group_configs (lq_config lq) ! idx)"
    and "window_in_blocks (kv_group_configs (lq_config lq) ! idx) \<noteq> Some 0"
  obtains mx hits where "mget m' = mget m" "mx \<le> ls_max_hit st"
    "lookup_update lq (kv_group_configs (lq_config lq) ! idx) hits mx st = Some st'"
    "hits \<noteq> None \<Longrightarrow> group_ready lq (loadable m) idx (ls_max_hit st')"
proof -
  let ?gc = "kv_group_configs (lq_config lq) ! idx"
  let ?keys = "offload_keys (group_states (lq_state lq) ! idx)"
  let ?sz = "offloaded_block_size ?gc" and ?a = "num_locally_computed_tokens (lq_state lq)"
  let ?mx = "min (ls_max_hit st) (length ?keys * ?sz)"
  let ?ks = "py_slice (?a div ?sz) (min (cdiv ?mx ?sz) (length ?keys)) ?keys"
  from assms(2) obtain hits where l: "\<not> ?mx < ?a + ?sz"
    "(case window_in_blocks ?gc of None \<Rightarrow> maximal_prefix_lookup q ?ks m
        | Some w \<Rightarrow> sliding_window_lookup q ?ks w m) = Inr (hits, m')"
    "lookup_update lq ?gc hits ?mx st = Some st'"
    by (auto simp: lookup_group_def Let_def res_simps split: if_splits)
  have len: "length ?ks = cdiv ?mx ?sz - ?a div ?sz"
    and nth: "\<And>i. i < length ?ks \<Longrightarrow> ?ks ! i = ?keys ! (?a div ?sz + i)"
    using cdiv_le_iff [OF assms(3), of ?mx "length ?keys"] by (auto simp: py_slice_def)
  have stop: "?a div ?sz < cdiv ?mx ?sz" using l(1) by (intro div_less_cdiv assms(3)) linarith
  have spec: "mget m' = mget m \<and> (\<forall>h. hits = Some h \<longrightarrow> h \<le> length ?ks
    \<and> (\<forall>i < h. (\<forall>w. window_in_blocks ?gc = Some w \<longrightarrow> h \<le> i + w) \<longrightarrow> loadable m (?ks ! i)))"
    by (rule group_lookup_spec [OF assms(1,4) l(2)])
  have "group_ready lq (loadable m) idx (ls_max_hit st')" if "hits = Some h" for h
  proof -
    have h: "h \<le> length ?ks"
      "\<And>i. i < h \<Longrightarrow> (\<And>w. window_in_blocks ?gc = Some w \<Longrightarrow> h \<le> i + w) \<Longrightarrow> loadable m (?ks ! i)"
      using spec that by auto
    have "ls_max_hit st' = min ?mx (?sz * (?a div ?sz + h))"
      using l(3) that by (auto simp: lookup_update_def Let_def split: if_splits)
    then have e: "cdiv (ls_max_hit st') ?sz = ?a div ?sz + h"
      using h(1) stop by (simp add: cdiv_min_mult [OF assms(3)] len)
    have "?a div ?sz + h \<le> length ?keys"
      using h(1) len stop cdiv_le_iff [OF assms(3), of ?mx "length ?keys"] by simp
    moreover have "loadable m (?keys ! i)"
      if i: "?a div ?sz \<le> i" "i < ?a div ?sz + h"
        "\<forall>w. window_in_blocks ?gc = Some w \<longrightarrow> ?a div ?sz + h \<le> i + w" for i
      using h(2) [of "i - ?a div ?sz"] i nth [of "i - ?a div ?sz"] h(1) by fastforce
    ultimately show ?thesis unfolding group_ready_def Let_def e by blast
  qed
  then show thesis using that [of ?mx hits] spec l(3) by auto
qed


text \<open>
  The invariant of the search, with the groups still to be looked up in this pass: every group is
  among them, or scheduled for the next pass, or ready up to the current boundary, unless an answer was
  deferred.
\<close>

definition search_inv :: "lookup_query \<Rightarrow> (offload_key \<Rightarrow> bool) \<Rightarrow> nat list \<Rightarrow> lookup_state \<Rightarrow> bool" where
  "search_inv lq P rest st \<longleftrightarrow>
     set rest \<subseteq> set (lq_groups lq)
     \<and> ls_groups st \<in> {[], lq_windows lq, lq_groups lq}
     \<and> (ls_looked st \<or> set (lq_windows lq) \<subseteq> set rest)
     \<and> (ls_max_hit st = ls_num_hit st + num_locally_computed_tokens (lq_state lq)
        \<or> set (lq_groups lq) \<subseteq> set rest)
     \<and> (ls_defer st \<or> (\<forall>i \<in> set (lq_groups lq).
          i \<in> set rest \<or> i \<in> set (ls_groups st) \<or> group_ready lq P i (ls_max_hit st)))"

lemma search_inv_group:
  assumes "honest q" "query_ok lq" "search_inv lq (loadable m) (idx # rest) st"
    and "lookup_group q lq idx st m = Inr (Some st', m')"
  shows "search_inv lq (loadable m) rest st' \<and> mget m' = mget m \<and> ls_max_hit st' \<le> ls_max_hit st"
proof -
  let ?gc = "\<lambda>i. kv_group_configs (lq_config lq) ! i" and ?L = "set (lq_groups lq)"
  let ?W = "set (lq_windows lq)" and ?R = "group_ready lq (loadable m)"
  note inv = assms(3) [unfolded search_inv_def]
  have idx: "idx < length (kv_group_configs (lq_config lq))" using inv assms(2) by (auto simp: query_ok_def)
  have pos: "0 < offloaded_block_size (?gc i)" "window_in_blocks (?gc i) \<noteq> Some 0" if "i \<in> ?L" for i
    using assms(2) that by (auto simp: query_ok_def config_ok_def)
  have W: "i \<in> ?W \<longleftrightarrow> window_in_blocks (?gc i) \<noteq> None" if "i \<in> ?L" for i
    using assms(2) that by (auto simp: query_ok_def)
  have sub: "?W \<subseteq> ?L" using assms(2) by (auto simp: query_ok_def)
  have "idx \<in> ?L" using inv by simp
  then obtain mx hits where u: "mget m' = mget m" "mx \<le> ls_max_hit st"
    "lookup_update lq (?gc idx) hits mx st = Some st'" "hits \<noteq> None \<Longrightarrow> ?R idx (ls_max_hit st')"
    using lookup_group_ready [OF assms(1,4)] pos by metis
  note b = lookup_update_bounds [OF u(3,2)]
  have d: "ls_defer st' = ((ls_defer st \<or> hits = None) \<and> \<not> ls_num_hit st' < ls_num_hit st)"
    and g: "ls_groups st' = (if \<not> ls_num_hit st' < ls_num_hit st then ls_groups st
        else if ls_defer st \<or> hits = None then lq_groups lq
        else if ls_looked st \<and> ls_groups st = [] then lq_windows lq else ls_groups st)"
    and k: "ls_looked st' = (ls_looked st \<or> window_in_blocks (?gc idx) \<noteq> None)"
    using u(3) by (auto simp: lookup_update_def Let_def split: if_splits)
  have cover: "i \<in> set rest \<or> i \<in> set (ls_groups st') \<or> ?R i (ls_max_hit st')"
    if i: "i \<in> ?L" and nd: "\<not> ls_defer st'" for i
  proof (cases "ls_num_hit st' < ls_num_hit st \<and> (ls_defer st \<or> hits = None)")
    case True
    with i g show ?thesis by simp
  next
    case False
    with nd d have h: "\<not> ls_defer st" "hits \<noteq> None" by auto
    with inv i consider "i = idx" | "i \<in> set rest" | "i \<in> set (ls_groups st)" | "?R i (ls_max_hit st)" "i \<notin> set (idx # rest)"
      by auto
    then show ?thesis
    proof cases
      case 1
      with u(4) h(2) show ?thesis by simp
    next
      case 3
      then have "ls_groups st \<noteq> []" by auto
      with 3 h g show ?thesis by auto
    next
      case 4
      then have m: "ls_max_hit st = ls_num_hit st + num_locally_computed_tokens (lq_state lq)"
        using inv i by auto
      show ?thesis
      proof (cases "ls_num_hit st' < ls_num_hit st")
        case False
        with b(1,2) m have "ls_max_hit st' = ls_max_hit st" by linarith
        with 4(1) show ?thesis by simp
      next
        case True
        show ?thesis
        proof (cases "i \<in> ?W")
          case False
          with W [OF i] show ?thesis using group_ready_mono [OF 4(1) b(2)] pos(1) [OF i] by blast
        next
          case iw: True
          with inv 4(2) have "ls_looked st" by auto
          moreover have "ls_groups st \<noteq> [] \<Longrightarrow> i \<in> set (ls_groups st)" using inv iw i by auto
          ultimately show ?thesis using g True h iw by auto
        qed
      qed
    qed simp
  qed
  have "ls_groups st' \<in> {[], lq_windows lq, lq_groups lq}" using g inv by (auto split: if_splits)
  moreover have "ls_looked st' \<or> ?W \<subseteq> set rest"
    using k inv W [OF \<open>idx \<in> ?L\<close>] by auto
  ultimately show ?thesis using cover b(1,2) u(1) inv unfolding search_inv_def by auto
qed


lemma search_inv_pass:
  assumes "honest q" "query_ok lq"
  shows "search_inv lq (loadable m) is st \<Longrightarrow> lookup_pass q lq is st m = Inr (Some st', m') \<Longrightarrow>
    search_inv lq (loadable m) [] st' \<and> mget m' = mget m \<and> ls_max_hit st' \<le> ls_max_hit st"
proof (induction "is" arbitrary: st m)
  case Nil
  then show ?case by simp
next
  case (Cons idx rest)
  from Cons.prems(2) obtain st1 m1 where
    1: "lookup_group q lq idx st m = Inr (Some st1, m1)" "lookup_pass q lq rest st1 m1 = Inr (Some st', m')"
    by (auto split: sum.splits option.splits prod.splits)
  note g = search_inv_group [OF assms Cons.prems(1) 1(1)]
  then have c: "loadable m1 = loadable m" by (intro ext loadable_cong) simp
  have "search_inv lq (loadable m1) rest st1" using g unfolding c by simp
  from Cons.IH [OF this 1(2)] g show ?case unfolding c by simp
qed

definition loop_inv :: "lookup_query \<Rightarrow> (offload_key \<Rightarrow> bool) \<Rightarrow> nat list \<Rightarrow> lookup_state \<Rightarrow> bool" where
  "loop_inv lq P groups st \<longleftrightarrow>
     groups \<in> {[], lq_windows lq, lq_groups lq}
     \<and> (ls_max_hit st = ls_num_hit st + num_locally_computed_tokens (lq_state lq)
        \<or> set (lq_groups lq) \<subseteq> set groups)
     \<and> (ls_defer st \<or> (\<forall>i \<in> set (lq_groups lq). i \<in> set groups \<or> group_ready lq P i (ls_max_hit st)))"

lemma loop_inv_start:
  assumes "query_ok lq" "loop_inv lq P groups st" "groups \<noteq> []"
  shows "search_inv lq P groups (st\<lparr>ls_groups := [], ls_looked := False\<rparr>)"
proof -
  have "set (lq_windows lq) \<subseteq> set (lq_groups lq)" using assms(1) by (auto simp: query_ok_def)
  with assms(2,3) show ?thesis unfolding loop_inv_def search_inv_def by auto
qed

lemma loop_inv_end: "search_inv lq P [] st \<Longrightarrow> loop_inv lq P (ls_groups st) st"
  unfolding loop_inv_def search_inv_def by auto

lemma lookup_loop_inv:
  assumes "honest q" "query_ok lq"
  shows "lookup_loop q lq groups st m = Inr (Some st', m') \<Longrightarrow> loop_inv lq (loadable m) groups st \<Longrightarrow>
    loop_inv lq (loadable m) [] st' \<and> mget m' = mget m \<and> ls_max_hit st' \<le> ls_max_hit st"
  using assms
proof (induction q lq groups st m rule: lookup_loop.induct)
  case (1 q lq groups st m)
  note loop = 1(2) and inv = 1(3) and q = 1(4) and ok = 1(5)
  show ?case
  proof (cases "groups = []")
    case True
    with loop inv show ?thesis by (simp add: lookup_loop.simps)
  next
    case False
    let ?st = "st\<lparr>ls_groups := [], ls_looked := False\<rparr>"
    obtain st1 m1 where p: "lookup_pass q lq groups ?st m = Inr (Some st1, m1)"
      and l: "lookup_loop q lq (ls_groups st1) st1 m1 = Inr (Some st', m')"
      using loop False by (subst (asm) lookup_loop.simps) (auto split: sum.splits option.splits prod.splits)
    note s = search_inv_pass [OF q ok loop_inv_start [OF ok inv False] p]
    then have c: "loadable m1 = loadable m" by (intro ext loadable_cong) simp
    have i: "loop_inv lq (loadable m1) (ls_groups st1) st1" unfolding c using s by (intro loop_inv_end) simp
    from 1(1) [OF False p refl refl l i q ok] s show ?thesis unfolding c by simp
  qed
qed

subsection \<open>The configuration of a specification\<close>

lemma rfold_collect:
  "rfold (\<lambda>x ys. rbind (f x) (\<lambda>y. Inr (ys @ [y]))) xs acc = Inr zs \<Longrightarrow>
   \<exists>ys. zs = acc @ ys \<and> list_all2 (\<lambda>x y. f x = Inr y) xs ys"
proof (induction xs arbitrary: acc)
  case (Cons x xs)
  then obtain y where y: "f x = Inr y"
    "rfold (\<lambda>x ys. rbind (f x) (\<lambda>y. Inr (ys @ [y]))) xs (acc @ [y]) = Inr zs"
    by (auto simp: rbind_eq_Inr)
  from Cons.IH [OF y(2)] obtain ys where "zs = (acc @ [y]) @ ys" "list_all2 (\<lambda>x y. f x = Inr y) xs ys" by blast
  with y(1) show ?case by (intro exI [of _ "y # ys"]) simp
qed simp

lemma window_not_0:
  "get_sliding_window_size_in_blocks spec sz = Inr sw \<Longrightarrow> sw \<noteq> Some 0"
proof (cases spec)
  case (SlidingWindowSpec w)
  moreover assume "get_sliding_window_size_in_blocks spec sz = Inr sw"
  ultimately have "0 < w" "0 < sz" "sw = Some (cdiv w sz)"
    by (auto simp: get_sliding_window_size_in_blocks_def py_assert_def split: if_splits)
  then show ?thesis using cdiv_le_iff [of sz w 0] by simp
qed (auto simp: get_sliding_window_size_in_blocks_def)

lemma group_config_ok:
  "group_config sp t (i, g) = Inr c \<Longrightarrow> 0 < g \<Longrightarrow> 0 < sp_block_size_factor sp \<Longrightarrow>
   group_idx c = i \<and> 0 < offloaded_block_size c \<and> window_in_blocks c \<noteq> Some 0"
  by (auto simp: group_config_def group_window_def Let_def res_simps split: if_splits dest: window_not_0)

lemma from_spec_ok:
  assumes "from_spec sp = Inr c" "\<forall>g \<in> set (sp_gpu_block_size sp). 0 < g" "0 < sp_block_size_factor sp"
  shows "config_ok c"
proof -
  from assms(1) obtain t where
    "rfold (\<lambda>ig cs. rbind (group_config sp t ig) (\<lambda>c. Inr (cs @ [c])))
       (enumerate 0 (sp_gpu_block_size sp)) [] = Inr (kv_group_configs c)"
    by (auto simp: from_spec_def res_simps)
  from rfold_collect [OF this] have l: "list_all2 (\<lambda>ig c. group_config sp t ig = Inr c)
      (enumerate 0 (sp_gpu_block_size sp)) (kv_group_configs c)" by simp
  show ?thesis
    unfolding config_ok_def
  proof (intro allI impI)
    fix i
    assume "i < length (kv_group_configs c)"
    then have i: "i < length (sp_gpu_block_size sp)" using list_all2_lengthD [OF l] by simp
    then have "group_config sp t (i, sp_gpu_block_size sp ! i) = Inr (kv_group_configs c ! i)"
      using list_all2_nthD [OF l, of i] by (simp add: nth_enumerate_eq)
    from group_config_ok [OF this] assms(2,3) i show "group_idx (kv_group_configs c ! i) = i
        \<and> 0 < offloaded_block_size (kv_group_configs c ! i)
        \<and> window_in_blocks (kv_group_configs c ! i) \<noteq> Some 0" by simp
  qed
qed

lemma group_idx_filter:
  assumes "config_ok c"
  shows "set (map group_idx (filter P (kv_group_configs c))) =
    {i. i < length (kv_group_configs c) \<and> P (kv_group_configs c ! i)}"
proof -
  have "set (map group_idx (filter P xs)) = {group_idx (xs ! i) |i. i < length xs \<and> P (xs ! i)}" for xs
    by (auto simp: in_set_conv_nth image_def)
  with assms show ?thesis by (auto simp: config_ok_def) metis
qed

lemma query_ok_groups:
  assumes "config_ok c" "length (group_states rs) = length (kv_group_configs c)"
  shows "query_ok \<lparr>lq_config = c, lq_groups = full_groups c @ window_groups c,
    lq_windows = window_groups c, lq_state = rs, lq_num_tokens = n\<rparr>"
  using assms group_idx_filter [OF assms(1)] by (auto simp: query_ok_def full_groups_def window_groups_def)

subsection \<open>Properties\<close>

text \<open>
  \<^bold>\<open>C20\<close>. A hit that the lookup of offloaded prefixes reports can be loaded: it stays within the
  tokens of the request, every group has keys for it, every block that the load reads (all blocks of a
  full-attention group, the last window of a sliding-window group) is ready in the CPU cache, none of
  them is being loaded already, and the lookup has changed no block.
\<close>

theorem offload_hit_loadable:
  assumes "honest q" "query_ok lq" "offload_lookup q lq loading m = Inr (Some n, m')" "0 < n"
    and "bound = num_locally_computed_tokens (lq_state lq) + n"
  shows "bound \<le> lq_num_tokens lq \<and> mget m' = mget m \<and> \<not> hit_blocked lq loading n
    \<and> (\<forall>i < length (kv_group_configs (lq_config lq)). group_ready lq (loadable m) i bound)"
proof -
  let ?st = "\<lparr>ls_max_hit = (if lq_windows lq = [] then lq_num_tokens lq else lq_num_tokens lq - 1),
     ls_num_hit = 0, ls_defer = False, ls_groups = [], ls_looked = False\<rparr>"
  from assms(3,4) obtain st where st: "lookup_loop q lq (lq_groups lq) ?st m = Inr (Some st, m')"
    "\<not> ls_defer st" "ls_num_hit st = n" "\<not> hit_blocked lq loading n"
    by (auto simp: offload_lookup_def res_simps split: option.splits if_splits)
  have "loop_inv lq (loadable m) (lq_groups lq) ?st" by (simp add: loop_inv_def)
  note l = lookup_loop_inv [OF assms(1,2) st(1) this]
  have "lq_groups lq \<noteq> []"
  proof
    assume "lq_groups lq = []"
    with st(1,3) assms(4) show False by (auto simp: lookup_loop.simps)
  qed
  with l have b: "ls_max_hit st = bound" using st(3) assms(5) by (auto simp: loop_inv_def)
  have "ls_max_hit st \<le> lq_num_tokens lq" using l by (auto split: if_splits)
  moreover have "set (lq_groups lq) = {..<length (kv_group_configs (lq_config lq))}"
    using assms(2) by (simp add: query_ok_def)
  ultimately show ?thesis using l st(2,4) b by (auto simp: loop_inv_def)
qed


definition sample_groups :: offloading_spec where
  "sample_groups =
     \<lparr>sp_gpu_block_size = [2, 2], sp_block_size_factor = 1, sp_hash_block_size = 2,
      sp_groups = [FullAttentionSpec, SlidingWindowSpec 2], sp_world_size = 1\<rparr>"

definition sample_config :: scheduler_offload_config where
  "sample_config = projr (from_spec sample_groups)"

definition sample_query :: lookup_query where
  "sample_query =
     \<lparr>lq_config = sample_config, lq_groups = full_groups sample_config @ window_groups sample_config,
      lq_windows = window_groups sample_config,
      lq_state = \<lparr>ros_req_id = ''r'',
        group_states = [new_group_state\<lparr>offload_keys := [[1], [2]]\<rparr>, new_group_state\<lparr>offload_keys := [[3], [4]]\<rparr>],
        num_locally_computed_tokens = 0, transfer_jobs = []\<rparr>,
      lq_num_tokens = 5\<rparr>"

definition sample_cache :: cpu_manager where
  "sample_cache =
     \<lparr>num_blocks = 4, num_allocated_blocks = 3, free_list = [], events = None,
      mpolicy = LRU \<lparr>lru_policy.blocks = [([1], ready_ref (BlockStatus 0)), ([2], ready_ref (BlockStatus 1)),
                                         ([4], ready_ref (BlockStatus 2))]\<rparr>,
      store_threshold = 1, max_tracker_size = 8, counts = None\<rparr>"

lemma sample_config_eq:
  "sample_config = \<lparr>kv_group_configs =
      [\<lparr>group_idx = 0, gpu_block_size = 2, offloaded_block_size = 2, hash_block_size_factor = 1,
        window_in_blocks = None, alignment_block_count = None\<rparr>,
       \<lparr>group_idx = 1, gpu_block_size = 2, offloaded_block_size = 2, hash_block_size_factor = 1,
        window_in_blocks = Some 1, alignment_block_count = None\<rparr>],
     block_size_factor = 1, num_workers = 1\<rparr>"
  by (simp add: sample_config_def sample_groups_def from_spec_def full_attention_sizes_def group_window_def
      get_sliding_window_size_in_blocks_def group_config_def alignment_tokens_def alignment_count_def cdiv_def Let_def)

lemma sample_lookup: "offload_lookup lookup sample_query None sample_cache = Inr (Some 4, sample_cache)"
  by (simp add: offload_lookup_def sample_query_def full_groups_def window_groups_def sample_config_eq
      lookup_loop.simps lookup_group_def lookup_update_def maximal_prefix_lookup_def sliding_window_lookup_def
      py_slice_def cdiv_def lookup_def track_def sample_cache_def lru_get_def is_ready_def new_group_state_def
      hit_blocked_def Let_def)

theorem offload_hit_loadable_witness:
  "query_ok sample_query \<and> offload_lookup lookup sample_query None sample_cache = Inr (Some 4, sample_cache)
   \<and> group_ready sample_query (loadable sample_cache) 0 4 \<and> group_ready sample_query (loadable sample_cache) 1 4"
proof -
  have c: "config_ok sample_config" by (simp add: config_ok_def sample_config_eq less_Suc_eq numeral_2_eq_2)
  have ok: "query_ok sample_query"
    unfolding sample_query_def by (rule query_ok_groups [OF c]) (simp add: sample_config_eq)
  have "length (kv_group_configs (lq_config sample_query)) = 2" "num_locally_computed_tokens (lq_state sample_query) = 0"
    by (simp_all add: sample_query_def sample_config_eq)
  with offload_hit_loadable [OF lookup_honest ok sample_lookup, of 4] ok sample_lookup show ?thesis by simp
qed

end
