(* ===== verification/Offload_Scheduler.thy ===== *)
theory Offload_Scheduler
  imports Offload_Lookup
begin

section \<open>The native offloading scheduler\<close>

text \<open>
  The class \<open>OffloadingConnectorScheduler\<close> of
  \<^verbatim>\<open>vllm/distributed/kv_transfer/kv_connector/v1/offloading/scheduler.py\<close>: transfer jobs between the
  GPU blocks of requests and the CPU cache, the completion reports of the workers, and the fences that
  make a worker finish a store before the GPU blocks it reads are reused.

  The engine owns the request objects; an operation reads them through a function from request ids.
  Every request has one group state per group. Python sets of job ids, block ids and keys are lists without repetitions. Where the code takes an
  arbitrary element of a set of job ids, the model takes the first of the list. A failed operation
  raises, and the engine does not go on from its state.
\<close>

subsection \<open>State\<close>

record transfer_job_status =
  tj_req_id :: string
  pending_count :: int
  tj_keys :: "offload_key list"
  tj_is_store :: bool
  non_window_ids :: "nat list option"
  window_ids :: "nat list option"

datatype load_store_spec = CPUSpec "int list" | GPUSpec "nat list" "nat list" "nat list"

definition GPULoadStoreSpec :: "nat list \<Rightarrow> nat list \<Rightarrow> nat list \<Rightarrow> load_store_spec res" where
  "GPULoadStoreSpec ids sizes indices =
     py_assert (sum_list sizes = length ids)
       (py_assert (length indices = length sizes) (Inr (GPUSpec ids sizes indices)))"

record transfer_job =
  job_req_id :: string
  job_source :: load_store_spec
  job_target :: load_store_spec

record offload_scheduler =
  os_config :: scheduler_offload_config
  os_manager :: cpu_manager
  os_window_groups :: "nat list"
  os_lookup_groups :: "nat list"
  req_status :: "(string, request_offload_state) odict"
  load_jobs :: "(nat, transfer_job) odict"
  jobs_to_flush :: "nat list"
  blocks_being_loaded :: "offload_key list option"
  job_counter :: nat
  stale_job_threshold :: nat
  jobs :: "(nat, transfer_job_status) odict"
  block_pending_jobs :: "(nat, nat list) odict"

definition offload_scheduler_init ::
  "offloading_spec \<Rightarrow> cpu_manager \<Rightarrow> bool \<Rightarrow> offload_scheduler res" where
  "offload_scheduler_init sp m prefix_caching =
     rbind (from_spec sp) (\<lambda>c.
       Inr \<lparr>os_config = c, os_manager = m, os_window_groups = window_groups c,
            os_lookup_groups = full_groups c @ window_groups c, req_status = [], load_jobs = [],
            jobs_to_flush = [], blocks_being_loaded = (if prefix_caching then Some [] else None),
            job_counter = 0, stale_job_threshold = 0, jobs = [], block_pending_jobs = []\<rparr>)"

definition set_union :: "'a list \<Rightarrow> 'a list \<Rightarrow> 'a list" where
  "set_union xs ys = fold List.insert xs ys"

definition generate_job_id :: "offload_scheduler \<Rightarrow> nat \<times> offload_scheduler" where
  "generate_job_id s = (job_counter s, s\<lparr>job_counter := job_counter s + 1\<rparr>)"

definition remove_pending1 ::
  "nat \<Rightarrow> nat \<Rightarrow> (nat, nat list) odict \<Rightarrow> (nat, nat list) odict res" where
  "remove_pending1 j bid d =
     rbind (od_get bid d) (\<lambda>pending.
       if j \<notin> set pending then Inl KeyError
       else Inr (if remove1 j pending = [] then AList.delete bid d
                 else AList.update bid (remove1 j pending) d))"

definition remove_pending_job :: "nat \<Rightarrow> nat list option \<Rightarrow> offload_scheduler \<Rightarrow> offload_scheduler res" where
  "remove_pending_job j ids s =
     rbind (rfold (remove_pending1 j) (case ids of None \<Rightarrow> [] | Some bs \<Rightarrow> bs) (block_pending_jobs s)) (\<lambda>d.
       Inr (s\<lparr>block_pending_jobs := d\<rparr>))"

text \<open>\<open>setdefault(bid, set()).add(job_id)\<close> for every block.\<close>

definition watch1 :: "nat \<Rightarrow> nat \<Rightarrow> (nat, nat list) odict \<Rightarrow> (nat, nat list) odict" where
  "watch1 j bid d = AList.update bid (List.insert j (get_default [] bid d)) d"

definition watch_blocks :: "nat \<Rightarrow> nat list \<Rightarrow> offload_scheduler \<Rightarrow> offload_scheduler" where
  "watch_blocks j ids s = s\<lparr>block_pending_jobs := fold (watch1 j) ids (block_pending_jobs s)\<rparr>"

text \<open>The jobs that still read one of these blocks are to be flushed; the test for a common block only
  saves an empty update.\<close>

definition fence :: "nat list \<Rightarrow> offload_scheduler \<Rightarrow> offload_scheduler" where
  "fence ids s =
     s\<lparr>jobs_to_flush := set_union (concat (map (\<lambda>b. get_default [] b (block_pending_jobs s)) ids))
                          (jobs_to_flush s)\<rparr>"

definition put_request :: "string \<Rightarrow> request_offload_state \<Rightarrow> offload_scheduler \<Rightarrow> offload_scheduler" where
  "put_request i rs s = s\<lparr>req_status := AList.update i rs (req_status s)\<rparr>"

definition is_finished :: "request_status \<Rightarrow> bool" where
  "is_finished st \<longleftrightarrow>
     st \<in> {FINISHED_STOPPED, FINISHED_LENGTH_CAPPED, FINISHED_ABORTED, FINISHED_IGNORED,
            FINISHED_ERROR, FINISHED_REPETITION}"

subsection \<open>Matching a request\<close>

definition touch_request ::
  "scheduler_offload_config \<Rightarrow> request_offload_state \<Rightarrow> cpu_manager \<Rightarrow> cpu_manager" where
  "touch_request c rs m =
     fold (\<lambda>(gc, gs). touch (case window_in_blocks gc of
              None \<Rightarrow> offload_keys gs
            | Some w \<Rightarrow> drop (num_hit_blocks gs - w) (offload_keys gs)))
       (zip (kv_group_configs c) (group_states rs)) m"

definition query_of ::
  "offload_scheduler \<Rightarrow> request_offload_state \<Rightarrow> offload_request \<Rightarrow> lookup_query" where
  "query_of s rs r =
     \<lparr>lq_config = os_config s, lq_groups = os_lookup_groups s, lq_windows = os_window_groups s,
      lq_state = rs, lq_num_tokens = nat (num_tokens r)\<rparr>"

definition clear_block_ids :: "request_offload_state \<Rightarrow> request_offload_state" where
  "clear_block_ids rs = rs\<lparr>group_states := map (\<lambda>g. g\<lparr>gs_block_ids := []\<rparr>) (group_states rs)\<rparr>"

definition get_num_new_matched_tokens ::
  "offload_request \<Rightarrow> nat \<Rightarrow> offload_scheduler \<Rightarrow> ((nat option \<times> bool) \<times> offload_scheduler) res" where
  "get_num_new_matched_tokens r computed s =
     (let i = request_id r;
          is_new = (map_of (req_status s) i = None);
          rs0 = (case map_of (req_status s) i of
                   Some rs \<Rightarrow> clear_block_ids rs | None \<Rightarrow> RequestOffloadState (os_config s) i)
      in rbind (update_offload_keys (os_config s) (req_block_hashes r) rs0) (\<lambda>rs1.
           let rs2 = rs1\<lparr>num_locally_computed_tokens := computed\<rparr> in
           rbind (offload_lookup lookup (query_of s rs2 r) (blocks_being_loaded s) (os_manager s)) (\<lambda>(hit, m).
             let rs3 = (if is_new then
                          update_num_hit_blocks (os_config s) (computed + (case hit of None \<Rightarrow> 0 | Some n \<Rightarrow> n)) rs2
                        else rs2)
             in Inr ((hit, hit \<noteq> None \<and> hit \<noteq> Some 0),
                     put_request i rs3 (s\<lparr>os_manager := touch_request (os_config s) rs3 m\<rparr>)))))"

subsection \<open>Loading\<close>

text \<open>The blocks allocated to a request, per group with their numbers.\<close>

type_synonym allocated_blocks = "(nat \<times> kv_cache_block) list list"

definition first_pending :: "(nat \<times> kv_cache_block) list \<Rightarrow> nat" where
  "first_pending bs = length (takeWhile (\<lambda>(i, b). is_null b \<or> block_hash b \<noteq> None) bs)"

record load_plan =
  lp_keys :: "offload_key list"
  lp_ids :: "nat list"
  lp_sizes :: "nat list"
  lp_indices :: "nat list"
  lp_states :: "request_group_state list"

definition load_group ::
  "nat \<Rightarrow> nat \<Rightarrow> bool \<Rightarrow> nat \<Rightarrow> group_offload_config \<times> request_group_state \<times> (nat \<times> kv_cache_block) list
     \<Rightarrow> load_plan \<Rightarrow> load_plan res" where
  "load_group computed bound do_remote factor x p = (case x of (gc, gs, bs) \<Rightarrow>
     let num_gpu = cdiv bound (gpu_block_size gc);
         here = first_pending (take num_gpu bs);
         pending = num_gpu - here;
         num = cdiv bound (offloaded_block_size gc);
         keys = offload_keys gs
     in py_assert (length bs \<ge> num_gpu)
        (py_assert (computed \<le> here * gpu_block_size gc)
        (py_assert (\<forall>w. window_in_blocks gc = Some w \<longrightarrow> pending \<le> w * factor)
        (py_assert (length keys \<ge> num)
          (Inr \<lparr>lp_keys = lp_keys p @ (if pending = 0 then [] else py_slice (here div factor) num keys),
                lp_ids = lp_ids p @ map fst (py_slice here num_gpu bs),
                lp_sizes = lp_sizes p @ [pending], lp_indices = lp_indices p @ [here],
                lp_states = lp_states p @ [if do_remote then gs else gs\<lparr>next_stored_block_idx := num\<rparr>]\<rparr>)))))"

definition plan_load ::
  "scheduler_offload_config \<Rightarrow> bool \<Rightarrow> nat \<Rightarrow> allocated_blocks \<Rightarrow> request_offload_state \<Rightarrow> load_plan res" where
  "plan_load c do_remote external bs rs =
     rfold (load_group (num_locally_computed_tokens rs) (num_locally_computed_tokens rs + external)
              do_remote (block_size_factor c))
       (zip (kv_group_configs c) (zip (group_states rs) bs))
       \<lparr>lp_keys = [], lp_ids = [], lp_sizes = [], lp_indices = [], lp_states = []\<rparr>"

definition update_state_after_alloc ::
  "offload_request \<Rightarrow> allocated_blocks \<Rightarrow> nat \<Rightarrow> offload_scheduler \<Rightarrow> offload_scheduler res" where
  "update_state_after_alloc r bs external s =
     (if external = 0 then Inr s
      else rbind (od_get (request_id r) (req_status s)) (\<lambda>rs.
        rbind (plan_load (os_config s) (or_do_remote_decode r) external bs rs) (\<lambda>p.
        let s1 = fence (lp_ids p) s in
        rbind (prepare_load (lp_keys p) (os_manager s1)) (\<lambda>(src, m).
        rbind (GPULoadStoreSpec (lp_ids p) (lp_sizes p) (lp_indices p)) (\<lambda>dst.
        let (j, s2) = generate_job_id (s1\<lparr>os_manager := m\<rparr>) in
        py_assert (transfer_jobs rs = [])
          (Inr (put_request (request_id r)
                  (rs\<lparr>group_states := lp_states p @ drop (length (lp_states p)) (group_states rs),
                      transfer_jobs := [j]\<rparr>)
                  (s2\<lparr>load_jobs := AList.update j
                        \<lparr>job_req_id = request_id r, job_source = CPUSpec src, job_target = dst\<rparr> (load_jobs s2),
                      jobs := AList.update j
                        \<lparr>tj_req_id = request_id r, pending_count = int (num_workers (os_config s)),
                         tj_keys = remdups (lp_keys p), tj_is_store = False, non_window_ids = None,
                         window_ids = None\<rparr> (jobs s2),
                      blocks_being_loaded :=
                        map_option (set_union (lp_keys p)) (blocks_being_loaded s2)\<rparr>))))))))"

subsection \<open>Storing\<close>

text \<open>What \<open>yield_req_data\<close> gives for a scheduler output: the new requests, then the running ones with
  the mark of a resumed request.\<close>

record scheduler_output =
  so_new_reqs :: "(string \<times> nat list list) list"
  so_cached_reqs :: "(string \<times> nat list list option) list"
  so_resumed :: "string list"
  so_preempted :: "string list"
  so_num_scheduled_tokens :: "(string, nat) odict"
  so_total_num_scheduled_tokens :: nat

definition yield_req_data :: "scheduler_output \<Rightarrow> (string \<times> nat list list option \<times> bool) list" where
  "yield_req_data out =
     map (\<lambda>(i, bs). (i, Some bs, False)) (so_new_reqs out)
     @ map (\<lambda>(i, bs). (i, bs, i \<in> set (so_resumed out))) (so_cached_reqs out)"

text \<open>The keys of one group that are new: the last GPU block of each is not skipped, and a block of a
  sliding window can serve a load that ends at the alignment of the full-attention groups.\<close>

definition group_new_keys ::
  "nat \<Rightarrow> nat \<Rightarrow> group_offload_config \<times> request_group_state \<Rightarrow> offload_key list \<Rightarrow> offload_key list res" where
  "group_new_keys factor tokens x acc = (case x of (gc, gs) \<Rightarrow>
     let num = tokens div offloaded_block_size gc; start = next_stored_block_idx gs in
     if num \<le> start then Inr acc
     else
       let keys = py_slice start num (offload_keys gs);
           ids = every factor (drop (start * factor + factor - 1) (take (num * factor) (gs_block_ids gs)))
       in py_assert (length keys = length ids)
          (rfold (\<lambda>(n, k, b) acc.
              if b = 0 then Inr acc
              else case alignment_block_count gc of
                     None \<Rightarrow> Inr (acc @ [k])
                   | Some a \<Rightarrow>
                       (case window_in_blocks gc of
                          None \<Rightarrow> Inl AssertionError
                        | Some w \<Rightarrow>
                            Inr (if int ((start + n) mod a) < int a - int w then acc else acc @ [k])))
             (enumerate 0 (zip keys ids)) acc))"

text \<open>The GPU blocks of one group that a store reads, and the index of the first one.\<close>

record source_plan =
  src_ids :: "nat list"
  src_sizes :: "nat list"
  src_indices :: "nat list"
  src_window_ids :: "nat list"
  src_non_window_ids :: "nat list"
  src_states :: "request_group_state list"

definition source_block ::
  "nat list \<Rightarrow> nat \<Rightarrow> nat list \<times> nat option \<Rightarrow> (nat list \<times> nat option) res" where
  "source_block bids n a = (case a of (ids, start) \<Rightarrow>
     if length bids \<le> n then Inl IndexError
     else if bids ! n = 0 then py_assert (start = None) (Inr (ids, start))
     else Inr (ids @ [bids ! n], if start = None then Some n else start))"

definition source_group ::
  "nat \<Rightarrow> nat \<Rightarrow> offload_key list \<Rightarrow> group_offload_config \<times> request_group_state \<Rightarrow> source_plan \<Rightarrow> source_plan res" where
  "source_group factor tokens to_store x p = (case x of (gc, gs) \<Rightarrow>
     let num = tokens div offloaded_block_size gc; start = next_stored_block_idx gs in
     rbind (rfold (\<lambda>(n, k) a.
               if k \<notin> set to_store then Inr a
               else rfold (source_block (gs_block_ids gs))
                      (map (\<lambda>i. (start + n) * factor + i) [0..<factor]) a)
              (enumerate 0 (py_slice start num (offload_keys gs))) ([], None)) (\<lambda>(ids, first).
       Inr \<lparr>src_ids = src_ids p @ ids, src_sizes = src_sizes p @ [length ids],
            src_indices = src_indices p @ [case first of None \<Rightarrow> 0 | Some n \<Rightarrow> n],
            src_window_ids = src_window_ids p @ (if window_in_blocks gc \<noteq> None then ids else []),
            src_non_window_ids = src_non_window_ids p @ (if window_in_blocks gc = None then ids else []),
            src_states = src_states p @ [gs\<lparr>next_stored_block_idx := num\<rparr>]\<rparr>))"

definition plan_store ::
  "scheduler_offload_config \<Rightarrow> nat \<Rightarrow> offload_key list \<Rightarrow> request_offload_state \<Rightarrow> source_plan res" where
  "plan_store c tokens to_store rs =
     rfold (source_group (block_size_factor c) tokens to_store) (zip (kv_group_configs c) (group_states rs))
       \<lparr>src_ids = [], src_sizes = [], src_indices = [], src_window_ids = [], src_non_window_ids = [],
        src_states = []\<rparr>"

text \<open>A store may only be issued while no load of the request is pending.\<close>

definition only_stores :: "request_offload_state \<Rightarrow> offload_scheduler \<Rightarrow> unit res" where
  "only_stores rs s =
     (case transfer_jobs rs of
        [] \<Rightarrow> Inr ()
      | j # js \<Rightarrow> rbind (od_get j (jobs s)) (\<lambda>st. py_assert (tj_is_store st) (Inr ())))"

definition new_store_job ::
  "string \<Rightarrow> source_plan \<Rightarrow> prepare_store_output \<Rightarrow> request_offload_state
     \<Rightarrow> (nat, transfer_job) odict \<times> offload_scheduler \<Rightarrow> ((nat, transfer_job) odict \<times> offload_scheduler) res" where
  "new_store_job i p out rs x = (case x of (store_jobs, s) \<Rightarrow>
     rbind (GPULoadStoreSpec (src_ids p) (src_sizes p) (src_indices p)) (\<lambda>src.
     let (j, s1) = generate_job_id s in
     rbind (only_stores rs s1) (\<lambda>_.
     let s2 = watch_blocks j (src_window_ids p) s1 in
     Inr (AList.update j \<lparr>job_req_id = i, job_source = src, job_target = CPUSpec (store_spec out)\<rparr> store_jobs,
          put_request i (rs\<lparr>group_states := src_states p, transfer_jobs := List.insert j (transfer_jobs rs)\<rparr>)
            (s2\<lparr>jobs := AList.update j
                  \<lparr>tj_req_id = i, pending_count = int (num_workers (os_config s2)),
                   tj_keys = remdups (keys_to_store out), tj_is_store = True,
                   non_window_ids = Some (src_non_window_ids p),
                   window_ids = (if src_window_ids p = [] then None else Some (src_window_ids p))\<rparr>
                  (jobs s2)\<rparr>)))))"

definition store_request ::
  "offload_request \<Rightarrow> nat \<Rightarrow> request_offload_state \<Rightarrow> (nat, transfer_job) odict \<times> offload_scheduler
     \<Rightarrow> ((nat, transfer_job) odict \<times> offload_scheduler) res" where
  "store_request r scheduled rs x = (case x of (store_jobs, s) \<Rightarrow>
     let i = request_id r;
         c = os_config s;
         tokens = nat (min (num_computed_tokens r + int scheduled) (num_tokens r));
         advanced = (\<lambda>s. put_request i (advance_stored_idx c tokens rs) s)
     in rbind (rfold (group_new_keys (block_size_factor c) tokens)
                 (zip (kv_group_configs c) (group_states rs)) []) (\<lambda>keys.
        if keys = [] then Inr (store_jobs, advanced s)
        else rbind (prepare_store keys (os_manager s)) (\<lambda>(out, m).
          case out of
            None \<Rightarrow> Inr (store_jobs, s\<lparr>os_manager := m\<rparr>)
          | Some out \<Rightarrow>
              let s1 = s\<lparr>os_manager := m\<rparr> in
              if keys_to_store out = [] then Inr (store_jobs, advanced s1)
              else
                let s2 = s1\<lparr>os_manager := touch_request c rs (os_manager s1)\<rparr> in
                rbind (plan_store c tokens (keys_to_store out) rs) (\<lambda>p.
                  new_store_job i p out rs (store_jobs, s2)))))"

definition schedule_request ::
  "(string \<Rightarrow> offload_request) \<Rightarrow> (offload_request \<Rightarrow> bool) \<Rightarrow> scheduler_output
     \<Rightarrow> string \<times> nat list list option \<times> bool \<Rightarrow> (nat, transfer_job) odict \<times> offload_scheduler
     \<Rightarrow> ((nat, transfer_job) odict \<times> offload_scheduler) res" where
  "schedule_request reqs defer_store out x y = (case (x, y) of ((i, new, resumed), (store_jobs, s)) \<Rightarrow>
     rbind (od_get i (req_status s)) (\<lambda>rs0.
     rbind (update_offload_keys (os_config s) (req_block_hashes (reqs i)) rs0) (\<lambda>rs1.
     let rs2 = (if resumed then clear_block_ids rs1 else rs1);
         given = (case new of None \<Rightarrow> False | Some bs \<Rightarrow> bs \<noteq> [])
     in rbind (if given then update_block_id_groups new rs2 else Inr rs2) (\<lambda>rs3.
        let s1 = put_request i rs3 (if given then fence (concat (the new)) s else s) in
        if defer_store (reqs i) then Inr (store_jobs, s1)
        else rbind (od_get i (so_num_scheduled_tokens out)) (\<lambda>n.
               store_request (reqs i) n rs3 (store_jobs, s1))))))"

definition build_store_jobs ::
  "(string \<Rightarrow> offload_request) \<Rightarrow> (offload_request \<Rightarrow> bool) \<Rightarrow> scheduler_output \<Rightarrow> offload_scheduler
     \<Rightarrow> ((nat, transfer_job) odict \<times> offload_scheduler) res" where
  "build_store_jobs reqs defer_store out s =
     rfold (schedule_request reqs defer_store out) (yield_req_data out) ([], s)"

subsection \<open>Metadata for the workers\<close>

record connector_metadata =
  meta_load_jobs :: "(nat, transfer_job) odict"
  meta_store_jobs :: "(nat, transfer_job) odict"
  meta_jobs_to_flush :: "nat list"

definition flush_preempted :: "string \<Rightarrow> offload_scheduler \<Rightarrow> offload_scheduler res" where
  "flush_preempted i s =
     (case map_of (req_status s) i of
        None \<Rightarrow> Inr s
      | Some rs \<Rightarrow>
          if transfer_jobs rs = [] then Inr s
          else rbind (only_stores rs s) (\<lambda>_.
                 Inr (s\<lparr>jobs_to_flush := set_union (transfer_jobs rs) (jobs_to_flush s)\<rparr>)))"

definition flush_all_finished :: "(string \<Rightarrow> offload_request) \<Rightarrow> offload_scheduler \<Rightarrow> offload_scheduler" where
  "flush_all_finished reqs s =
     (if req_status s \<noteq> [] \<and> list_all (\<lambda>(i, rs). is_finished (or_status (reqs i))) (req_status s)
      then s\<lparr>jobs_to_flush := set_union (map fst (jobs s)) (jobs_to_flush s)\<rparr> else s)"

definition build_connector_meta ::
  "(string \<Rightarrow> offload_request) \<Rightarrow> (offload_request \<Rightarrow> bool) \<Rightarrow> scheduler_output \<Rightarrow> offload_scheduler
     \<Rightarrow> (connector_metadata \<times> offload_scheduler) res" where
  "build_connector_meta reqs defer_store out s =
     rbind (rfold flush_preempted (so_preempted out) s) (\<lambda>s1.
     rbind (build_store_jobs reqs defer_store out (flush_all_finished reqs s1)) (\<lambda>(store_jobs, s2).
       Inr (\<lparr>meta_load_jobs = load_jobs s2, meta_store_jobs = store_jobs,
             meta_jobs_to_flush = jobs_to_flush s2\<rparr>,
            s2\<lparr>load_jobs := [], jobs_to_flush := []\<rparr>)))"

subsection \<open>Completion and the end of requests\<close>

definition finish_transfer :: "transfer_job_status \<Rightarrow> offload_scheduler \<Rightarrow> offload_scheduler res" where
  "finish_transfer st s =
     (if tj_is_store st then
        rbind (complete_store (tj_keys st) True (os_manager s)) (\<lambda>m. Inr (s\<lparr>os_manager := m\<rparr>))
      else rbind (complete_load (tj_keys st) (os_manager s)) (\<lambda>m.
        Inr (s\<lparr>os_manager := m,
               blocks_being_loaded :=
                 map_option (filter (\<lambda>k. k \<notin> set (tj_keys st))) (blocks_being_loaded s)\<rparr>)))"

definition unwatch_job ::
  "(string \<Rightarrow> offload_request) \<Rightarrow> nat \<Rightarrow> transfer_job_status \<Rightarrow> offload_scheduler \<Rightarrow> offload_scheduler res" where
  "unwatch_job reqs j st s =
     (if block_pending_jobs s = [] then Inr s
      else rbind (remove_pending_job j (window_ids st) s) (\<lambda>s1.
        if is_finished (or_status (reqs (tj_req_id st))) then remove_pending_job j (non_window_ids st) s1
        else Inr s1))"

definition close_job ::
  "(string \<Rightarrow> offload_request) \<Rightarrow> nat \<Rightarrow> transfer_job_status \<Rightarrow> request_offload_state \<Rightarrow> offload_scheduler
     \<Rightarrow> offload_scheduler res" where
  "close_job reqs j st rs s =
     (if j \<notin> set (transfer_jobs rs) then Inl KeyError
      else
        let i = tj_req_id st;
            rs' = rs\<lparr>transfer_jobs := remove1 j (transfer_jobs rs)\<rparr>;
            s1 = s\<lparr>jobs := AList.delete j (jobs s)\<rparr>
        in Inr (if transfer_jobs rs' = [] \<and> is_finished (or_status (reqs i))
                then s1\<lparr>req_status := AList.delete i (req_status s1)\<rparr> else put_request i rs' s1))"

definition complete_job ::
  "(string \<Rightarrow> offload_request) \<Rightarrow> nat \<times> int \<Rightarrow> offload_scheduler \<Rightarrow> offload_scheduler res" where
  "complete_job reqs x s = (case x of (j, n) \<Rightarrow>
     py_assert (n > 0)
       (if j < stale_job_threshold s then Inr s
        else rbind (od_get j (jobs s)) (\<lambda>st0.
          let st = st0\<lparr>pending_count := pending_count st0 - n\<rparr>;
              s1 = s\<lparr>jobs := AList.update j st (jobs s)\<rparr>
          in if pending_count st > 0 then Inr s1
             else py_assert (pending_count st = 0)
               (rbind (od_get (tj_req_id st) (req_status s1)) (\<lambda>rs.
                rbind (finish_transfer st s1) (\<lambda>s2.
                rbind (unwatch_job reqs j st s2) (\<lambda>s3. close_job reqs j st rs s3)))))))"

definition update_connector_output ::
  "(string \<Rightarrow> offload_request) \<Rightarrow> (nat, int) odict \<Rightarrow> offload_scheduler \<Rightarrow> offload_scheduler res" where
  "update_connector_output reqs completed s = rfold (complete_job reqs) completed s"

definition watch_job :: "nat \<Rightarrow> offload_scheduler \<Rightarrow> offload_scheduler res" where
  "watch_job j s =
     rbind (od_get j (jobs s)) (\<lambda>st.
       Inr (watch_blocks j (case non_window_ids st of None \<Rightarrow> [] | Some ids \<Rightarrow> ids) s))"

definition request_finished :: "string \<Rightarrow> offload_scheduler \<Rightarrow> offload_scheduler res" where
  "request_finished i s =
     (case map_of (req_status s) i of
        None \<Rightarrow> Inr s
      | Some rs \<Rightarrow>
          if transfer_jobs rs = [] then Inr (s\<lparr>req_status := AList.delete i (req_status s)\<rparr>)
          else rfold watch_job (transfer_jobs rs) s)"

datatype offload_kv_event = OffBlockRemoved "bytes list" string | OffBlockStored "bytes list" string

definition offload_take_events :: "offload_scheduler \<Rightarrow> offload_kv_event list \<times> offload_scheduler" where
  "offload_take_events s =
     (case take_events (os_manager s) of (es, m) \<Rightarrow>
        (map (\<lambda>e. let hashes = map get_offload_block_hash (ev_keys e)
                  in if ev_removed e then OffBlockRemoved hashes (ev_medium e)
                     else OffBlockStored hashes (ev_medium e)) es,
         s\<lparr>os_manager := m\<rparr>))"

definition restart_stores :: "request_offload_state \<Rightarrow> request_offload_state" where
  "restart_stores rs = rs\<lparr>group_states := map (\<lambda>g. g\<lparr>next_stored_block_idx := 0\<rparr>) (group_states rs)\<rparr>"

definition offload_reset_cache :: "offload_scheduler \<Rightarrow> offload_scheduler res" where
  "offload_reset_cache s =
     py_assert (load_jobs s = [])
       (py_assert (jobs_to_flush s = [])
         (Inr (s\<lparr>jobs_to_flush := map fst (jobs s),
                 os_manager := reset_cache (os_manager s),
                 req_status := map (\<lambda>(i, rs). (i, restart_stores rs)) (req_status s),
                 stale_job_threshold := job_counter s,
                 jobs := [], block_pending_jobs := [],
                 blocks_being_loaded := map_option (\<lambda>_. []) (blocks_being_loaded s)\<rparr>)))"

subsection \<open>Fences\<close>

definition pending_of :: "offload_scheduler \<Rightarrow> nat \<Rightarrow> nat set" where
  "pending_of s b = set (get_default [] b (block_pending_jobs s))"

definition grows :: "offload_scheduler \<Rightarrow> offload_scheduler \<Rightarrow> bool" where
  "grows s s' \<longleftrightarrow> set (jobs_to_flush s) \<subseteq> set (jobs_to_flush s') \<and> (\<forall>b. pending_of s b \<subseteq> pending_of s' b)"

lemma grows_refl [simp]: "grows s s"
  by (simp add: grows_def)

lemma grows_trans [trans]: "grows s s' \<Longrightarrow> grows s' s'' \<Longrightarrow> grows s s''"
  by (fastforce simp: grows_def)

lemma set_set_union [simp]: "set (set_union xs ys) = set xs \<union> set ys"
  by (induction xs arbitrary: ys) (auto simp: set_union_def)

lemma get_default_update: "get_default z k (AList.update k' v d) = (if k = k' then v else get_default z k d)"
  by (simp add: get_default_def)

lemma pending_watch:
  "set (get_default [] b (fold (watch1 j) ids d)) = set (get_default [] b d) \<union> (if b \<in> set ids then {j} else {})"
  by (induction ids arbitrary: d) (auto simp: watch1_def get_default_update)

lemma pending_of_watch:
  "pending_of (watch_blocks j ids s) b = pending_of s b \<union> (if b \<in> set ids then {j} else {})"
  by (simp add: pending_of_def watch_blocks_def pending_watch)

lemma grows_watch: "grows s (watch_blocks j ids s)"
  by (auto simp: grows_def pending_of_watch) (simp add: watch_blocks_def)

lemma grows_fence: "grows s (fence ids s)"
  by (auto simp: grows_def fence_def pending_of_def)

lemma fence_covers: "b \<in> set ids \<Longrightarrow> pending_of s b \<subseteq> set (jobs_to_flush (fence ids s))"
  by (auto simp: fence_def pending_of_def)

lemma put_request_simps [simp]:
  "jobs_to_flush (put_request i rs s) = jobs_to_flush s" "block_pending_jobs (put_request i rs s) = block_pending_jobs s"
  "jobs (put_request i rs s) = jobs s" "os_config (put_request i rs s) = os_config s"
  "os_manager (put_request i rs s) = os_manager s" "job_counter (put_request i rs s) = job_counter s"
  "load_jobs (put_request i rs s) = load_jobs s" "stale_job_threshold (put_request i rs s) = stale_job_threshold s"
  "blocks_being_loaded (put_request i rs s) = blocks_being_loaded s"
  "req_status (put_request i rs s) = AList.update i rs (req_status s)"
  by (simp_all add: put_request_def)

lemma grows_cong:
  "jobs_to_flush s' = jobs_to_flush s \<Longrightarrow> block_pending_jobs s' = block_pending_jobs s \<Longrightarrow> grows s s'"
  by (simp add: grows_def pending_of_def)

lemma grows_new_store_job:
  assumes "new_store_job i p out rs (sj, s) = Inr (sj', s')"
  shows "grows s s'"
proof -
  let ?s1 = "s\<lparr>job_counter := job_counter s + 1\<rparr>"
  let ?s2 = "watch_blocks (job_counter s) (src_window_ids p) ?s1"
  have s: "jobs_to_flush s' = jobs_to_flush ?s2" "block_pending_jobs s' = block_pending_jobs ?s2"
    using assms by (auto simp: new_store_job_def generate_job_id_def Let_def res_simps)
  have "grows s ?s1" by (intro grows_cong) simp_all
  also have "grows ?s1 ?s2" by (rule grows_watch)
  also have "grows ?s2 s'" using s by (rule grows_cong)
  finally show ?thesis .
qed

lemma grows_store_request:
  assumes "store_request r n rs (sj, s) = Inr (sj', s')"
  shows "grows s s'"
proof -
  have "grows s s' \<or> (\<exists>p out m. new_store_job (request_id r) p out rs (sj, s\<lparr>os_manager := m\<rparr>) = Inr (sj', s'))"
    using assms
    by (auto simp: store_request_def Let_def res_simps grows_cong split: if_splits option.splits prod.splits)
  then show ?thesis
  proof
    assume "\<exists>p out m. new_store_job (request_id r) p out rs (sj, s\<lparr>os_manager := m\<rparr>) = Inr (sj', s')"
    then obtain p out m where "new_store_job (request_id r) p out rs (sj, s\<lparr>os_manager := m\<rparr>) = Inr (sj', s')" by blast
    from grows_new_store_job [OF this] show ?thesis using grows_trans [OF grows_cong [of "s\<lparr>os_manager := m\<rparr>" s]] by simp
  qed
qed

definition given :: "nat list list option \<Rightarrow> bool" where
  "given new = (case new of None \<Rightarrow> False | Some bs \<Rightarrow> bs \<noteq> [])"

lemma od_get_eq_Inr [res_simps]: "od_get k d = Inr v \<longleftrightarrow> map_of d k = Some v"
  by (simp add: od_get_def split: option.splits)

lemma schedule_requestE:
  assumes "schedule_request reqs d out (i, new, resumed) (sj, s) = Inr (sj', s')"
  obtains rs0 rs1 rs3 where "map_of (req_status s) i = Some rs0"
    "update_offload_keys (os_config s) (req_block_hashes (reqs i)) rs0 = Inr rs1"
    "(if given new then update_block_id_groups new (if resumed then clear_block_ids rs1 else rs1)
      else Inr (if resumed then clear_block_ids rs1 else rs1)) = Inr rs3"
    "s' = put_request i rs3 (if given new then fence (concat (the new)) s else s) \<and> sj' = sj
     \<or> (\<exists>n. store_request (reqs i) n rs3
              (sj, put_request i rs3 (if given new then fence (concat (the new)) s else s)) = Inr (sj', s'))"
proof -
  note a = assms [unfolded schedule_request_def Let_def given_def [symmetric] prod.case rbind_eq_Inr od_get_eq_Inr]
  from a obtain rs0 where 0: "map_of (req_status s) i = Some rs0" and a1: "\<exists>rs1.
      update_offload_keys (os_config s) (req_block_hashes (reqs i)) rs0 = Inr rs1 \<and> (\<exists>rs3.
      (if given new then update_block_id_groups new (if resumed then clear_block_ids rs1 else rs1)
       else Inr (if resumed then clear_block_ids rs1 else rs1)) = Inr rs3 \<and>
      (if d (reqs i) then Inr (sj, put_request i rs3 (if given new then fence (concat (the new)) s else s))
       else rbind (od_get i (so_num_scheduled_tokens out)) (\<lambda>n. store_request (reqs i) n rs3
              (sj, put_request i rs3 (if given new then fence (concat (the new)) s else s)))) = Inr (sj', s'))"
    by blast
  then obtain rs1 rs3 where 1: "update_offload_keys (os_config s) (req_block_hashes (reqs i)) rs0 = Inr rs1"
    "(if given new then update_block_id_groups new (if resumed then clear_block_ids rs1 else rs1)
      else Inr (if resumed then clear_block_ids rs1 else rs1)) = Inr rs3"
    and e: "(if d (reqs i) then Inr (sj, put_request i rs3 (if given new then fence (concat (the new)) s else s))
       else rbind (od_get i (so_num_scheduled_tokens out)) (\<lambda>n. store_request (reqs i) n rs3
              (sj, put_request i rs3 (if given new then fence (concat (the new)) s else s)))) = Inr (sj', s')"
    by blast
  show thesis
  proof (rule that [OF 0 1])
    show "s' = put_request i rs3 (if given new then fence (concat (the new)) s else s) \<and> sj' = sj
     \<or> (\<exists>n. store_request (reqs i) n rs3
              (sj, put_request i rs3 (if given new then fence (concat (the new)) s else s)) = Inr (sj', s'))"
      using e by (cases "d (reqs i)") (auto simp only: if_True if_False rbind_eq_Inr sum.inject prod.inject)
  qed
qed

lemma schedule_request_fences:
  assumes "schedule_request reqs d out (i, new, resumed) (sj, s) = Inr (sj', s')"
  shows "grows s s'" and "new = Some bs \<Longrightarrow> b \<in> set (concat bs) \<Longrightarrow> pending_of s b \<subseteq> set (jobs_to_flush s')"
proof -
  let ?f = "if given new then fence (concat (the new)) s else s"
  obtain rs3 where
    "s' = put_request i rs3 ?f \<and> sj' = sj \<or> (\<exists>n. store_request (reqs i) n rs3 (sj, put_request i rs3 ?f) = Inr (sj', s'))"
    using assms by (rule schedule_requestE)
  then have "grows (put_request i rs3 ?f) s'" using grows_store_request by auto
  moreover have "grows ?f (put_request i rs3 ?f)" by (intro grows_cong) simp_all
  ultimately have g: "grows ?f s'" by (rule grows_trans [rotated])
  then show "grows s s'" using grows_trans [OF _ g] grows_fence by auto
  assume "new = Some bs" "b \<in> set (concat bs)"
  then have "?f = fence (concat bs) s" by (auto simp: given_def)
  with g fence_covers [OF \<open>b \<in> set (concat bs)\<close>, of s] show "pending_of s b \<subseteq> set (jobs_to_flush s')"
    by (auto simp: grows_def)
qed

lemma build_store_jobs_fences:
  "rfold (schedule_request reqs d out) xs (sj, s) = Inr (sj', s') \<Longrightarrow>
   grows s s' \<and> (\<forall>i bs r. (i, Some bs, r) \<in> set xs \<longrightarrow>
     (\<forall>b \<in> set (concat bs). pending_of s b \<subseteq> set (jobs_to_flush s')))"
proof (induction xs arbitrary: sj s)
  case Nil
  then show ?case by simp
next
  case (Cons x xs)
  obtain i new r where x: "x = (i, new, r)" by (cases x)
  from Cons.prems obtain sj1 s1 where s1: "schedule_request reqs d out (i, new, r) (sj, s) = Inr (sj1, s1)"
    "rfold (schedule_request reqs d out) xs (sj1, s1) = Inr (sj', s')"
    by (auto simp: x rbind_eq_Inr)
  note f = schedule_request_fences [OF s1(1)] and IH = Cons.IH [OF s1(2)]
  have g: "grows s s'" using f(1) IH grows_trans by blast
  have "pending_of s b \<subseteq> set (jobs_to_flush s')"
    if "(i', Some bs, r') \<in> set (x # xs)" "b \<in> set (concat bs)" for i' bs r' b
  proof (cases "(i', Some bs, r') = x")
    case True
    with x f(2) [of bs b] that(2) IH show ?thesis by (auto simp: grows_def)
  next
    case False
    with that(1) have "(i', Some bs, r') \<in> set xs" by auto
    with that(2) IH have "pending_of s1 b \<subseteq> set (jobs_to_flush s')" by blast
    with f(1) show ?thesis by (auto simp: grows_def)
  qed
  with g show ?case by blast
qed

lemma flush_preempted_flushes:
  assumes "rfold flush_preempted ids s = Inr s'"
  shows "req_status s' = req_status s \<and> block_pending_jobs s' = block_pending_jobs s \<and> grows s s'
    \<and> (\<forall>i \<in> set ids. \<forall>rs. map_of (req_status s) i = Some rs \<longrightarrow> set (transfer_jobs rs) \<subseteq> set (jobs_to_flush s'))"
  using assms
proof (induction ids arbitrary: s)
  case Nil
  then show ?case by simp
next
  case (Cons i ids)
  then obtain s1 where s1: "flush_preempted i s = Inr s1" "rfold flush_preempted ids s1 = Inr s'"
    by (auto simp: rbind_eq_Inr)
  have "req_status s1 = req_status s" "block_pending_jobs s1 = block_pending_jobs s" "grows s s1"
    "\<forall>rs. map_of (req_status s) i = Some rs \<longrightarrow> set (transfer_jobs rs) \<subseteq> set (jobs_to_flush s1)"
    using s1(1) by (auto simp: flush_preempted_def rbind_eq_Inr grows_def pending_of_def split: option.splits if_splits)
  moreover note IH = Cons.IH [OF s1(2)]
  ultimately have "grows s s'" using grows_trans by blast
  moreover have "set (jobs_to_flush s1) \<subseteq> set (jobs_to_flush s')" using IH by (simp add: grows_def)
  ultimately show ?case
    using IH \<open>req_status s1 = req_status s\<close> \<open>block_pending_jobs s1 = block_pending_jobs s\<close>
      \<open>\<forall>rs. map_of (req_status s) i = Some rs \<longrightarrow> set (transfer_jobs rs) \<subseteq> set (jobs_to_flush s1)\<close>
    by (metis set_ConsD subset_trans)
qed



text \<open>Sample states for the witnesses: one request with a store in flight that reads blocks 1 and 2.\<close>

definition sample_request :: offload_request where
  "sample_request =
     \<lparr>request_id = ''r'', num_tokens = 5, num_prompt_tokens = 4, max_tokens = 8, num_computed_tokens = 4,
      num_output_tokens = 1, num_preemptions = 0, arrival_time = 0, priority = 0, has_encoder_inputs = False,
      skip_reading_prefix_cache = False, req_block_hashes = [], or_status = RUNNING,
      or_transfer_params = None, or_do_remote_decode = False, or_lifecycle = None\<rparr>"

definition sample_job :: transfer_job_status where
  "sample_job =
     \<lparr>tj_req_id = ''r'', pending_count = 1, tj_keys = [[1], [3]], tj_is_store = True,
      non_window_ids = Some [1], window_ids = Some [2]\<rparr>"

definition sample_scheduler :: offload_scheduler where
  "sample_scheduler =
     \<lparr>os_config = sample_config, os_manager = sample_cache, os_window_groups = window_groups sample_config,
      os_lookup_groups = full_groups sample_config @ window_groups sample_config,
      req_status = [(''r'', \<lparr>ros_req_id = ''r'', group_states = [new_group_state, new_group_state],
                            num_locally_computed_tokens = 0, transfer_jobs = [0]\<rparr>)],
      load_jobs = [], jobs_to_flush = [], blocks_being_loaded = Some [], job_counter = 1,
      stale_job_threshold = 0, jobs = [(0, sample_job)], block_pending_jobs = [(2, [0])]\<rparr>"

definition sample_output :: scheduler_output where
  "sample_output =
     \<lparr>so_new_reqs = [], so_cached_reqs = [(''r'', Some [[], [2]])], so_resumed = [], so_preempted = [],
      so_num_scheduled_tokens = [(''r'', 1)], so_total_num_scheduled_tokens = 1\<rparr>"




end
