(* ===== verification/Offloading.thy ===== *)
theory Offloading
  imports Offload_Scheduler
begin

section \<open>TokenCake's offloading scheduler\<close>

text \<open>
  \<^verbatim>\<open>vllm/tokencake/offloading.py\<close>: the extension of the native scheduler that keeps the prefix of a
  finished generation while its agent waits for a tool. It takes a snapshot of the prefix when the
  generation ends, decides once per step which snapshots are worth a place in the CPU cache, stores them
  with jobs that no request owns, and retains the stored blocks for the lifecycle.

  The native scheduler and the lifecycle registry share one CPU manager. The state keeps it in the
  native part; \<open>with_registry\<close> lends it to an operation of the registry. The GPU block pool is the
  one of the engine, which changes it between the operations. Successive readings of the clock are the
  values of a sequence. A record object that an expiry has removed from the registry is terminal, so a
  loop over records skips it.
\<close>

subsection \<open>State\<close>

record snapshot_block =
  sb_group :: nat
  sb_index :: nat
  sb_key :: offload_key
  sb_block_ids :: "nat list"
  sb_block_index :: nat

record detached_store =
  ds_lifecycle_id :: string
  ds_context :: req_context
  ds_source_ids :: "nat list"

record tokencake_scheduler =
  native :: offload_scheduler
  lifecycles :: registry
  tc_block_pool :: "block_pool option"
  tc_settings :: offload_config
  tc_temporal_selection :: temporal_selection
  num_cpu_blocks :: int
  bytes_per_block :: int
  shareable_groups :: "nat list"
  tc_step :: int
  unpublished :: "(nat, transfer_job) odict"
  detached :: "(nat, detached_store) odict"
  recent_stores :: "int list"
  bandwidth :: "(string, pyfloat) odict"
  clock_readings :: "nat \<Rightarrow> pyfloat"
  clock_at :: nat

definition tokencake_scheduler_init ::
  "offloading_spec \<Rightarrow> cpu_manager \<Rightarrow> bool \<Rightarrow> int \<Rightarrow> offload_config \<Rightarrow> temporal_selection \<Rightarrow> (nat \<Rightarrow> pyfloat)
     \<Rightarrow> tokencake_scheduler res" where
  "tokencake_scheduler_init sp m prefix_caching page cfg selection readings =
     rbind (offload_scheduler_init sp m prefix_caching) (\<lambda>s.
       py_assert (offload_enabled cfg)
         (Inr \<lparr>native = s, lifecycles = registry_init cfg (Some m), tc_block_pool = None,
               tc_settings = cfg, tc_temporal_selection = selection, num_cpu_blocks = int (num_blocks m),
               bytes_per_block = page,
               shareable_groups = filter (\<lambda>i. sp_groups sp ! i = FullAttentionSpec) [0..<length (sp_groups sp)],
               tc_step = 0, unpublished = [], detached = [], recent_stores = [], bandwidth = [],
               clock_readings = readings, clock_at = 0\<rparr>))"

abbreviation tc_manager :: "tokencake_scheduler \<Rightarrow> cpu_manager" where
  "tc_manager t \<equiv> os_manager (native t)"

abbreviation tc_config :: "tokencake_scheduler \<Rightarrow> scheduler_offload_config" where
  "tc_config t \<equiv> os_config (native t)"

definition read_clock :: "tokencake_scheduler \<Rightarrow> pyfloat \<times> tokencake_scheduler" where
  "read_clock t = (clock_readings t (clock_at t), t\<lparr>clock_at := clock_at t + 1\<rparr>)"

definition with_registry ::
  "(registry \<Rightarrow> ('a \<times> registry) res) \<Rightarrow> tokencake_scheduler \<Rightarrow> ('a \<times> tokencake_scheduler) res" where
  "with_registry f t =
     rbind (f ((lifecycles t)\<lparr>manager := Some (tc_manager t)\<rparr>)) (\<lambda>(x, r).
       Inr (x, t\<lparr>lifecycles := r,
                 native := (native t)\<lparr>os_manager :=
                   (case manager r of None \<Rightarrow> tc_manager t | Some m \<Rightarrow> m)\<rparr>\<rparr>))"

definition tc_count :: "metric \<Rightarrow> tokencake_scheduler \<Rightarrow> tokencake_scheduler" where
  "tc_count x t = t\<lparr>lifecycles := reg_count x (lifecycles t)\<rparr>"

definition tc_count_n :: "metric \<Rightarrow> nat \<Rightarrow> tokencake_scheduler \<Rightarrow> tokencake_scheduler res" where
  "tc_count_n x n t =
     rbind (count_metric x (int n) (metrics (lifecycles t))) (\<lambda>m.
       Inr (t\<lparr>lifecycles := (lifecycles t)\<lparr>metrics := m\<rparr>\<rparr>))"

definition get_record :: "string \<Rightarrow> tokencake_scheduler \<Rightarrow> lifecycle option" where
  "get_record i t = map_of (records (lifecycles t)) i"

definition change_record :: "string \<Rightarrow> (lifecycle \<Rightarrow> lifecycle) \<Rightarrow> tokencake_scheduler \<Rightarrow> tokencake_scheduler" where
  "change_record i f t =
     (case get_record i t of
        None \<Rightarrow> t
      | Some l \<Rightarrow> t\<lparr>lifecycles := (lifecycles t)\<lparr>records := AList.update i (f l) (records (lifecycles t))\<rparr>\<rparr>)"

definition tc_expire :: "tokencake_scheduler \<Rightarrow> tokencake_scheduler res" where
  "tc_expire t0 =
     (let (now, t) = read_clock t0
      in rbind (with_registry (\<lambda>r. rbind (expire now r) (\<lambda>r'. Inr ((), r'))) t) (\<lambda>(_, t'). Inr t'))"

definition tc_retain_ready :: "string \<Rightarrow> offload_key list \<Rightarrow> tokencake_scheduler \<Rightarrow> tokencake_scheduler res" where
  "tc_retain_ready i keys t0 =
     (let (now, t) = read_clock t0
      in rbind (with_registry (retain_ready i keys now) t) (\<lambda>(_, t'). Inr t'))"

subsection \<open>Recomputation and snapshots\<close>

definition defer_store :: "offload_request \<Rightarrow> bool" where
  "defer_store r \<longleftrightarrow> or_lifecycle r \<noteq> None"

definition peek_ready :: block_lookup where
  "peek_ready k m =
     Inr (case mget m k of None \<Rightarrow> Some False | Some b \<Rightarrow> if is_ready b then Some True else None, m)"

definition estimate_recompute_tokens :: "offload_request \<Rightarrow> tokencake_scheduler \<Rightarrow> int res" where
  "estimate_recompute_tokens r t =
     (let computed = max 0 (num_computed_tokens r) in
      if \<not> defer_store r \<or> skip_reading_prefix_cache r then Inr computed
      else
        rbind (update_offload_keys (tc_config t) (req_block_hashes r)
                 (RequestOffloadState (tc_config t) (request_id r))) (\<lambda>rs.
        rbind (offload_lookup peek_ready (query_of (native t) rs r) (blocks_being_loaded (native t))
                 (tc_manager t)) (\<lambda>(recoverable, _).
          Inr (max 0 (computed - (case recoverable of None \<Rightarrow> 0 | Some n \<Rightarrow> int n))))))"

definition snapshot_of_group ::
  "block_pool \<Rightarrow> nat \<Rightarrow> nat \<Rightarrow> bytes list \<Rightarrow> group_offload_config \<Rightarrow> nat list \<Rightarrow> snapshot_group res" where
  "snapshot_of_group pool factor computed hashes gc ids =
     (let hs = take (computed div offloaded_block_size gc)
                 (islice (hash_block_size_factor gc - 1) (hash_block_size_factor gc) hashes);
          bls = map (\<lambda>i. py_slice (i * factor) ((i + 1) * factor) ids) [0..<length hs]
      in rbind (rfold (\<lambda>h ks. rbind (make_offload_key h (group_idx gc)) (\<lambda>k. Inr (ks @ [k]))) hs []) (\<lambda>ks.
         if list_ex (list_ex (\<lambda>b. length (blocks pool) \<le> b)) bls then Inl IndexError
         else Inr \<lparr>sg_keys = ks, sg_block_ids = bls,
                   sg_gpu_hashes = map (map (\<lambda>b. block_hash (the_block pool b))) bls\<rparr>))"

definition capture_snapshot ::
  "offload_request \<Rightarrow> nat list list \<Rightarrow> tokencake_scheduler \<Rightarrow> prefix_snapshot res" where
  "capture_snapshot r ids t =
     (case tc_block_pool t of
        None \<Rightarrow> Inl AssertionError
      | Some pool \<Rightarrow>
          rbind (rmap2 (snapshot_of_group pool (block_size_factor (tc_config t))
                    (nat (min (num_computed_tokens r) (num_tokens r))) (req_block_hashes r))
                  (kv_group_configs (tc_config t)) ids) (\<lambda>gs.
            Inr \<lparr>ps_groups = gs,
                 ps_req_context = \<lparr>req_id = request_id r, kv_transfer_params = or_transfer_params r\<rparr>\<rparr>))"

definition tc_generation_finished ::
  "offload_request \<Rightarrow> nat list list \<Rightarrow> tokencake_scheduler \<Rightarrow> tokencake_scheduler res" where
  "tc_generation_finished r ids t0 =
     (case or_lifecycle r of
        None \<Rightarrow> Inr t0
      | Some i \<Rightarrow>
          let (c0, t1) = read_clock t0;
              (now, t) = read_clock t1;
              cause = (if or_status r = FINISHED_ABORTED then C_aborted
                       else if or_status r \<in> {FINISHED_ERROR, FINISHED_IGNORED} then C_error
                       else C_completed);
              live = (case get_record i t of None \<Rightarrow> False | Some l \<Rightarrow> terminal_at l = None)
          in rbind (if cause = C_completed \<and> live then rbind (capture_snapshot r ids t) (\<lambda>p. Inr (Some p))
                    else Inr None) (\<lambda>snap.
             rbind (with_registry (\<lambda>reg. rbind (generation_finished i cause snap c0 now reg) (\<lambda>r'. Inr ((), r'))) t)
               (\<lambda>(_, t'). Inr t')))"

subsection \<open>Candidates of a snapshot\<close>

definition block_matches :: "block_pool \<Rightarrow> nat \<Rightarrow> nat list \<Rightarrow> nat list \<Rightarrow> block_hash option list \<Rightarrow> bool" where
  "block_matches pool factor ids source_ids hashes \<longleftrightarrow>
     source_ids \<noteq> [] \<and> length ids = factor
     \<and> list_all (\<lambda>(b, expected). b \<noteq> 0 \<and> expected \<noteq> None \<and> block_hash (the_block pool b) = expected)
         (zip source_ids hashes)"

text \<open>One group, from the first block its window needs; a block that is neither in the CPU cache nor
  still unchanged on the GPU ends the prefix.\<close>

fun group_candidates ::
  "block_pool \<Rightarrow> lifecycle \<Rightarrow> nat \<Rightarrow> group_offload_config
     \<Rightarrow> (nat \<times> offload_key \<times> nat list \<times> block_hash option list) list \<Rightarrow> tokencake_scheduler
     \<Rightarrow> snapshot_block list \<times> tokencake_scheduler" where
  "group_candidates pool l g gc [] t = ([], t)"
| "group_candidates pool l g gc ((index, key, ids, hashes) # rest) t =
     (let factor = block_size_factor (tc_config t);
          cpu = mget (tc_manager t) key;
          offset = (if window_in_blocks gc = None then 0 else length (takeWhile (\<lambda>b. b = 0) ids));
          source_ids = drop offset ids
      in if cpu = None \<and> \<not> block_matches pool factor ids source_ids (drop offset hashes) then
           ([], tc_count M_PREFIX_GAP (tc_count M_STALE t))
         else if key \<in> set (retained l) \<or> key \<in> set (pending_retention l) then
           group_candidates pool l g gc rest t
         else if cpu = None \<and> g \<notin> set (shareable_groups t)
              \<and> list_ex (\<lambda>b. Block_Pool.ref_cnt (the_block pool b) \<noteq> 0) source_ids then
           group_candidates pool l g gc rest t
         else
           (let (cs, t') = group_candidates pool l g gc rest t
            in (\<lparr>sb_group = g, sb_index = index, sb_key = key, sb_block_ids = source_ids,
                 sb_block_index = index * factor + offset\<rparr> # cs, t')))"

definition window_start :: "group_offload_config \<Rightarrow> snapshot_group \<Rightarrow> nat" where
  "window_start gc sg = (case window_in_blocks gc of None \<Rightarrow> 0 | Some w \<Rightarrow> length (sg_keys sg) - w)"

definition snapshot_entries ::
  "group_offload_config \<Rightarrow> snapshot_group \<Rightarrow> (nat \<times> offload_key \<times> nat list \<times> block_hash option list) list" where
  "snapshot_entries gc sg =
     drop (window_start gc sg)
       (enumerate 0 (zip (sg_keys sg) (zip (sg_block_ids sg) (sg_gpu_hashes sg))))"

definition token_end :: "scheduler_offload_config \<Rightarrow> snapshot_block \<Rightarrow> nat" where
  "token_end c b = (sb_index b + 1) * offloaded_block_size (kv_group_configs c ! sb_group b)"

fun all_candidates ::
  "block_pool \<Rightarrow> lifecycle \<Rightarrow> (nat \<times> snapshot_group \<times> group_offload_config) list \<Rightarrow> tokencake_scheduler
     \<Rightarrow> snapshot_block list \<times> tokencake_scheduler" where
  "all_candidates pool l [] t = ([], t)"
| "all_candidates pool l ((g, sg, gc) # rest) t =
     (let (cs, t1) = group_candidates pool l g gc (snapshot_entries gc sg) t;
          (ds, t2) = all_candidates pool l rest t1
      in (cs @ ds, t2))"

definition snapshot_candidates ::
  "lifecycle \<Rightarrow> tokencake_scheduler \<Rightarrow> (snapshot_block list \<times> tokencake_scheduler) res" where
  "snapshot_candidates l t =
     (case (lc_snapshot l, tc_block_pool t) of
        (Some snap, Some pool) \<Rightarrow>
          (let (cs, t') = all_candidates pool l
                 (enumerate 0 (zip (ps_groups snap) (kv_group_configs (tc_config t)))) t
           in Inr (sort_key (\<lambda>b. (token_end (tc_config t) b, sb_group b)) cs, t'))
      | _ \<Rightarrow> Inl AssertionError)"

subsection \<open>Bounds of a preservation\<close>

definition group_indices :: "snapshot_block list \<Rightarrow> group_offload_config \<Rightarrow> nat list" where
  "group_indices cs gc = map sb_index (filter (\<lambda>b. sb_group b = group_idx gc) cs)"

definition common_end :: "group_offload_config list \<Rightarrow> snapshot_block list \<Rightarrow> nat" where
  "common_end configs cs =
     (let alignment = fold lcm (map offloaded_block_size configs) 1;
          e = Min (set (map (\<lambda>gc. (Max (set (group_indices cs gc)) + 1) * offloaded_block_size gc) configs))
      in e div alignment * alignment)"

definition window_complete :: "nat \<Rightarrow> snapshot_block list \<Rightarrow> group_offload_config \<Rightarrow> bool" where
  "window_complete e cs gc =
     (case window_in_blocks gc of
        None \<Rightarrow> True
      | Some w \<Rightarrow>
          (let stop = e div offloaded_block_size gc
           in list_all (\<lambda>i. i \<in> set (group_indices cs gc)) [stop - w..<stop]))"

definition bound_candidates ::
  "scheduler_offload_config \<Rightarrow> snapshot_block list \<Rightarrow> int \<Rightarrow> snapshot_block list" where
  "bound_candidates c candidates limit =
     (let cs = take (nat (limit div int (block_size_factor c))) candidates;
          configs = kv_group_configs c
      in if cs = [] \<or> length configs = 1 \<and> window_in_blocks (hd configs) = None then cs
         else if \<not> list_all (\<lambda>gc. group_indices cs gc \<noteq> []) configs then []
         else
           let e = common_end configs cs in
           if \<not> list_all (window_complete e cs) configs then []
           else filter (\<lambda>b. token_end c b \<le> e) cs)"

datatype direction = D2H | H2D

definition direction_name :: "direction \<Rightarrow> string" where
  "direction_name d = (case d of D2H \<Rightarrow> ''d2h'' | H2D \<Rightarrow> ''h2d'')"

definition estimate_transfer :: "tokencake_scheduler \<Rightarrow> nat \<Rightarrow> direction \<Rightarrow> pyfloat" where
  "estimate_transfer t n d =
     (let tr = transfer (tc_settings t);
          default = (case d of D2H \<Rightarrow> d2h_bandwidth_gbps tr * 10 ^ 9 | H2D \<Rightarrow> h2d_bandwidth_gbps tr * 10 ^ 9);
          base = (case d of D2H \<Rightarrow> d2h_base_time_s tr | H2D \<Rightarrow> h2d_base_time_s tr);
          bw = get_default default (direction_name d) (bandwidth t)
      in base + of_nat n * of_int (bytes_per_block t) / bw + of_nat n * submission_time_per_run_s tr)"

definition cpu_available :: "tokencake_scheduler \<Rightarrow> int" where
  "cpu_available t =
     (let protected = concat (map (tj_keys \<circ> snd) (jobs (native t)))
                      @ concat (map (retained \<circ> snd) (records (lifecycles t)))
      in max 0 (num_cpu_blocks t - int (length (remdups protected))))"

text \<open>The loop with the counts of the candidates and of the new ones among them so far.\<close>

fun limit_loop ::
  "tokencake_scheduler \<Rightarrow> int \<Rightarrow> pyfloat \<Rightarrow> snapshot_block list \<Rightarrow> nat \<Rightarrow> nat \<Rightarrow> nat \<Rightarrow> nat" where
  "limit_loop t available remaining [] n new limit = limit"
| "limit_loop t available remaining (b # bs) n new limit =
     (let new' = new + (if mget (tc_manager t) (sb_key b) = None then 1 else 0);
          n' = n + 1;
          tr = estimate_transfer t new' D2H + estimate_transfer t n' H2D
      in if int new' > available \<or> remaining - tr < max (5 / 100) (2 * tr) then limit
         else limit_loop t available remaining bs n' new' (n' * block_size_factor (tc_config t)))"

definition preservation_limit ::
  "snapshot_block list \<Rightarrow> int \<Rightarrow> pyfloat \<Rightarrow> tokencake_scheduler \<Rightarrow> nat" where
  "preservation_limit cs available remaining t = limit_loop t available remaining cs 0 0 0"

subsection \<open>Preservation stores\<close>

definition add_pending :: "offload_key list \<Rightarrow> cpu_manager \<Rightarrow> lifecycle \<Rightarrow> lifecycle" where
  "add_pending keys m l =
     l\<lparr>pending_retention :=
         fold List.insert (filter (\<lambda>k. case mget m k of None \<Rightarrow> False | Some b \<Rightarrow> \<not> is_ready b) keys)
           (pending_retention l)\<rparr>"

definition group_sources :: "snapshot_block list \<Rightarrow> offload_key list \<Rightarrow> nat \<Rightarrow> snapshot_block list" where
  "group_sources ordered new_keys g = filter (\<lambda>b. sb_group b = g \<and> sb_key b \<in> set new_keys) ordered"

definition detach_store ::
  "string \<Rightarrow> req_context \<Rightarrow> snapshot_block list \<Rightarrow> prepare_store_output \<Rightarrow> tokencake_scheduler
     \<Rightarrow> tokencake_scheduler res" where
  "detach_store i context ordered prepared t =
     (let new_keys = remdups (keys_to_store prepared);
          selected = map (group_sources ordered new_keys) [0..<length (kv_group_configs (tc_config t))];
          group_ids = map (\<lambda>bs. concat (map sb_block_ids bs)) selected;
          sources = concat group_ids;
          indices = map (\<lambda>bs. case bs of [] \<Rightarrow> 0 | b # _ \<Rightarrow> sb_block_index b) selected;
          (j, s1) = generate_job_id (native t);
          s2 = watch_blocks j sources
                 (s1\<lparr>jobs := AList.update j
                      \<lparr>tj_req_id = req_id context, pending_count = int (num_workers (tc_config t)),
                       tj_keys = new_keys, tj_is_store = True, non_window_ids = None, window_ids = None\<rparr>
                      (jobs s1)\<rparr>)
      in rbind (GPULoadStoreSpec sources (map length group_ids) indices) (\<lambda>src.
           Inr (t\<lparr>native := s2,
                  detached := AList.update j
                    \<lparr>ds_lifecycle_id = i, ds_context = context, ds_source_ids = sources\<rparr> (detached t),
                  unpublished := AList.update j
                    \<lparr>job_req_id = req_id context, job_source = src, job_target = CPUSpec (store_spec prepared)\<rparr>
                    (unpublished t)\<rparr>)))"

text \<open>\<open>deque(maxlen=96)\<close>.\<close>

definition push_recent :: "int \<Rightarrow> int list \<Rightarrow> int list" where
  "push_recent x xs = (let ys = xs @ [x] in drop (length ys - 96) ys)"

definition register_store ::
  "string \<Rightarrow> snapshot_block list \<Rightarrow> tokencake_scheduler \<Rightarrow> (metric \<times> tokencake_scheduler) res" where
  "register_store i candidates t0 =
     (case Option.bind (get_record i t0) lc_snapshot of
        None \<Rightarrow> Inl AssertionError
      | Some snap \<Rightarrow>
          let context = ps_req_context snap;
              ordered = sort_key (\<lambda>b. (sb_group b, sb_index b)) candidates;
              keys = map sb_key ordered
          in rbind (prepare_store keys (tc_manager t0)) (\<lambda>(out, m).
             let t1 = t0\<lparr>native := (native t0)\<lparr>os_manager := m\<rparr>\<rparr> in
             case out of
               None \<Rightarrow> Inr (M_CPU_CAPACITY, t1)
             | Some prepared \<Rightarrow>
                 rbind (tc_retain_ready i keys t1) (\<lambda>t2.
                 if \<not> (case get_record i t2 of None \<Rightarrow> False | Some l \<Rightarrow> owns_preservation l) then
                   rbind (complete_store (keys_to_store prepared) False (tc_manager t2)) (\<lambda>m'.
                     Inr (M_UNPROFITABLE, t2\<lparr>native := (native t2)\<lparr>os_manager := m'\<rparr>\<rparr>))
                 else
                   let t3 = change_record i (add_pending keys (tc_manager t2)) t2 in
                   if keys_to_store prepared = [] then
                     Inr (case get_record i t3 of
                            None \<Rightarrow> M_UNPROFITABLE
                          | Some l \<Rightarrow> if retained l \<noteq> [] \<or> pending_retention l \<noteq> [] then M_SELECTED
                                     else M_UNPROFITABLE, t3)
                   else
                     rbind (detach_store i context ordered prepared t3) (\<lambda>t4.
                       Inr (M_SELECTED,
                            (change_record i (\<lambda>l. l\<lparr>last_store_step := tc_step t4\<rparr>) t4)
                              \<lparr>recent_stores := push_recent (tc_step t4) (recent_stores t4)\<rparr>)))))"

subsection \<open>Evaluation of the pending snapshots\<close>

definition agent_score_of :: "scheduler_view \<Rightarrow> lifecycle \<Rightarrow> pyfloat" where
  "agent_score_of view l =
     (case sv_controller view of
        None \<Rightarrow> 0
      | Some c \<Rightarrow> get_default 0 (agent_type (lc_metadata l)) (plan_scores (plan c)))"

definition churn_of :: "lifecycle \<Rightarrow> tokencake_scheduler \<Rightarrow> pyfloat" where
  "churn_of l t =
     (if tc_step t - last_store_step l \<le> 4 then 15 / 10 else 0)
     + min 4 (of_int (max 0 (int (length (recent_stores t)) - 64)) / 8)"

definition uncached_blocks :: "snapshot_block list \<Rightarrow> tokencake_scheduler \<Rightarrow> nat" where
  "uncached_blocks cs t = length (filter (\<lambda>b. mget (tc_manager t) (sb_key b) = None) cs)"

definition benefit_of ::
  "lifecycle \<Rightarrow> snapshot_block list \<Rightarrow> int \<Rightarrow> pyfloat \<Rightarrow> scheduler_view \<Rightarrow> tokencake_scheduler \<Rightarrow> benefit_args" where
  "benefit_of l cs available remaining view t =
     \<lparr>ba_blocks = int (length cs * block_size_factor (tc_config t)), ba_cpu_available = available,
      ba_cpu_needed = int (uncached_blocks cs t), ba_duration = remaining,
      ba_transfer_time = estimate_transfer t (uncached_blocks cs t) D2H + estimate_transfer t (length cs) H2D,
      ba_agent_score = agent_score_of view l, ba_churn_penalty = churn_of l t\<rparr>"

definition relief_limit ::
  "pressure \<Rightarrow> snapshot_block list \<Rightarrow> int \<Rightarrow> pyfloat \<Rightarrow> tokencake_scheduler \<Rightarrow> int" where
  "relief_limit p cs available remaining t =
     (if max_relief_blocks (tc_settings t) \<noteq> 0
      then min (fit_demand p) (max_relief_blocks (tc_settings t))
      else int (preservation_limit cs available remaining t))"

text \<open>A selected snapshot: the release deadline is set from the time to load it back, which may end the
  ownership at once.\<close>

definition commit_store ::
  "string \<Rightarrow> snapshot_block list \<Rightarrow> tokencake_scheduler \<Rightarrow> (metric \<times> tokencake_scheduler) res" where
  "commit_store i cs t0 =
     (case get_record i t0 of
        None \<Rightarrow> Inl KeyError
      | Some l \<Rightarrow>
          let (now, t) = read_clock t0;
              seconds = estimate_transfer t (length cs + length (retained l)) H2D
          in rbind (with_registry (\<lambda>r. rbind (set_h2d_estimate l seconds now r) (\<lambda>lr. Inr ((), set_record i lr))) t)
               (\<lambda>(_, t1).
                if (case get_record i t1 of None \<Rightarrow> False | Some l' \<Rightarrow> owns_preservation l')
                then register_store i cs t1 else Inr (M_SELECTED, t1)))"

definition decide ::
  "scheduler_view \<Rightarrow> pressure \<Rightarrow> string \<Rightarrow> lifecycle \<Rightarrow> tokencake_scheduler \<Rightarrow> tokencake_scheduler res" where
  "decide view p i l t0 =
     (let available = cpu_available t0;
          sig = signature p @ [available]
      in if backoff_signature l = Some sig \<and> tc_step t0 < next_evaluation_step l then
           Inr (tc_count M_BACKOFF t0)
         else case started_at l of
           None \<Rightarrow> Inl AssertionError
         | Some s0 \<Rightarrow>
             let (now, t1) = read_clock t0;
                 remaining = max 0 (s0 + predicted_duration l - now)
             in rbind (snapshot_candidates l t1) (\<lambda>(candidates, t2).
                let limit = relief_limit p candidates available remaining t2;
                    cs = bound_candidates (tc_config t2) candidates limit;
                    t3 = (if candidates \<noteq> [] \<and> limit > 0 \<and> cs = [] then tc_count M_PREFIX_GAP t2 else t2);
                    verdict = reason (evaluate_benefit (tc_settings t3) (lc_metadata l) p
                                        (benefit_of l cs available remaining view t3));
                    r0 = (if fit_demand p = 0 then M_NO_WAITING_DEMAND else verdict)
                in rbind (if r0 = M_SELECTED then commit_store i cs t3 else Inr (r0, t3)) (\<lambda>(r, t4).
                   let t5 = tc_count r t4
                   in Inr (change_record i (\<lambda>l'. if r = M_SELECTED then l'\<lparr>backoff_signature := None\<rparr>
                              else l'\<lparr>backoff_signature := Some sig,
                                      next_evaluation_step := tc_step t5 + backoff_steps (tc_settings t5)\<rparr>) t5))))"

definition evaluate1 ::
  "scheduler_view \<Rightarrow> string \<Rightarrow> pressure option \<times> tokencake_scheduler
     \<Rightarrow> (pressure option \<times> tokencake_scheduler) res" where
  "evaluate1 view i x = (case x of (p, t0) \<Rightarrow>
     (case get_record i t0 of
        None \<Rightarrow> Inr (p, t0)
      | Some l0 \<Rightarrow>
          let l = l0\<lparr>pending_evaluation := False\<rparr>;
              t = change_record i (\<lambda>_. l) t0
          in if \<not> owns_preservation l then Inr (p, t)
             else if retained l \<noteq> [] \<or> pending_retention l \<noteq> [] then Inr (p, t)
             else if \<not> offload_eligible (lc_metadata l) \<or> \<not> reusable_prefix (lc_metadata l) then
               Inr (p, tc_count M_NOT_ELIGIBLE t)
             else if lc_snapshot l = None then Inr (p, tc_count M_EMPTY t)
             else
               rbind (case p of
                        Some q \<Rightarrow> Inr q
                      | None \<Rightarrow> waiting_pressure view (eviction_window_blocks (tc_settings t))
                                  (tc_temporal_selection t)) (\<lambda>q.
               rbind (decide view q i l t) (\<lambda>t'. Inr (Some q, t')))))"

definition observe_frontier :: "tokencake_scheduler \<Rightarrow> tokencake_scheduler res" where
  "observe_frontier t =
     (case tc_block_pool t of
        None \<Rightarrow> Inl AssertionError
      | Some pool \<Rightarrow>
          let known = concat (map (\<lambda>(i, l).
                if owns_preservation l then
                  (case lc_snapshot l of
                     None \<Rightarrow> []
                   | Some snap \<Rightarrow> List.map_filter id (concat (concat (map sg_gpu_hashes (ps_groups snap)))))
                else []) (records (lifecycles t)))
          in if known = [] then Inr t
             else rbind (peek_free_block_frontier (eviction_window_blocks (tc_settings t)) pool) (\<lambda>observed.
               tc_count_n M_EXTERNAL
                 (length (filter (\<lambda>(_, h). case h of None \<Rightarrow> False | Some x \<Rightarrow> x \<notin> set known) observed)) t))"

definition evaluate_pending ::
  "scheduler_view \<Rightarrow> bool \<Rightarrow> tokencake_scheduler \<Rightarrow> tokencake_scheduler res" where
  "evaluate_pending view new_step t0 =
     rbind (tc_expire t0) (\<lambda>t1.
       let t2 = (if new_step then t1\<lparr>tc_step := tc_step t1 + 1\<rparr> else t1);
           t3 = t2\<lparr>recent_stores := dropWhile (\<lambda>x. tc_step t2 - x > 4) (recent_stores t2)\<rparr>
       in rbind (rfold (evaluate1 view) (map fst (records (lifecycles t3))) (None, t3)) (\<lambda>(_, t4).
            observe_frontier t4))"

subsection \<open>Metadata, completion and reset\<close>

definition has_unpublished :: "tokencake_scheduler \<Rightarrow> bool" where
  "has_unpublished t \<longleftrightarrow> unpublished t \<noteq> []"

definition has_pending_work :: "tokencake_scheduler \<Rightarrow> bool" where
  "has_pending_work t \<longleftrightarrow> detached t \<noteq> [] \<or> unpublished t \<noteq> [] \<or> jobs_to_flush (native t) \<noteq> []"

definition tc_build_connector_meta ::
  "(string \<Rightarrow> offload_request) \<Rightarrow> scheduler_output \<Rightarrow> tokencake_scheduler
     \<Rightarrow> (connector_metadata \<times> tokencake_scheduler) res" where
  "tc_build_connector_meta reqs out t =
     py_assert (unpublished t \<noteq> [] \<longrightarrow> so_total_num_scheduled_tokens out = 0)
       (rbind (build_connector_meta reqs defer_store out (native t)) (\<lambda>(meta, s).
          let new = map fst (unpublished t);
              flush1 = filter (\<lambda>j. j \<notin> set new) (meta_jobs_to_flush meta);
              flush = (if so_total_num_scheduled_tokens out = 0 \<and> unpublished t = []
                       then set_union (map fst (detached t)) flush1 else flush1);
              t1 = t\<lparr>native := s, unpublished := []\<rparr>;
              t2 = (if list_ex (\<lambda>j. has_key j (detached t)) flush then tc_count M_FENCE_WAIT t1 else t1)
          in Inr (meta\<lparr>meta_store_jobs := fold (\<lambda>(j, job). AList.update j job) (unpublished t) (meta_store_jobs meta),
                       meta_jobs_to_flush := flush\<rparr>, t2)))"

text \<open>The reports on detached stores; the others are left for the native scheduler, and the keys of
  every store that completes with this report are collected.\<close>

record completion =
  co_ordinary :: "(nat, int) odict"
  co_keys :: "offload_key list"

definition complete_detached ::
  "nat \<times> int \<Rightarrow> completion \<times> tokencake_scheduler \<Rightarrow> (completion \<times> tokencake_scheduler) res" where
  "complete_detached x y = (case (x, y) of ((j, n), (co, t)) \<Rightarrow>
     case map_of (detached t) j of
       None \<Rightarrow>
         Inr (\<lparr>co_ordinary = AList.update j n (co_ordinary co),
               co_keys = (case map_of (jobs (native t)) j of
                            None \<Rightarrow> co_keys co
                          | Some st \<Rightarrow> if tj_is_store st \<and> pending_count st = n
                                      then set_union (tj_keys st) (co_keys co) else co_keys co)\<rparr>, t)
     | Some ds \<Rightarrow>
         py_assert (n > 0)
           (rbind (od_get j (jobs (native t))) (\<lambda>st0.
            let st = st0\<lparr>pending_count := pending_count st0 - n\<rparr>;
                s1 = (native t)\<lparr>jobs := AList.update j st (jobs (native t))\<rparr>
            in py_assert (pending_count st \<ge> 0)
              (if pending_count st \<noteq> 0 then Inr (co, t\<lparr>native := s1\<rparr>)
               else rbind (complete_store (tj_keys st) True (os_manager s1)) (\<lambda>m.
                 rbind (remove_pending_job j (Some (ds_source_ids ds)) (s1\<lparr>os_manager := m\<rparr>)) (\<lambda>s2.
                 rbind (tc_count_n M_SAVED (length (ds_source_ids ds))
                   (t\<lparr>native := s2\<lparr>jobs := AList.delete j (jobs s2)\<rparr>,
                      detached := AList.delete j (detached t)\<rparr>)) (\<lambda>t'.
                 Inr (co\<lparr>co_keys := set_union (tj_keys st) (co_keys co)\<rparr>, t'))))))))"

definition retain_completed ::
  "offload_key list \<Rightarrow> string \<Rightarrow> tokencake_scheduler \<Rightarrow> tokencake_scheduler res" where
  "retain_completed keys i t =
     (case get_record i t of
        None \<Rightarrow> Inr t
      | Some l \<Rightarrow>
          let ready = filter (\<lambda>k. k \<in> set keys) (pending_retention l) in
          if ready = [] then Inr t
          else rbind (tc_retain_ready i ready t) (\<lambda>t'.
            Inr (change_record i (\<lambda>l'. l'\<lparr>pending_retention :=
                   filter (\<lambda>k. k \<notin> set ready) (pending_retention l')\<rparr>) t')))"

definition observe_bandwidth :: "string \<times> (pyfloat \<times> pyfloat) list \<Rightarrow> tokencake_scheduler \<Rightarrow> tokencake_scheduler" where
  "observe_bandwidth x t = (case x of (name, ops) \<Rightarrow>
     if name \<notin> {''GPU_to_CPU'', ''CPU_to_GPU''} then t
     else
       let d = (if name = ''GPU_to_CPU'' then ''d2h'' else ''h2d'')
       in fold (\<lambda>(bytes, time) t.
            if bytes \<le> 0 \<or> time \<le> 0 then t
            else let sample = bytes / time;
                     previous = get_default sample d (bandwidth t);
                     alpha = ewma_alpha (tc_settings t)
                 in t\<lparr>bandwidth := AList.update d (alpha * sample + (1 - alpha) * previous) (bandwidth t)\<rparr>)
          ops t)"

definition tc_update_connector_output ::
  "(string \<Rightarrow> offload_request) \<Rightarrow> (nat, int) odict option \<Rightarrow> (string \<times> (pyfloat \<times> pyfloat) list) list
     \<Rightarrow> tokencake_scheduler \<Rightarrow> tokencake_scheduler res" where
  "tc_update_connector_output reqs completed operations t0 =
     rbind (rfold complete_detached (case completed of None \<Rightarrow> [] | Some c \<Rightarrow> c)
              (\<lparr>co_ordinary = [], co_keys = []\<rparr>, t0)) (\<lambda>(co, t1).
     rbind (update_connector_output reqs (co_ordinary co) (native t1)) (\<lambda>s.
     rbind (tc_expire (t1\<lparr>native := s\<rparr>)) (\<lambda>t2.
     rbind (rfold (retain_completed (co_keys co)) (map fst (records (lifecycles t2))) t2) (\<lambda>t3.
       Inr (fold observe_bandwidth operations t3)))))"

definition tc_reset_cache :: "tokencake_scheduler \<Rightarrow> tokencake_scheduler res" where
  "tc_reset_cache t0 =
     rbind (offload_reset_cache (native t0)) (\<lambda>s.
       let (now, t) = read_clock (t0\<lparr>native := s\<lparr>jobs_to_flush :=
                filter (\<lambda>j. \<not> has_key j (unpublished t0)) (jobs_to_flush s)\<rparr>,
              unpublished := [], detached := [], recent_stores := []\<rparr>)
       in rbind (with_registry (\<lambda>r. rbind (external_reset_succeeded now r) (\<lambda>r'. Inr ((), r'))) t) (\<lambda>(_, t').
            Inr t'))"

subsection \<open>The connector\<close>

definition connector_init :: "tokencake_config option \<Rightarrow> unit res" where
  "connector_init c =
     (case c of
        None \<Rightarrow> Inl (ValueError ''TokenCakeConnector requires structured TokenCake offload enablement'')
      | Some c \<Rightarrow>
          if \<not> offload_enabled (offload c)
          then Inl (ValueError ''TokenCakeConnector requires structured TokenCake offload enablement'')
          else Inr ())"

definition create_scheduler ::
  "bool \<Rightarrow> int \<Rightarrow> offloading_spec \<Rightarrow> cpu_manager \<Rightarrow> bool \<Rightarrow> int \<Rightarrow> offload_config \<Rightarrow> temporal_selection
     \<Rightarrow> (nat \<Rightarrow> pyfloat) \<Rightarrow> tokencake_scheduler res" where
  "create_scheduler is_cpu_spec spec_blocks sp m prefix_caching page cfg selection readings =
     (if \<not> is_cpu_spec then Inl (ValueError ''TokenCake requires a native CPU offloading spec'')
      else if spec_blocks \<le> 0 then
        Inl (ValueError ''TokenCake CPU offload capacity must fit at least one KV block'')
      else tokencake_scheduler_init sp m prefix_caching page cfg selection readings)"

definition bind_gpu_block_pool :: "block_pool \<Rightarrow> tokencake_scheduler \<Rightarrow> tokencake_scheduler" where
  "bind_gpu_block_pool p t = t\<lparr>tc_block_pool := Some p\<rparr>"

definition request_finished_all_groups ::
  "offload_request \<Rightarrow> nat list list \<Rightarrow> tokencake_scheduler \<Rightarrow> tokencake_scheduler res" where
  "request_finished_all_groups r ids t =
     rbind (tc_generation_finished r ids t) (\<lambda>t1.
     rbind (request_finished (request_id r) (native t1)) (\<lambda>s. Inr (t1\<lparr>native := s\<rparr>)))"

subsection \<open>Bounded candidates\<close>

lemma dvd_fold_lcm: "(x :: nat) \<in> set xs \<or> x dvd a \<Longrightarrow> x dvd fold lcm xs a"
  by (induction xs arbitrary: a) (auto intro: dvd_lcm2 dvd_trans)

lemma sorted_take_below:
  assumes "sorted (map f xs)" "x \<in> set xs" "x \<notin> set (take n xs)" "y \<in> set (take n xs)"
  shows "f y \<le> f x"
proof -
  have "sorted (map f (take n xs) @ map f (drop n xs))" using assms(1) by (metis append_take_drop_id map_append)
  moreover have "x \<in> set (drop n xs)" using assms(2,3) by (metis Un_iff append_take_drop_id set_append)
  ultimately show ?thesis using assms(4) by (auto simp: sorted_append)
qed

lemma candidate_unique:
  assumes "distinct (map (\<lambda>b. (sb_group b, sb_index b)) cs)" "x \<in> set cs" "y \<in> set cs"
    and "sb_group x = sb_group y" "sb_index x = sb_index y"
  shows "x = y"
  using assms by (auto simp: distinct_map inj_on_def)

text \<open>What the end of a bounded store is: the largest common boundary below the last candidate of every
  group.\<close>

lemma common_end_spec:
  assumes "configs \<noteq> []" "\<forall>gc \<in> set configs. group_indices cs gc \<noteq> [] \<and> 0 < offloaded_block_size gc"
    and "gc \<in> set configs"
  shows "offloaded_block_size gc dvd common_end configs cs"
    and "\<exists>b \<in> set cs. sb_group b = group_idx gc
           \<and> common_end configs cs \<le> (sb_index b + 1) * offloaded_block_size gc"
proof -
  let ?f = "\<lambda>gc. (Max (set (group_indices cs gc)) + 1) * offloaded_block_size gc"
  let ?a = "fold lcm (map offloaded_block_size configs) 1"
  show "offloaded_block_size gc dvd common_end configs cs"
    unfolding common_end_def Let_def using assms(3) dvd_fold_lcm [of "offloaded_block_size gc"] by (simp add: dvd_mult)
  have "common_end configs cs \<le> Min (set (map ?f configs))"
    unfolding common_end_def Let_def by (rule div_times_less_eq_dividend)
  also have "\<dots> \<le> ?f gc" using assms(3) by (intro Min_le) auto
  finally have e: "common_end configs cs \<le> ?f gc" .
  have "Max (set (group_indices cs gc)) \<in> set (group_indices cs gc)" using assms(2,3) by (intro Max_in) auto
  then obtain b where "b \<in> set cs" "sb_group b = group_idx gc" "sb_index b = Max (set (group_indices cs gc))"
    by (auto simp: group_indices_def)
  with e show "\<exists>b \<in> set cs. sb_group b = group_idx gc
      \<and> common_end configs cs \<le> (sb_index b + 1) * offloaded_block_size gc" by metis
qed

text \<open>
  \<^bold>\<open>C22\<close>. A bounded preservation never stores dead data: within the limit on GPU blocks, the
  candidates kept are either the first ones of a single full-attention group, or exactly the candidates
  that end by a token boundary common to all groups, for which every sliding window that the boundary
  needs is complete.
\<close>

theorem bounded_candidates_loadable:
  assumes "config_ok c" "0 < block_size_factor c" "0 \<le> limit"
    and "sorted (map (\<lambda>b. (token_end c b, sb_group b)) cs)"
    and "distinct (map (\<lambda>b. (sb_group b, sb_index b)) cs)"
    and "\<forall>b \<in> set cs. sb_group b < length (kv_group_configs c)"
    and "r = bound_candidates c cs limit" "r \<noteq> []"
  shows "int (length r * block_size_factor c) \<le> limit
    \<and> (if length (kv_group_configs c) = 1 \<and> window_in_blocks (hd (kv_group_configs c)) = None
       then r = take (nat (limit div int (block_size_factor c))) cs
       else \<exists>e. r = filter (\<lambda>b. token_end c b \<le> e) cs
         \<and> (\<forall>gc \<in> set (kv_group_configs c). offloaded_block_size gc dvd e
              \<and> (\<forall>w i. window_in_blocks gc = Some w \<and> e div offloaded_block_size gc \<le> i + w
                    \<and> i < e div offloaded_block_size gc \<longrightarrow>
                   (\<exists>b \<in> set r. sb_group b = group_idx gc \<and> sb_index b = i))))"
proof -
  let ?n = "nat (limit div int (block_size_factor c))" and ?G = "kv_group_configs c"
  let ?t = "take ?n cs"
  have "int (block_size_factor c) * (limit div int (block_size_factor c)) \<le> limit"
    using pos_mod_sign [of "int (block_size_factor c)" limit] assms(2)
      mult_div_mod_eq [of "int (block_size_factor c)" limit] by linarith
  then have "int (?n * block_size_factor c) \<le> limit"
    using assms(2,3) by (simp add: pos_imp_zdiv_nonneg_iff mult.commute)
  moreover have "length r \<le> ?n"
    unfolding assms(7) bound_candidates_def Let_def by (auto intro: order_trans [OF length_filter_le])
  ultimately have len: "int (length r * block_size_factor c) \<le> limit"
    by (meson mult_le_mono1 of_nat_le_iff order_trans)
  show ?thesis
  proof (cases "length ?G = 1 \<and> window_in_blocks (hd ?G) = None")
    case True
    with len show ?thesis unfolding assms(7) bound_candidates_def Let_def by simp
  next
    case False
    let ?e = "common_end ?G ?t"
    have r: "r = filter (\<lambda>b. token_end c b \<le> ?e) ?t" "?t \<noteq> []"
      "\<forall>gc \<in> set ?G. group_indices ?t gc \<noteq> []" "\<forall>gc \<in> set ?G. window_complete ?e ?t gc"
      using assms(8) False unfolding assms(7) bound_candidates_def Let_def
      by (auto simp: list_all_iff split: if_splits)
    have "?G \<noteq> []" using r(2) assms(6) by (cases cs) auto
    have pos: "\<forall>gc \<in> set ?G. group_indices ?t gc \<noteq> [] \<and> 0 < offloaded_block_size gc"
      using r(3) assms(1) by (auto simp: config_ok_def in_set_conv_nth)
    note ce = common_end_spec [OF \<open>?G \<noteq> []\<close> pos]
    have in_t: "b \<in> set ?t" if b: "b \<in> set cs" "token_end c b \<le> ?e" for b
    proof (rule ccontr)
      assume nt: "b \<notin> set ?t"
      let ?gc = "?G ! sb_group b"
      have g: "?gc \<in> set ?G" "group_idx ?gc = sb_group b" "0 < offloaded_block_size ?gc"
        using assms(1,6) b(1) by (auto simp: config_ok_def)
      from ce(2) [OF g(1)] obtain x where x: "x \<in> set ?t" "sb_group x = sb_group b" "?e \<le> token_end c x"
        using g(2) by (auto simp: token_end_def)
      have "(token_end c x, sb_group x) \<le> (token_end c b, sb_group b)"
        using sorted_take_below [OF assms(4) b(1) nt x(1)] .
      then have "token_end c x = token_end c b" using x(3) b(2) by (auto simp: less_eq_prod_def)
      then have "sb_index x = sb_index b" using x(2) g(3) by (simp add: token_end_def)
      then have "x = b" using candidate_unique [OF assms(5)] x(1,2) b(1) by (metis in_set_takeD)
      with x(1) nt show False by simp
    qed
    have "r = filter (\<lambda>b. token_end c b \<le> ?e) cs"
    proof -
      have "filter (\<lambda>b. token_end c b \<le> ?e) (drop ?n cs) = []"
      proof (rule ccontr)
        assume "filter (\<lambda>b. token_end c b \<le> ?e) (drop ?n cs) \<noteq> []"
        then obtain b where b: "b \<in> set (drop ?n cs)" "token_end c b \<le> ?e" by (auto simp: filter_empty_conv)
        then have "b \<in> set ?t" using in_t by (meson in_set_dropD)
        with b(1) assms(5) show False
          by (metis (no_types, lifting) IntI append_take_drop_id distinct_append distinct_map empty_iff)
      qed
      then show ?thesis using r(1) by (metis append_Nil2 append_take_drop_id filter_append)
    qed
    moreover have "\<exists>b \<in> set r. sb_group b = group_idx gc \<and> sb_index b = i"
      if gc: "gc \<in> set ?G" and w: "window_in_blocks gc = Some w" "?e div offloaded_block_size gc \<le> i + w"
        "i < ?e div offloaded_block_size gc" for gc w i
    proof -
      have "i \<in> set (group_indices ?t gc)"
        using r(4) gc w by (auto simp: window_complete_def list_all_iff Let_def)
      then obtain b where b: "b \<in> set ?t" "sb_group b = group_idx gc" "sb_index b = i"
        by (auto simp: group_indices_def)
      have "?G ! sb_group b = gc" using gc b(2) assms(1) by (auto simp: config_ok_def in_set_conv_nth)
      then have "token_end c b \<le> ?e"
        using b(3) w(3) by (simp add: token_end_def) (metis Suc_leI div_times_less_eq_dividend mult_le_mono1 mult_Suc order_trans)
      with b r(1) show ?thesis by auto
    qed
    ultimately show ?thesis using len False ce(1) by auto
  qed
qed


subsection \<open>The automatic limit\<close>

definition transfer_time :: "tokencake_scheduler \<Rightarrow> snapshot_block list \<Rightarrow> pyfloat" where
  "transfer_time t cs = estimate_transfer t (uncached_blocks cs t) D2H + estimate_transfer t (length cs) H2D"

text \<open>A batch is affordable when its new blocks fit the CPU cache and what remains of the stall after
  the transfers is at least twice their time, and 50 ms.\<close>

definition affordable :: "tokencake_scheduler \<Rightarrow> int \<Rightarrow> pyfloat \<Rightarrow> snapshot_block list \<Rightarrow> bool" where
  "affordable t available remaining cs \<longleftrightarrow>
     int (uncached_blocks cs t) \<le> available
     \<and> remaining - transfer_time t cs \<ge> max (5 / 100) (2 * transfer_time t cs)"

lemma uncached_blocks_simps [simp]:
  "uncached_blocks [] t = 0"
  "uncached_blocks (xs @ ys) t = uncached_blocks xs t + uncached_blocks ys t"
  "uncached_blocks (b # bs) t = (if mget (tc_manager t) (sb_key b) = None then 1 else 0) + uncached_blocks bs t"
  by (simp_all add: uncached_blocks_def)

lemma limit_loop_spec:
  "\<exists>k \<le> length bs. limit_loop t a rem bs (length ds) (uncached_blocks ds t) x0 =
       (if k = 0 then x0 else (length ds + k) * block_size_factor (tc_config t))
     \<and> (\<forall>i. 0 < i \<and> i \<le> k \<longrightarrow> affordable t a rem (ds @ take i bs))
     \<and> (k < length bs \<longrightarrow> \<not> affordable t a rem (ds @ take (k + 1) bs))"
proof (induction bs arbitrary: ds x0)
  case Nil
  then show ?case by simp
next
  case (Cons b bs)
  have new: "uncached_blocks ds t + (if mget (tc_manager t) (sb_key b) = None then 1 else 0) = uncached_blocks (ds @ [b]) t"
    and len: "length ds + 1 = length (ds @ [b])" by simp_all
  have step: "limit_loop t a rem (b # bs) (length ds) (uncached_blocks ds t) x0 =
     (if \<not> affordable t a rem (ds @ [b]) then x0
      else limit_loop t a rem bs (length (ds @ [b])) (uncached_blocks (ds @ [b]) t)
             (length (ds @ [b]) * block_size_factor (tc_config t)))"
    by (simp only: limit_loop.simps Let_def new len affordable_def transfer_time_def de_Morgan_conj not_le)
  show ?case
  proof (cases "affordable t a rem (ds @ [b])")
    case False
    then show ?thesis unfolding step by (intro exI [of _ 0]) simp
  next
    case True
    from Cons.IH [of "ds @ [b]" "length (ds @ [b]) * block_size_factor (tc_config t)"]
    obtain k where k: "k \<le> length bs"
      "limit_loop t a rem bs (length (ds @ [b])) (uncached_blocks (ds @ [b]) t) (length (ds @ [b]) * block_size_factor (tc_config t)) =
        (if k = 0 then length (ds @ [b]) * block_size_factor (tc_config t)
         else (length (ds @ [b]) + k) * block_size_factor (tc_config t))"
      "\<forall>i. 0 < i \<and> i \<le> k \<longrightarrow> affordable t a rem ((ds @ [b]) @ take i bs)"
      "k < length bs \<longrightarrow> \<not> affordable t a rem ((ds @ [b]) @ take (k + 1) bs)" by blast
    have "affordable t a rem (ds @ take i (b # bs))" if i: "0 < i" "i \<le> k + 1" for i
    proof (cases "i = 1")
      case True
      with \<open>affordable t a rem (ds @ [b])\<close> show ?thesis by simp
    next
      case False
      then obtain i' where "i = Suc i'" "0 < i'" using i(1) by (cases i) auto
      with k(3) i(2) show ?thesis by simp
    qed
    with k True show ?thesis unfolding step by (intro exI [of _ "k + 1"]) auto
  qed
qed

lemma preservation_limit_spec:
  "\<exists>n \<le> length cs. preservation_limit cs a rem t = n * block_size_factor (tc_config t)
     \<and> (\<forall>k. 0 < k \<and> k \<le> n \<longrightarrow> affordable t a rem (take k cs))
     \<and> (n < length cs \<longrightarrow> \<not> affordable t a rem (take (n + 1) cs))"
  using limit_loop_spec [of cs t a rem "[]" 0]
  by (auto simp: preservation_limit_def)

definition rates_ok :: "tokencake_scheduler \<Rightarrow> bool" where
  "rates_ok t \<longleftrightarrow> transfer_fields (transfer (tc_settings t)) \<and> 0 \<le> bytes_per_block t
     \<and> (\<forall>d v. map_of (bandwidth t) d = Some v \<longrightarrow> 0 < v)"

lemma estimate_transfer_mono:
  assumes "rates_ok t" "n \<le> m"
  shows "estimate_transfer t n d \<le> estimate_transfer t m d"
proof -
  let ?tr = "transfer (tc_settings t)"
  let ?default = "case d of D2H \<Rightarrow> d2h_bandwidth_gbps ?tr * 10 ^ 9 | H2D \<Rightarrow> h2d_bandwidth_gbps ?tr * 10 ^ 9"
  let ?bw = "get_default ?default (direction_name d) (bandwidth t)"
  have "0 < ?bw"
    using assms(1)
    by (auto simp: rates_ok_def transfer_fields_def get_default_def split: option.splits direction.splits)
  then have "of_nat n * of_int (bytes_per_block t) / ?bw \<le> of_nat m * of_int (bytes_per_block t) / ?bw"
    using assms by (intro divide_right_mono mult_right_mono) (auto simp: rates_ok_def)
  moreover have "of_nat n * submission_time_per_run_s ?tr \<le> of_nat m * submission_time_per_run_s ?tr"
    using assms by (intro mult_right_mono) (auto simp: rates_ok_def transfer_fields_def)
  ultimately show ?thesis by (simp add: estimate_transfer_def Let_def)
qed


lemma uncached_filter: "uncached_blocks (filter P xs) t \<le> uncached_blocks xs t"
  by (induction xs) auto

lemma affordable_filter:
  assumes "rates_ok t" "affordable t a rem xs"
  shows "affordable t a rem (filter P xs)"
proof -
  have "transfer_time t (filter P xs) \<le> transfer_time t xs"
    unfolding transfer_time_def
    by (intro add_mono estimate_transfer_mono [OF assms(1)] uncached_filter length_filter_le)
  moreover have "int (uncached_blocks (filter P xs) t) \<le> int (uncached_blocks xs t)"
    using uncached_filter [of P xs t] by simp
  ultimately show ?thesis using assms(2) unfolding affordable_def by linarith
qed

text \<open>
  \<^bold>\<open>C23\<close>. Without a configured relief limit, the batch that the scheduler bounds for a stalled
  lifecycle can be paid for: its uncached blocks fit the unprotected CPU capacity, and what is left of
  the predicted stall after storing and reloading the whole batch is at least 50 ms and at least twice
  the transfer time. The limit is the longest affordable run: the first candidate past it is not affordable.
\<close>

theorem bounded_batch_affordable:
  assumes "rates_ok t" "0 < block_size_factor (tc_config t)" "max_relief_blocks (tc_settings t) = 0"
    and "limit = relief_limit p cs a rem t"
    and "bound_candidates (tc_config t) cs limit \<noteq> []"
  shows "affordable t a rem (bound_candidates (tc_config t) cs limit)
    \<and> (\<exists>n \<le> length cs. limit = int (n * block_size_factor (tc_config t))
         \<and> (n < length cs \<longrightarrow> \<not> affordable t a rem (take (n + 1) cs)))"
proof -
  obtain n where n: "n \<le> length cs" "preservation_limit cs a rem t = n * block_size_factor (tc_config t)"
    "\<forall>k. 0 < k \<and> k \<le> n \<longrightarrow> affordable t a rem (take k cs)"
    "n < length cs \<longrightarrow> \<not> affordable t a rem (take (n + 1) cs)"
    using preservation_limit_spec [of cs a rem t] by blast
  have l: "limit = int (n * block_size_factor (tc_config t))"
    using assms(3,4) n(2) by (simp add: relief_limit_def)
  have t: "nat (limit div int (block_size_factor (tc_config t))) = n" using assms(2) by (simp add: l)
  have "take n cs \<noteq> []" using assms(5) by (auto simp: bound_candidates_def t Let_def split: if_splits)
  then have "affordable t a rem (take n cs)" using n(3) by (cases n) auto
  then have "affordable t a rem (bound_candidates (tc_config t) cs limit)"
    using assms(5) affordable_filter [OF assms(1)] by (auto simp: bound_candidates_def t Let_def split: if_splits)
  with l n(1,4) show ?thesis by blast
qed

text \<open>Sample states for the witnesses: the first block of both groups, one of them already in the CPU
  cache.\<close>

definition sample_candidates :: "snapshot_block list" where
  "sample_candidates =
     [\<lparr>sb_group = 0, sb_index = 0, sb_key = [1], sb_block_ids = [], sb_block_index = 0\<rparr>,
      \<lparr>sb_group = 1, sb_index = 0, sb_key = [5], sb_block_ids = [3], sb_block_index = 0\<rparr>]"

definition sample_tokencake :: tokencake_scheduler where
  "sample_tokencake =
     \<lparr>native = sample_scheduler, lifecycles = registry_init offload_defaults (Some sample_cache),
      tc_block_pool = None, tc_settings = offload_defaults, tc_temporal_selection = First_fit,
      num_cpu_blocks = 4, bytes_per_block = 1000000, shareable_groups = [0], tc_step = 0,
      unpublished = [], detached = [], recent_stores = [], bandwidth = [],
      clock_readings = (\<lambda>_. 0), clock_at = 0\<rparr>"

lemma sample_bounded: "bound_candidates sample_config sample_candidates 2 = sample_candidates"
  by (simp add: bound_candidates_def sample_candidates_def sample_config_eq group_indices_def common_end_def
      window_complete_def token_end_def Let_def)

theorem bounded_candidates_loadable_witness:
  "int (length (bound_candidates sample_config sample_candidates 2) * block_size_factor sample_config) \<le> 2"
proof -
  have "config_ok sample_config" by (simp add: config_ok_def sample_config_eq nth_Cons' less_Suc_eq)
  then show ?thesis
    using bounded_candidates_loadable [of sample_config 2 sample_candidates
        "bound_candidates sample_config sample_candidates 2"]
    unfolding sample_bounded by (simp add: sample_candidates_def sample_config_eq token_end_def)
qed

lemma sample_limit: "relief_limit p sample_candidates 2 1 sample_tokencake = 2"
  by (simp add: relief_limit_def sample_tokencake_def sample_candidates_def offload_defaults_def preservation_limit_def
      estimate_transfer_def transfer_defaults_def sample_scheduler_def sample_cache_def sample_config_eq Let_def
      get_default_def lru_get_def)

theorem bounded_batch_affordable_witness:
  "affordable sample_tokencake 2 1 (bound_candidates sample_config sample_candidates 2)"
proof -
  have c: "tc_config sample_tokencake = sample_config" by (simp add: sample_tokencake_def sample_scheduler_def)
  have "rates_ok sample_tokencake"
    by (simp add: rates_ok_def sample_tokencake_def transfer_fields_def transfer_defaults_def offload_defaults_def)
  moreover have "0 < block_size_factor sample_config" by (simp add: sample_config_eq)
  moreover have "max_relief_blocks (tc_settings sample_tokencake) = 0" by (simp add: sample_tokencake_def offload_defaults_def)
  moreover have "sample_candidates \<noteq> []" by (simp add: sample_candidates_def)
  ultimately show ?thesis
    using bounded_batch_affordable [of sample_tokencake 2 sample_pressure sample_candidates 2 1]
    unfolding c sample_limit sample_bounded by simp
qed

end
