(* ===== verification/Agent_Graph.thy ===== *)
theory Agent_Graph
  imports Prelude
begin

section \<open>Agent graphs\<close>

text \<open>
  \<^verbatim>\<open>agent/graph/graph.py\<close> and the nodes of \<^verbatim>\<open>agent/graph/node.py\<close>: the graph of an agent application
  and the analysis that gives every node its depth, degrees, similarity and priority, the annotations
  that the requests of the application carry.

  An identifier is a 128-bit number; the identifiers that \<open>uuid4\<close> draws are arguments. A node object
  is stored once, under its identifier, so the dictionary of nodes holds the values of the objects. The
  analysis pops the elements of a Python set, in an order the language does not fix: the order is a
  sequence \<open>pick\<close> of numbers, which choose the element popped at each iteration.
\<close>

subsection \<open>Nodes\<close>

type_synonym uuid = "128 word"

datatype kvarg = KInt int | KFloat pyfloat | KText string

record agent_node =
  node_uuid :: uuid
  type_step :: int
  node_name :: "string option"
  node_type :: "string option"
  node_in_degree :: nat
  node_out_degree :: nat
  kvargs :: "(string, kvarg) odict"

definition Node :: "int \<Rightarrow> uuid \<Rightarrow> string option \<Rightarrow> string option \<Rightarrow> (string, kvarg) odict \<Rightarrow> agent_node" where
  "Node step u name ty kv =
     \<lparr>node_uuid = u, type_step = step, node_name = name, node_type = ty, node_in_degree = 0, node_out_degree = 0, kvargs = kv\<rparr>"

definition VoidNode :: "uuid \<Rightarrow> string \<Rightarrow> agent_node" where
  "VoidNode u name = Node 1 u (Some name) (Some ''void'') []"

definition add_kvargs :: "(string, kvarg) odict \<Rightarrow> agent_node \<Rightarrow> agent_node" where
  "add_kvargs kv n = n\<lparr>kvargs := fold (\<lambda>(k, v). AList.update k v) kv (kvargs n)\<rparr>"

subsection \<open>Graphs\<close>

record app_graph =
  entry_node_uuid :: uuid
  exit_node_uuid :: uuid
  graph_nodes :: "(uuid, agent_node) odict"
  graph_edges :: "(uuid, uuid list) odict"
  in_degree_dict :: "(uuid, nat) odict"
  out_degree_dict :: "(uuid, nat) odict"
  depth_type_dict :: "(int, (string option, uuid list) odict) odict"

definition graph_init :: "uuid \<Rightarrow> uuid \<Rightarrow> app_graph" where
  "graph_init e x =
     \<lparr>entry_node_uuid = e, exit_node_uuid = x,
      graph_nodes = AList.update x (VoidNode x ''exit_node'') [(e, VoidNode e ''entry_node'')],
      graph_edges = [], in_degree_dict = [], out_degree_dict = [], depth_type_dict = []\<rparr>"

definition add_node :: "agent_node \<Rightarrow> app_graph \<Rightarrow> app_graph" where
  "add_node n g = g\<lparr>graph_nodes := AList.update (node_uuid n) n (graph_nodes g)\<rparr>"

definition successors :: "uuid \<Rightarrow> app_graph \<Rightarrow> uuid list" where
  "successors u g = get_default [] u (graph_edges g)"

definition add_edge :: "uuid \<Rightarrow> uuid \<Rightarrow> app_graph \<Rightarrow> app_graph res" where
  "add_edge s d g =
     py_assert (has_key s (graph_nodes g) \<and> has_key d (graph_nodes g))
       (py_assert (s \<noteq> d)
         (Inr (g\<lparr>graph_edges := AList.update s (successors s g @ [d]) (graph_edges g)\<rparr>)))"

definition predecessors :: "uuid \<Rightarrow> app_graph \<Rightarrow> uuid list" where
  "predecessors u g = map fst (filter (\<lambda>(s, ds). u \<in> set ds) (graph_edges g))"

definition get_node :: "uuid \<Rightarrow> app_graph \<Rightarrow> agent_node res" where
  "get_node u g = (case map_of (graph_nodes g) u of None \<Rightarrow> Inl AssertionError | Some n \<Rightarrow> Inr n)"

subsection \<open>Depths\<close>

text \<open>One discovered successor of the popped node \<open>u\<close>.\<close>

definition visit ::
  "uuid \<Rightarrow> uuid \<Rightarrow> (uuid, int) odict \<times> uuid list \<Rightarrow> ((uuid, int) odict \<times> uuid list) res" where
  "visit u v x = (case x of (depths, work) \<Rightarrow>
     if has_key v depths then Inr (depths, work)
     else case map_of depths u of
            None \<Rightarrow> Inl KeyError
          | Some d \<Rightarrow> Inr (AList.update v (d + 1) depths, List.insert v work))"

definition targets :: "app_graph \<Rightarrow> uuid set" where
  "targets g = set (concat (map snd (graph_edges g)))"

lemma finite_targets [simp]: "finite (targets g)"
  by (simp add: targets_def)

lemma successors_targets: "set (successors u g) \<subseteq> targets g"
  by (cases "map_of (graph_edges g) u") (force simp: successors_def targets_def get_default_def dest: map_of_SomeD)+

definition undiscovered :: "app_graph \<Rightarrow> (uuid, int) odict \<Rightarrow> nat" where
  "undiscovered g depths = card (targets g - fst ` set depths)"

lemma visit_measure:
  assumes "visit u v (depths, work) = Inr (depths', work')" "v \<in> targets g"
  shows "2 * undiscovered g depths' + length work' \<le> 2 * undiscovered g depths + length work"
proof (cases "has_key v depths")
  case True
  with assms(1) show ?thesis by (simp add: visit_def)
next
  case False
  then have "undiscovered g (AList.update v d depths) < undiscovered g depths" for d
    unfolding undiscovered_def using assms(2) by (intro psubset_card_mono) (auto simp: has_key_iff)
  moreover obtain d where "depths' = AList.update v d depths" "work' = List.insert v work"
    using False assms(1) by (auto simp: visit_def split: option.splits)
  moreover have "length (List.insert v work) \<le> Suc (length work)" by (simp add: List.insert_def)
  ultimately have "undiscovered g depths' < undiscovered g depths" "length work' \<le> Suc (length work)" by auto
  then show ?thesis by linarith
qed

lemma visits_measure:
  "rfold (visit u) vs (depths, work) = Inr (depths', work') \<Longrightarrow> set vs \<subseteq> targets g \<Longrightarrow>
   2 * undiscovered g depths' + length work' \<le> 2 * undiscovered g depths + length work"
proof (induction vs arbitrary: depths work)
  case Nil
  then show ?case by simp
next
  case (Cons v vs)
  from Cons.prems(1) obtain d w where *: "visit u v (depths, work) = Inr (d, w)"
    "rfold (visit u) vs (d, w) = Inr (depths', work')" by (auto simp: res_simps)
  from visit_measure [OF *(1), of g] Cons.IH [OF *(2)] Cons.prems(2) show ?case by simp
qed

function depth_loop ::
  "app_graph \<Rightarrow> (nat \<Rightarrow> nat) \<Rightarrow> nat \<Rightarrow> (uuid, int) odict \<Rightarrow> uuid list \<Rightarrow> (uuid, int) odict res" where
  "depth_loop g pick i depths work =
     (if work = [] then Inr depths
      else
        let u = work ! (pick i mod length work)
        in case rfold (visit u) (successors u g) (depths, remove1 u work) of
             Inl e \<Rightarrow> Inl e
           | Inr (depths', work') \<Rightarrow> depth_loop g pick (i + 1) depths' work')"
  by pat_completeness auto

termination
proof (relation "measure (\<lambda>(g, pick, i, depths, work). 2 * undiscovered g depths + length work)")
  fix g :: app_graph and pick :: "nat \<Rightarrow> nat" and i :: nat and depths work u x depths' work'
  assume a: "work \<noteq> []" "u = work ! (pick i mod length work)"
    "rfold (visit u) (successors u g) (depths, remove1 u work) = Inr x" "(depths', work') = x"
  have "u \<in> set work" using a(1,2) by simp
  then have "length (remove1 u work) < length work" using a(1) by (simp add: length_remove1)
  moreover have "2 * undiscovered g depths' + length work' \<le> 2 * undiscovered g depths + length (remove1 u work)"
    using visits_measure a(3,4) successors_targets by blast
  ultimately show "((g, pick, i + 1, depths', work'), (g, pick, i, depths, work))
      \<in> measure (\<lambda>(g, pick, i, depths, work). 2 * undiscovered g depths + length work)" by simp
qed simp

declare depth_loop.simps [simp del]

definition set_kvargs :: "(uuid \<Rightarrow> (string, kvarg) odict) \<Rightarrow> app_graph \<Rightarrow> app_graph" where
  "set_kvargs kv g = g\<lparr>graph_nodes := map (\<lambda>(u, n). (u, add_kvargs (kv u) n)) (graph_nodes g)\<rparr>"

definition analyse_depth_info :: "(nat \<Rightarrow> nat) \<Rightarrow> app_graph \<Rightarrow> app_graph res" where
  "analyse_depth_info pick g =
     rbind (depth_loop g pick 0 [(entry_node_uuid g, 0)] [entry_node_uuid g]) (\<lambda>depths.
       if list_all (\<lambda>(u, n). has_key u depths) (graph_nodes g)
       then Inr (set_kvargs (\<lambda>u. [(''depth'', KInt (the (map_of depths u)))]) g)
       else Inl KeyError)"

subsection \<open>Degrees, similarity and priority\<close>

definition analyse_degree_info :: "app_graph \<Rightarrow> app_graph" where
  "analyse_degree_info g =
     (let us = map fst (graph_nodes g) in
      set_kvargs (\<lambda>u. [(''in_degree'', KInt (int (length (predecessors u g)))),
                       (''out_degree'', KInt (int (length (successors u g))))])
        (g\<lparr>in_degree_dict := fold (\<lambda>u. AList.update u (length (predecessors u g))) us (in_degree_dict g),
           out_degree_dict := fold (\<lambda>u. AList.update u (length (successors u g))) us (out_degree_dict g)\<rparr>))"

definition depth_of :: "agent_node \<Rightarrow> int res" where
  "depth_of n = (case get_default (KInt 0) ''depth'' (kvargs n) of KInt d \<Rightarrow> Inr d | _ \<Rightarrow> Inl TypeError)"

text \<open>The nodes by depth and type.\<close>

definition classify_node ::
  "uuid \<times> agent_node \<Rightarrow> (int, (string option, uuid list) odict) odict
     \<Rightarrow> (int, (string option, uuid list) odict) odict res" where
  "classify_node x table = (case x of (u, n) \<Rightarrow>
     rbind (depth_of n) (\<lambda>d.
       case map_of table d of
         None \<Rightarrow> Inl KeyError
       | Some types \<Rightarrow>
           Inr (AList.update d (AList.update (node_type n) (get_default [] (node_type n) types @ [u]) types) table)))"

definition similarities :: "(int, (string option, uuid list) odict) odict \<Rightarrow> (uuid, pyfloat) odict" where
  "similarities table =
     concat (map (\<lambda>(d, types). concat (map (\<lambda>(ty, us). map (\<lambda>u. (u, 1 / of_nat (length us))) us) types)) table)"

definition set_similarity :: "uuid \<times> pyfloat \<Rightarrow> app_graph \<Rightarrow> app_graph res" where
  "set_similarity x g = (case x of (u, s) \<Rightarrow>
     (case map_of (graph_nodes g) u of
        None \<Rightarrow> Inl KeyError
      | Some n \<Rightarrow> Inr (g\<lparr>graph_nodes :=
          AList.update u (add_kvargs [(''similarity'', KFloat s)] n) (graph_nodes g)\<rparr>)))"

fun rmap :: "('a \<Rightarrow> 'b res) \<Rightarrow> 'a list \<Rightarrow> 'b list res" where
  "rmap f [] = Inr []"
| "rmap f (x # xs) = rbind (f x) (\<lambda>y. rbind (rmap f xs) (\<lambda>ys. Inr (y # ys)))"

definition analyse_similarity_info :: "app_graph \<Rightarrow> app_graph res" where
  "analyse_similarity_info g =
     rbind (rmap (depth_of \<circ> snd) (graph_nodes g)) (\<lambda>ds.
       if ds = [] then Inl (ValueError ''max() arg is an empty sequence'')
       else
         rbind (rfold classify_node (graph_nodes g) (map (\<lambda>d. (d, [])) [0..Max (set ds)])) (\<lambda>table.
           rfold set_similarity (similarities table) (g\<lparr>depth_type_dict := table\<rparr>)))"

definition simple_preiority_score :: "agent_node \<Rightarrow> kvarg" where
  "simple_preiority_score n = get_default (KInt 0) ''depth'' (kvargs n)"

definition set_priorities :: "(nat \<Rightarrow> nat) \<Rightarrow> app_graph \<Rightarrow> app_graph res" where
  "set_priorities pick g0 =
     rbind (analyse_depth_info pick g0) (\<lambda>g1.
     rbind (analyse_similarity_info (analyse_degree_info g1)) (\<lambda>g.
     Inr (g\<lparr>graph_nodes := map (\<lambda>(u, n). (u, add_kvargs [(''priority'', simple_preiority_score n)] n))
                             (graph_nodes g)\<rparr>)))"


subsection \<open>Correctness\<close>

inductive walk :: "app_graph \<Rightarrow> nat \<Rightarrow> uuid \<Rightarrow> bool" for g where
  walk_entry: "walk g 0 (entry_node_uuid g)"
| walk_edge: "walk g n u \<Longrightarrow> v \<in> set (successors u g) \<Longrightarrow> walk g (Suc n) v"

inductive_simps walk_0 [simp]: "walk g 0 u"

text \<open>The known depths are lengths of walks and every known node outside of \<open>work\<close> has its
  successors among the known ones.\<close>

definition depths_ok :: "app_graph \<Rightarrow> (uuid, int) odict \<Rightarrow> bool" where
  "depths_ok g depths \<longleftrightarrow>
     map_of depths (entry_node_uuid g) = Some 0
     \<and> (\<forall>u d. map_of depths u = Some d \<longrightarrow> 0 \<le> d \<and> walk g (nat d) u)"

definition closed_except :: "app_graph \<Rightarrow> (uuid, int) odict \<Rightarrow> uuid set \<Rightarrow> bool" where
  "closed_except g depths W \<longleftrightarrow>
     (\<forall>u \<in> dom (map_of depths) - W. set (successors u g) \<subseteq> dom (map_of depths))"

lemma visit_spec:
  assumes "depths_ok g depths" "set work \<subseteq> dom (map_of depths)" "u \<in> dom (map_of depths)"
    and "v \<in> set (successors u g)"
  shows "\<exists>depths' work'. visit u v (depths, work) = Inr (depths', work')
    \<and> depths_ok g depths' \<and> set work' \<subseteq> dom (map_of depths')
    \<and> dom (map_of depths') = insert v (dom (map_of depths))
    \<and> set work' = set work \<union> (dom (map_of depths') - dom (map_of depths))"
proof (cases "has_key v depths")
  case True
  with assms show ?thesis by (auto simp: visit_def has_key_Some)
next
  case False
  from assms(3) obtain d where d: "map_of depths u = Some d" by auto
  with assms(1) have "walk g (nat d) u" "0 \<le> d" by (auto simp: depths_ok_def)
  with walk_edge [OF this(1) assms(4)] have "walk g (nat (d + 1)) v" by (simp add: nat_add_distrib)
  with False d assms(1,2) \<open>0 \<le> d\<close> show ?thesis
    by (auto simp: visit_def depths_ok_def has_key_Some)
qed

lemma visits_spec:
  assumes "depths_ok g depths" "set work \<subseteq> dom (map_of depths)" "u \<in> dom (map_of depths)"
    and "set vs \<subseteq> set (successors u g)"
  shows "\<exists>depths' work'. rfold (visit u) vs (depths, work) = Inr (depths', work')
    \<and> depths_ok g depths' \<and> set work' \<subseteq> dom (map_of depths')
    \<and> dom (map_of depths') = set vs \<union> dom (map_of depths)
    \<and> set work' = set work \<union> (dom (map_of depths') - dom (map_of depths))"
  using assms
proof (induction vs arbitrary: depths work)
  case Nil
  then show ?case by simp
next
  case (Cons v vs)
  then obtain d w where v: "visit u v (depths, work) = Inr (d, w)" "depths_ok g d" "set w \<subseteq> dom (map_of d)"
    "dom (map_of d) = insert v (dom (map_of depths))" "set w = set work \<union> (dom (map_of d) - dom (map_of depths))"
    using visit_spec [of g depths work u v] by auto
  moreover have "u \<in> dom (map_of d)" using v(4) Cons.prems(3) by simp
  ultimately obtain d' w' where "rfold (visit u) vs (d, w) = Inr (d', w')" "depths_ok g d'"
    "set w' \<subseteq> dom (map_of d')" "dom (map_of d') = set vs \<union> dom (map_of d)"
    "set w' = set w \<union> (dom (map_of d') - dom (map_of d))"
    using Cons.IH [of d w] Cons.prems(4) by auto
  with v show ?case by auto
qed

lemma visits_distinct:
  "rfold (visit u) vs (depths, work) = Inr (depths', work') \<Longrightarrow> distinct work \<Longrightarrow> distinct work'"
proof (induction vs arbitrary: depths work)
  case (Cons v vs)
  then obtain d w where "visit u v (depths, work) = Inr (d, w)" "rfold (visit u) vs (d, w) = Inr (depths', work')"
    by (auto simp: res_simps)
  moreover from this(1) Cons.prems(2) have "distinct w"
    by (auto simp: visit_def split: if_splits option.splits)
  ultimately show ?case using Cons.IH by blast
qed simp

lemma depth_loop_spec:
  assumes "depths_ok g depths" "set work \<subseteq> dom (map_of depths)" "distinct work" "closed_except g depths (set work)"
  shows "\<exists>depths'. depth_loop g pick i depths work = Inr depths' \<and> depths_ok g depths' \<and> closed_except g depths' {}"
  using assms
proof (induction g pick i depths work rule: depth_loop.induct)
  case (1 g pick i depths work)
  show ?case
  proof (cases "work = []")
    case True
    with 1(2-) show ?thesis by (simp add: depth_loop.simps)
  next
    case False
    let ?u = "work ! (pick i mod length work)"
    have u: "?u \<in> set work" using False by simp
    have sub: "set (remove1 ?u work) \<subseteq> dom (map_of depths)" "?u \<in> dom (map_of depths)"
      using "1.prems"(2) u notin_set_remove1 by (meson subset_iff set_remove1_subset)+
    obtain d w where dw: "rfold (visit ?u) (successors ?u g) (depths, remove1 ?u work) = Inr (d, w)"
      "depths_ok g d" "set w \<subseteq> dom (map_of d)" "dom (map_of d) = set (successors ?u g) \<union> dom (map_of depths)"
      "set w = set (remove1 ?u work) \<union> (dom (map_of d) - dom (map_of depths))"
      using visits_spec [OF "1.prems"(1) sub subset_refl] by blast
    have "distinct w" using "1.prems"(3) visits_distinct [OF dw(1)] by simp
    moreover have "closed_except g d (set w)"
      using "1.prems"(3,4) dw(4,5) by (auto simp: closed_except_def)
    ultimately show ?thesis
      using "1.IH" [OF False refl dw(1) refl dw(2,3)] dw(1) False by (simp add: depth_loop.simps [of g pick i depths] Let_def)
  qed
qed


lemma closed_contains_walks:
  assumes "walk g n u" "depths_ok g depths" "closed_except g depths {}"
  shows "u \<in> dom (map_of depths)"
  using assms by (induction) (auto simp: depths_ok_def closed_except_def)

lemma depths_exact:
  obtains depths where "depth_loop g pick 0 [(entry_node_uuid g, 0)] [entry_node_uuid g] = Inr depths"
    and "depths_ok g depths" "dom (map_of depths) = {u. \<exists>n. walk g n u}"
proof -
  have "depths_ok g [(entry_node_uuid g, 0)]" "closed_except g [(entry_node_uuid g, 0)] {entry_node_uuid g}"
    by (auto simp: depths_ok_def closed_except_def split: if_splits)
  then obtain depths where "depth_loop g pick 0 [(entry_node_uuid g, 0)] [entry_node_uuid g] = Inr depths"
    "depths_ok g depths" "closed_except g depths {}"
    using depth_loop_spec [of g "[(entry_node_uuid g, 0)]" "[entry_node_uuid g]" pick 0] by auto
  moreover from this have "dom (map_of depths) = {u. \<exists>n. walk g n u}"
    using closed_contains_walks [of g _ _ depths] by (auto simp: depths_ok_def) blast
  ultimately show ?thesis using that by blast
qed

lemma set_kvargs_cong:
  "(\<And>u. u \<in> fst ` set (graph_nodes g) \<Longrightarrow> kv u = kv' u) \<Longrightarrow> set_kvargs kv g = set_kvargs kv' g"
  unfolding set_kvargs_def by (intro arg_cong [of _ _ "\<lambda>ns. g\<lparr>graph_nodes := ns\<rparr>"] map_cong) force+

text \<open>The depth annotations of a graph: a depth is the length of a walk, and 0 only at the entry.\<close>

definition walk_depths :: "app_graph \<Rightarrow> (uuid \<Rightarrow> nat option) \<Rightarrow> bool" where
  "walk_depths g D \<longleftrightarrow> dom D = {u. \<exists>n. walk g n u} \<and> (\<forall>u d. D u = Some d \<longrightarrow> walk g d u)"

lemma analyse_depth_spec:
  obtains D where "walk_depths g D"
    and "analyse_depth_info pick g =
      (if fst ` set (graph_nodes g) \<subseteq> dom D
       then Inr (set_kvargs (\<lambda>u. [(''depth'', KInt (int (the (D u))))]) g) else Inl KeyError)"
proof -
  obtain depths where d: "depth_loop g pick 0 [(entry_node_uuid g, 0)] [entry_node_uuid g] = Inr depths"
    "depths_ok g depths" "dom (map_of depths) = {u. \<exists>n. walk g n u}" by (rule depths_exact)
  let ?D = "\<lambda>u. map_option nat (map_of depths u)"
  have dom: "dom ?D = dom (map_of depths)" by (auto simp: dom_def)
  have eq: "the (map_of depths u) = int (the (?D u))" if "u \<in> dom ?D" for u
    using that d(2) by (auto simp: depths_ok_def)
  have "list_all (\<lambda>(u, n). has_key u depths) (graph_nodes g) \<longleftrightarrow> fst ` set (graph_nodes g) \<subseteq> dom ?D"
    by (auto simp: list_all_iff has_key_Some dom_def)
  moreover have "set_kvargs (\<lambda>u. [(''depth'', KInt (the (map_of depths u)))]) g =
      set_kvargs (\<lambda>u. [(''depth'', KInt (int (the (?D u))))]) g"
    if "fst ` set (graph_nodes g) \<subseteq> dom ?D"
    using that by (intro set_kvargs_cong) (use eq in auto)
  moreover have "walk_depths g ?D" using d(2,3) dom by (auto simp: walk_depths_def depths_ok_def)
  ultimately show ?thesis using that [of ?D] d(1) by (simp add: analyse_depth_info_def)
qed

subsubsection \<open>Similarity\<close>

definition alike :: "(uuid \<Rightarrow> int) \<Rightarrow> (uuid, agent_node) odict \<Rightarrow> int \<Rightarrow> string option \<Rightarrow> uuid list" where
  "alike D ns d ty = map fst (filter (\<lambda>(u, n). D u = d \<and> node_type n = ty) ns)"

lemma rmap_Inr: "(\<And>x. x \<in> set xs \<Longrightarrow> f x = Inr (h x)) \<Longrightarrow> rmap f xs = Inr (map h xs)"
  by (induction xs) auto

lemma classify_spec:
  assumes "\<forall>(u, n) \<in> set ns. depth_of n = Inr (D u) \<and> D u \<in> fst ` set table" "wf_od table"
    and "\<forall>d types. map_of table d = Some types \<longrightarrow> wf_od types"
  shows "\<exists>table'. rfold classify_node ns table = Inr table' \<and> wf_od table'
    \<and> (\<forall>d types. map_of table' d = Some types \<longrightarrow> wf_od types)
    \<and> fst ` set table' = fst ` set table
    \<and> (\<forall>d ty. get_default [] ty (get_default [] d table') =
          get_default [] ty (get_default [] d table) @ alike D ns d ty)"
  using assms
proof (induction ns arbitrary: table)
  case Nil
  then show ?case by (simp add: alike_def)
next
  case (Cons x ns)
  obtain u n where x: "x = (u, n)" by fastforce
  obtain types where t: "depth_of n = Inr (D u)" "map_of table (D u) = Some types"
    using Cons.prems(1) x by (auto simp: image_iff) (metis map_of_eq_None_iff not_None_eq image_eqI fst_conv)
  let ?t = "AList.update (D u) (AList.update (node_type n) (get_default [] (node_type n) types @ [u]) types) table"
  have step: "classify_node x table = Inr ?t" using t by (simp add: classify_node_def x)
  have keys: "fst ` set ?t = fst ` set table" using t(2) by (auto dest: map_of_SomeD simp: rev_image_eqI)
  have "\<exists>table'. rfold classify_node ns ?t = Inr table' \<and> wf_od table'
    \<and> (\<forall>d types. map_of table' d = Some types \<longrightarrow> wf_od types)
    \<and> fst ` set table' = fst ` set ?t
    \<and> (\<forall>d ty. get_default [] ty (get_default [] d table') =
          get_default [] ty (get_default [] d ?t) @ alike D ns d ty)"
  proof (rule Cons.IH)
    show "\<forall>(u, n) \<in> set ns. depth_of n = Inr (D u) \<and> D u \<in> fst ` set ?t"
      using Cons.prems(1) keys by auto
    show "\<forall>d types. map_of ?t d = Some types \<longrightarrow> wf_od types"
      using Cons.prems(3) t(2) by auto
  qed (use Cons.prems(2) in simp)
  moreover have "get_default [] ty (get_default [] d ?t) =
      get_default [] ty (get_default [] d table) @ alike D [x] d ty" for d ty
    using t(2) by (auto simp: get_default_def alike_def x split: option.splits)
  moreover have "alike D (x # ns) d ty = alike D [x] d ty @ alike D ns d ty" for d ty
    by (simp add: alike_def)
  ultimately show ?case using step keys by auto
qed


lemma similarities_exact:
  assumes "wf_od ns" "wf_od table" "\<forall>d types. map_of table d = Some types \<longrightarrow> wf_od types"
    and eq: "\<forall>d ty. get_default [] ty (get_default [] d table) = alike D ns d ty"
  shows "(u, s) \<in> set (similarities table) \<longleftrightarrow>
    (\<exists>n. map_of ns u = Some n \<and> s = 1 / of_nat (length (alike D ns (D u) (node_type n))))"
proof -
  have entry: "us = alike D ns d ty" if "(d, types) \<in> set table" "(ty, us) \<in> set types" for d types ty us
  proof -
    have "map_of table d = Some types" using that(1) assms(2) by (simp add: wf_od_map_of_iff)
    moreover from this have "map_of types ty = Some us" using that(2) assms(3) by (simp add: wf_od_map_of_iff)
    ultimately show ?thesis using eq [rule_format, of ty d] by (simp add: get_default_def)
  qed
  have mem: "u \<in> set (alike D ns d ty) \<longleftrightarrow> (\<exists>n. map_of ns u = Some n \<and> D u = d \<and> node_type n = ty)" for d ty
    using wf_od_map_of_iff [OF assms(1)] by (force simp: alike_def)
  have found: "\<exists>types us. (D u, types) \<in> set table \<and> (node_type n, us) \<in> set types"
    if "map_of ns u = Some n" for n
  proof -
    have "alike D ns (D u) (node_type n) \<noteq> []" using mem that by (metis empty_iff empty_set)
    then have "get_default [] (node_type n) (get_default [] (D u) table) \<noteq> []" using eq by simp
    then show ?thesis by (auto simp: get_default_def split: option.splits dest!: map_of_SomeD)
  qed
  have sim: "(u, s) \<in> set (similarities table) \<longleftrightarrow>
      (\<exists>d types ty us. (d, types) \<in> set table \<and> (ty, us) \<in> set types \<and> u \<in> set us \<and> s = 1 / of_nat (length us))"
    unfolding similarities_def by (simp add: Bex_def image_iff split_paired_Ex) blast
  show ?thesis
  proof
    assume "(u, s) \<in> set (similarities table)"
    then obtain d types ty us where *: "(d, types) \<in> set table" "(ty, us) \<in> set types" "u \<in> set us"
      "s = 1 / of_nat (length us)" using sim by blast
    moreover from entry [OF *(1,2)] *(3) mem obtain n where "map_of ns u = Some n" "D u = d" "node_type n = ty" by auto
    ultimately show "\<exists>n. map_of ns u = Some n \<and> s = 1 / of_nat (length (alike D ns (D u) (node_type n)))"
      using entry [OF *(1,2)] by auto
  next
    assume "\<exists>n. map_of ns u = Some n \<and> s = 1 / of_nat (length (alike D ns (D u) (node_type n)))"
    then obtain n where n: "map_of ns u = Some n" "s = 1 / of_nat (length (alike D ns (D u) (node_type n)))" by blast
    from found [OF n(1)] obtain types us where *: "(D u, types) \<in> set table" "(node_type n, us) \<in> set types" by blast
    moreover have "u \<in> set us" using entry [OF *] mem n(1) by auto
    ultimately show "(u, s) \<in> set (similarities table)" using sim entry [OF *] n(2) by blast
  qed
qed

lemma map_of_map_key: "map_of (map (\<lambda>(u, n). (u, f u n)) xs) u = map_option (f u) (map_of xs u)"
  by (induction xs) auto

lemma set_similarity_spec:
  assumes "\<forall>(u, s) \<in> set xs. s = S u \<and> u \<in> fst ` set (graph_nodes g)"
  shows "\<exists>ns. rfold set_similarity xs g = Inr (g\<lparr>graph_nodes := ns\<rparr>) \<and> map fst ns = map fst (graph_nodes g)
    \<and> (\<forall>u. map_of ns u = map_option (if u \<in> fst ` set xs then add_kvargs [(''similarity'', KFloat (S u))] else id)
          (map_of (graph_nodes g) u))"
  using assms
proof (induction xs arbitrary: g)
  case Nil
  then show ?case by (intro exI [of _ "graph_nodes g"]) (simp add: option.map_ident)
next
  case (Cons x xs)
  obtain u s where x: "x = (u, s)" by fastforce
  then obtain n where n: "map_of (graph_nodes g) u = Some n" "s = S u"
    using Cons.prems by (auto simp: image_iff) (metis map_of_eq_None_iff not_None_eq image_eqI fst_conv)
  let ?ns = "AList.update u (add_kvargs [(''similarity'', KFloat (S u))] n) (graph_nodes g)"
  have step: "set_similarity x g = Inr (g\<lparr>graph_nodes := ?ns\<rparr>)" using n by (simp add: set_similarity_def x)
  have keys: "map fst ?ns = map fst (graph_nodes g)" "fst ` set ?ns = fst ` set (graph_nodes g)"
    using n(1) by (auto simp: update_keys dest: map_of_SomeD simp: rev_image_eqI)
  have twice: "add_kvargs kv (add_kvargs kv n) = add_kvargs kv n" if "kv = [(k, v)]" for k v kv
    using that by (simp add: add_kvargs_def AList.update_swap)
  have "\<forall>(u, s) \<in> set xs. s = S u \<and> u \<in> fst ` set (graph_nodes (g\<lparr>graph_nodes := ?ns\<rparr>))"
    using Cons.prems keys(2) by (auto simp del: fst_set_update)
  from Cons.IH [OF this] obtain ns where
    ns: "rfold set_similarity xs (g\<lparr>graph_nodes := ?ns\<rparr>) = Inr (g\<lparr>graph_nodes := ns\<rparr>)" "map fst ns = map fst ?ns"
    "\<forall>u. map_of ns u = map_option (if u \<in> fst ` set xs then add_kvargs [(''similarity'', KFloat (S u))] else id)
          (map_of ?ns u)" by (auto simp del: map_of_update)
  with step keys n twice show ?case by (intro exI [of _ ns]) (auto simp: x)
qed


subsubsection \<open>The annotations of a graph\<close>

definition annotation :: "string \<Rightarrow> uuid \<Rightarrow> app_graph \<Rightarrow> kvarg option" where
  "annotation k u g = Option.bind (map_of (graph_nodes g) u) (\<lambda>n. map_of (kvargs n) k)"

lemma map_of_add_kvargs [simp]: "map_of (kvargs (add_kvargs kv n)) = map_of (kvargs n) ++ map_of (rev kv)"
proof -
  have "map_of (fold (\<lambda>(k, v). AList.update k v) kv d) = map_of d ++ map_of (rev kv)" for d :: "(string, kvarg) odict"
    by (induction kv arbitrary: d) (auto simp: map_add_assoc [symmetric] fun_eq_iff map_add_def split: option.splits)
  then show ?thesis by (simp add: add_kvargs_def)
qed

lemma node_type_add_kvargs [simp]: "node_type (add_kvargs kv n) = node_type n"
  by (simp add: add_kvargs_def)

lemma set_kvargs_nodes [simp]:
  "map_of (graph_nodes (set_kvargs kv g)) u = map_option (add_kvargs (kv u)) (map_of (graph_nodes g) u)"
  "map fst (graph_nodes (set_kvargs kv g)) = map fst (graph_nodes g)"
  "graph_edges (set_kvargs kv g) = graph_edges g"
  by (auto simp: set_kvargs_def map_of_map_key)

lemma empty_types: "map_of (map (\<lambda>d. (d, [])) ds) d = (if d \<in> set ds then Some [] else None)"
  by (induction ds) auto

lemma similarity_spec:
  assumes "wf_od (graph_nodes g)" "graph_nodes g \<noteq> []"
    and "\<forall>(u, n) \<in> set (graph_nodes g). map_of (kvargs n) ''depth'' = Some (KInt (D u)) \<and> 0 \<le> D u"
  shows "\<exists>ns table. analyse_similarity_info g = Inr (g\<lparr>depth_type_dict := table, graph_nodes := ns\<rparr>)
    \<and> map fst ns = map fst (graph_nodes g)
    \<and> (\<forall>u n. map_of (graph_nodes g) u = Some n \<longrightarrow>
         map_of ns u = Some (add_kvargs [(''similarity'',
           KFloat (1 / of_nat (length (alike D (graph_nodes g) (D u) (node_type n)))))] n))"
proof -
  let ?ns = "graph_nodes g" and ?ds = "map (D \<circ> fst) (graph_nodes g)"
  let ?t = "map (\<lambda>d. (d, [])) [0..Max (set ?ds)] :: (int, (string option, uuid list) odict) odict"
  have dep: "depth_of n = Inr (D u)" if "(u, n) \<in> set ?ns" for u n
    using assms(3) that by (auto simp: depth_of_def get_default_def)
  then have ds: "rmap (depth_of \<circ> snd) ?ns = Inr ?ds" by (intro rmap_Inr) auto
  have keys: "fst ` set ?t = {0..Max (set ?ds)}" by (simp add: image_image)
  have "D u \<in> {0..Max (set ?ds)}" if u: "(u, n) \<in> set ?ns" for u n
  proof -
    have "D u \<in> set ?ds" using u by force
    then show ?thesis using assms(3) u Max_ge [of "set ?ds" "D u"] by auto
  qed
  then have c1: "\<forall>(u, n) \<in> set ?ns. depth_of n = Inr (D u) \<and> D u \<in> fst ` set ?t" using dep unfolding keys by blast
  have c2: "wf_od ?t" by (simp add: wf_od_def o_def)
  have c3: "\<forall>d types. map_of ?t d = Some types \<longrightarrow> wf_od types" by (simp add: empty_types)
  have "get_default [] ty (get_default [] d ?t) = []" for d ty by (simp add: get_default_def empty_types)
  with classify_spec [OF c1 c2 c3] obtain table where t: "rfold classify_node ?ns ?t = Inr table" "wf_od table"
    "\<forall>d types. map_of table d = Some types \<longrightarrow> wf_od types"
    "\<forall>d ty. get_default [] ty (get_default [] d table) = alike D ?ns d ty" by (metis append_Nil)
  let ?S = "\<lambda>u. 1 / of_nat (length (alike D ?ns (D u) (node_type (the (map_of ?ns u))))) :: pyfloat"
  note sim = similarities_exact [OF assms(1) t(2-4)]
  have "\<forall>(u, s) \<in> set (similarities table). s = ?S u \<and> u \<in> fst ` set (graph_nodes (g\<lparr>depth_type_dict := table\<rparr>))"
    using sim by (auto simp: dom_map_of_conv_image_fst [symmetric])
  from set_similarity_spec [OF this] obtain ns where
    ns: "rfold set_similarity (similarities table) (g\<lparr>depth_type_dict := table\<rparr>)
         = Inr (g\<lparr>depth_type_dict := table, graph_nodes := ns\<rparr>)" "map fst ns = map fst ?ns"
    "\<forall>u. map_of ns u = map_option (if u \<in> fst ` set (similarities table) then add_kvargs [(''similarity'', KFloat (?S u))] else id)
          (map_of ?ns u)" by auto
  have "u \<in> fst ` set (similarities table)" if "map_of ?ns u = Some n" for u n
    using sim that by (force simp: image_iff)
  with ns(3) have "map_of ns u = Some (add_kvargs [(''similarity'',
      KFloat (1 / of_nat (length (alike D ?ns (D u) (node_type n)))))] n)" if "map_of ?ns u = Some n" for u n
    using that by simp
  with ns(1,2) ds t(1) assms(2) show ?thesis by (auto simp: analyse_similarity_info_def intro!: exI)
qed


definition rooted :: "app_graph \<Rightarrow> bool" where
  "rooted g \<longleftrightarrow> (\<forall>u \<in> fst ` set (graph_nodes g). \<exists>n. walk g n u)"

definition same_depth_type :: "(uuid \<Rightarrow> nat) \<Rightarrow> app_graph \<Rightarrow> uuid \<Rightarrow> agent_node \<Rightarrow> nat" where
  "same_depth_type D g u n =
     length (filter (\<lambda>(v, n'). D v = D u \<and> node_type n' = node_type n) (graph_nodes g))"

text \<open>
  \<^bold>\<open>C26\<close>. The analysis of an agent graph returns exactly when every node can be reached from the
  entry, and raises \<open>KeyError\<close> otherwise. It then keeps the nodes and edges and annotates every node
  with the length of a walk from the entry as its depth and priority, with its degrees, and with the
  reciprocal of the number of nodes of the same depth and type as its similarity. This holds for every
  order in which the elements of the work set are popped.
\<close>

theorem graph_annotations_exact:
  assumes "wf_od (graph_nodes g)" "graph_nodes g \<noteq> []"
  shows "if rooted g then
      (\<exists>D g'. set_priorities pick g = Inr g' \<and> map fst (graph_nodes g') = map fst (graph_nodes g)
        \<and> graph_edges g' = graph_edges g
        \<and> (\<forall>u n. map_of (graph_nodes g) u = Some n \<longrightarrow> walk g (D u) u
             \<and> annotation ''depth'' u g' = Some (KInt (int (D u)))
             \<and> annotation ''priority'' u g' = Some (KInt (int (D u)))
             \<and> annotation ''in_degree'' u g' = Some (KInt (int (length (predecessors u g))))
             \<and> annotation ''out_degree'' u g' = Some (KInt (int (length (successors u g))))
             \<and> annotation ''similarity'' u g' = Some (KFloat (1 / of_nat (same_depth_type D g u n)))))
    else set_priorities pick g = Inl KeyError"
proof -
  obtain D where D: "walk_depths g D" and a: "analyse_depth_info pick g =
      (if fst ` set (graph_nodes g) \<subseteq> dom D
       then Inr (set_kvargs (\<lambda>u. [(''depth'', KInt (int (the (D u))))]) g) else Inl KeyError)"
    by (rule analyse_depth_spec)
  have r: "rooted g \<longleftrightarrow> fst ` set (graph_nodes g) \<subseteq> dom D" using D by (auto simp: rooted_def walk_depths_def)
  show ?thesis
  proof (cases "rooted g")
    case False
    with a r show ?thesis by (simp add: set_priorities_def)
  next
    case True
    let ?D = "\<lambda>u. the (D u)"
    let ?g1 = "set_kvargs (\<lambda>u. [(''depth'', KInt (int (?D u)))]) g"
    let ?g2 = "analyse_degree_info ?g1"
    have walk: "walk g (?D u) u" if "map_of (graph_nodes g) u = Some n" for u n
    proof -
      have "u \<in> fst ` set (graph_nodes g)" using that by (metis domI dom_map_of_conv_image_fst)
      with True r obtain d where "D u = Some d" by blast
      with D show ?thesis by (simp add: walk_depths_def)
    qed
    have keys: "map fst (graph_nodes ?g2) = map fst (graph_nodes g)"
      by (simp add: analyse_degree_info_def Let_def set_kvargs_def o_def split_def)
    have nodes: "map_of (graph_nodes ?g2) u =
        map_option (add_kvargs [(''in_degree'', KInt (int (length (predecessors u g)))),
                                (''out_degree'', KInt (int (length (successors u g))))]
                    \<circ> add_kvargs [(''depth'', KInt (int (?D u)))]) (map_of (graph_nodes g) u)" for u
      by (simp add: analyse_degree_info_def Let_def predecessors_def successors_def option.map_comp o_def)
    have wf: "wf_od (graph_nodes ?g2)" "graph_nodes ?g2 \<noteq> []"
      using assms keys by (auto simp: wf_od_def)
    have dep: "\<forall>(u, n) \<in> set (graph_nodes ?g2). map_of (kvargs n) ''depth'' = Some (KInt (int (?D u))) \<and> 0 \<le> int (?D u)"
      by (auto simp: wf_od_map_of_iff [OF wf(1), symmetric] nodes map_add_def)
    obtain ns table where s: "analyse_similarity_info ?g2 = Inr (?g2\<lparr>depth_type_dict := table, graph_nodes := ns\<rparr>)"
      "map fst ns = map fst (graph_nodes ?g2)"
      "\<forall>u n. map_of (graph_nodes ?g2) u = Some n \<longrightarrow> map_of ns u = Some (add_kvargs [(''similarity'',
           KFloat (1 / of_nat (length (alike (\<lambda>u. int (?D u)) (graph_nodes ?g2) (int (?D u)) (node_type n)))))] n)"
      using similarity_spec [OF wf dep] by blast
    have alike: "length (alike (\<lambda>u. int (?D u)) (graph_nodes ?g2) (int (?D u)) ty) =
        length (filter (\<lambda>(v, n'). ?D v = ?D u \<and> node_type n' = ty) (graph_nodes g))" for u ty
      by (simp add: alike_def analyse_degree_info_def Let_def set_kvargs_def filter_map o_def split_def)
    let ?g' = "?g2\<lparr>depth_type_dict := table,
        graph_nodes := map (\<lambda>(u, n). (u, add_kvargs [(''priority'', simple_preiority_score n)] n)) ns\<rparr>"
    have 1: "set_priorities pick g = Inr ?g'" using a True r s(1) by (simp add: set_priorities_def)
    have 2: "map fst (graph_nodes ?g') = map fst (graph_nodes g)" using s(2) keys by (simp add: o_def split_def)
    have 3: "graph_edges ?g' = graph_edges g" by (simp add: analyse_degree_info_def Let_def)
    have 4: "walk g (?D u) u
             \<and> annotation ''depth'' u ?g' = Some (KInt (int (?D u)))
             \<and> annotation ''priority'' u ?g' = Some (KInt (int (?D u)))
             \<and> annotation ''in_degree'' u ?g' = Some (KInt (int (length (predecessors u g))))
             \<and> annotation ''out_degree'' u ?g' = Some (KInt (int (length (successors u g))))
             \<and> annotation ''similarity'' u ?g' = Some (KFloat (1 / of_nat (same_depth_type ?D g u n)))"
      if u: "map_of (graph_nodes g) u = Some n" for u n
      using walk [OF u] s(3) nodes [of u] u alike [of u "node_type n"]
      by (simp add: annotation_def map_of_map_key simple_preiority_score_def get_default_def same_depth_type_def map_add_def)
    show ?thesis unfolding if_P [OF True] by (intro exI [of _ ?D] exI [of _ ?g'] conjI 1 2 3) (use 4 in blast)
  qed
qed

text \<open>A graph in which the exit is two edges from the entry, and three along another way.\<close>

definition sample_graph :: app_graph where
  "sample_graph =
     projr (rfold (\<lambda>(s, d). add_edge s d) [(0, 2), (0, 3), (2, 1), (3, 4), (4, 1)]
       (fold add_node (map (\<lambda>u. Node 3 u None (Some ''llm'') []) [2, 3, 4]) (graph_init 0 1)))"

lemma sample_graph_eq:
  "graph_nodes sample_graph =
     [(0, VoidNode 0 ''entry_node''), (1, VoidNode 1 ''exit_node''), (2, Node 3 2 None (Some ''llm'') []),
      (3, Node 3 3 None (Some ''llm'') []), (4, Node 3 4 None (Some ''llm'') [])]"
  "graph_edges sample_graph = [(0, [2, 3]), (2, [1]), (3, [4]), (4, [1])]" "entry_node_uuid sample_graph = 0"
  by (simp_all add: sample_graph_def graph_init_def add_node_def add_edge_def Node_def successors_def get_default_def
      has_key_def)

lemma sample_rooted: "rooted sample_graph"
proof -
  have s: "successors u sample_graph = get_default [] u [(0, [2, 3]), (2, [1]), (3, [4]), (4, [1])]" for u
    by (simp add: successors_def sample_graph_eq)
  have e: "walk sample_graph 0 0" using walk_entry [of sample_graph] by (simp add: sample_graph_eq)
  then have "\<exists>n. walk sample_graph n 0" by blast
  moreover from walk_edge [OF e] have "walk sample_graph 1 2" "walk sample_graph 1 3"
    by (simp_all add: s get_default_def)
  moreover from walk_edge [OF this(1)] walk_edge [OF this(2)] have "walk sample_graph (Suc 1) 1" "walk sample_graph (Suc 1) 4"
    by (simp_all add: s get_default_def)
  ultimately show ?thesis by (auto simp: rooted_def sample_graph_eq)
qed

theorem graph_annotations_exact_witness:
  "\<exists>g' d. set_priorities (\<lambda>_. 0) sample_graph = Inr g' \<and> walk sample_graph d 1
     \<and> annotation ''priority'' 1 g' = Some (KInt (int d)) \<and> annotation ''in_degree'' 1 g' = Some (KInt 2)"
proof -
  have "wf_od (graph_nodes sample_graph)" "graph_nodes sample_graph \<noteq> []" by (simp_all add: sample_graph_eq)
  from graph_annotations_exact [OF this, of "\<lambda>_. 0"] sample_rooted obtain D g' where
    "set_priorities (\<lambda>_. 0) sample_graph = Inr g'"
    and "\<forall>u n. map_of (graph_nodes sample_graph) u = Some n \<longrightarrow> walk sample_graph (D u) u
      \<and> annotation ''priority'' u g' = Some (KInt (int (D u)))
      \<and> annotation ''in_degree'' u g' = Some (KInt (int (length (predecessors u sample_graph))))" by auto
  then show ?thesis by (auto simp: sample_graph_eq predecessors_def intro!: exI [of _ "D 1"])
qed


end
