(* ===== verification/Spec2Isabelle.thy ===== *)
theory Spec2Isabelle
  imports Prelude Cache_Policies CPU_Manager Protocol Metrics Config References Events Lifecycle
    Lifecycle_Machine Capacity Free_Queue Block_Hash Block_Metrics Block_Pool
    Scheduling Executed_Ranges Admission_Order Accounting Controller_Machine
    Encoder_Cache Heap_Queue Request_Queue Offload_Policy
    Offload_Lookup Offload_Scheduler Offloading
    Agent_Graph
begin

text \<open>
  Verification development of TokenCake.
\<close>

end
